(* ===== verification/Go_Prelude.thy ===== *)
theory Go_Prelude
  imports Main "HOL-Library.Word" "HOL-Library.AList" "HOL-Library.Multiset"
    "HOL-Library.Sublist" "HOL-Library.Monad_Syntax"
begin

text \<open>
  What the components share: the Go types the program uses as HOL types, Go maps as association
  lists together with the unspecified order of \<^verbatim>\<open>range\<close> over a map, and the generic
  lemmas on lists, maps and integers that the component theories apply.

  A Go \<^verbatim>\<open>string\<close> and a \<^verbatim>\<open>[]byte\<close> are both finite byte sequences, and the
  conversions between them copy the bytes. HOL's \<^typ>\<open>char\<close> has exactly the 256 byte values,
  so both are \<^typ>\<open>string\<close> here and the conversions disappear. \<^verbatim>\<open>nil\<close> and the
  empty slice are the same value: the program only ever asks for the length.
\<close>

named_theorems go_map "lookup, update, deletion and iteration of Go maps"

type_synonym bytes = string
type_synonym uint8 = "8 word"
type_synonym uint16 = "16 word"
type_synonym int64 = "64 word"

section \<open>Go maps\<close>

text \<open>
  A Go map is an association list without duplicate keys; \<open>map_of\<close> is the lookup
  \<^verbatim>\<open>v, ok := m[k]\<close>, \<open>AList.update\<close> the assignment, \<open>AList.delete\<close> the builtin
  \<^verbatim>\<open>delete\<close> and \<open>length\<close> the builtin \<^verbatim>\<open>len\<close>. A set
  \<^verbatim>\<open>map[string]struct{}\<close> has the value type \<^typ>\<open>unit\<close>.

  The order in which \<^verbatim>\<open>range\<close> visits a map is unspecified and may differ between two
  loops over the same map. Every operation that ranges over a map takes that order as an argument:
  a function that permutes the entries (\<open>is_iter\<close>).
\<close>

type_synonym ('k, 'v) gomap = "('k \<times> 'v) list"
type_synonym ('k, 'v) iter = "('k \<times> 'v) list \<Rightarrow> ('k \<times> 'v) list"

abbreviation gokeys :: "('k, 'v) gomap \<Rightarrow> 'k list" where
  "gokeys mp \<equiv> map fst mp"

definition is_iter :: "('k, 'v) iter \<Rightarrow> bool" where
  "is_iter it \<longleftrightarrow> (\<forall>mp. mset (it mp) = mset mp)"

lemma is_iterD [go_map]: "is_iter it \<Longrightarrow> mset (it mp) = mset mp"
  by (simp add: is_iter_def)

lemma is_iter_id [simp]: "is_iter (\<lambda>mp. mp)"
  by (simp add: is_iter_def)

lemma is_iter_rev [simp]: "is_iter rev"
  by (simp add: is_iter_def)

lemma iter_set [go_map]: "is_iter it \<Longrightarrow> set (it mp) = set mp"
  by (metis is_iterD set_mset_mset)

lemma iter_length [go_map]: "is_iter it \<Longrightarrow> length (it mp) = length mp"
  by (metis is_iterD size_mset)

lemma iter_distinct_keys [go_map]:
  "is_iter it \<Longrightarrow> distinct (gokeys (it mp)) = distinct (gokeys mp)"
  by (metis is_iterD mset_eq_imp_distinct_iff mset_map)

lemma map_of_update [simp, go_map]: "map_of (AList.update k v mp) = (map_of mp)(k \<mapsto> v)"
  by (rule AList.update_conv')

lemma map_of_delete [simp, go_map]: "map_of (AList.delete k mp) = (map_of mp)(k := None)"
  by (rule AList.delete_conv')

lemma distinct_gokeys_update [simp, intro]:
  "distinct (gokeys mp) \<Longrightarrow> distinct (gokeys (AList.update k v mp))"
  by (rule AList.distinct_update)

lemma distinct_gokeys_delete [simp, intro]:
  "distinct (gokeys mp) \<Longrightarrow> distinct (gokeys (AList.delete k mp))"
  by (rule AList.distinct_delete)

lemma set_delete [go_map]: "set (AList.delete k mp) = {e \<in> set mp. fst e \<noteq> k}"
  by (induction mp) auto

lemma keys_update [simp, go_map]: "fst ` set (AList.update k v mp) = insert k (fst ` set mp)"
  by (induction mp) auto

lemma update_new: "k \<notin> fst ` set mp \<Longrightarrow> AList.update k v mp = mp @ [(k, v)]"
  by (induction mp) auto

lemma map_of_iter [go_map]:
  "is_iter it \<Longrightarrow> distinct (gokeys mp) \<Longrightarrow> map_of (it mp) = map_of mp"
  by (metis iter_distinct_keys iter_set map_of_inject_set)

lemma delete_absent: "map_of mp k = None \<Longrightarrow> AList.delete k mp = mp"
  by (induction mp) (auto split: if_splits)

lemma delete_if_present [simp]:
  "(case map_of mp k of None \<Rightarrow> mp | Some v \<Rightarrow> AList.delete k mp) = AList.delete k mp"
  by (simp add: delete_absent split: option.split)

text \<open>A loop that stores an entry for each element of a list.\<close>

abbreviation store_all :: "('a \<Rightarrow> 'k) \<Rightarrow> ('a \<Rightarrow> 'v) \<Rightarrow> 'a list \<Rightarrow> ('k, 'v) gomap \<Rightarrow> ('k, 'v) gomap" where
  "store_all f g xs mp \<equiv> fold (\<lambda>x. AList.update (f x) (g x)) xs mp"

lemma keys_store_all [go_map]: "fst ` set (store_all f g xs mp) = fst ` set mp \<union> f ` set xs"
  by (induction xs arbitrary: mp) auto

lemma distinct_store_all [go_map]:
  "distinct (gokeys mp) \<Longrightarrow> distinct (gokeys (store_all f g xs mp))"
  by (induction xs arbitrary: mp) auto

lemma map_of_store_all:
  "map_of (store_all f g xs mp) k = Some v \<Longrightarrow>
   (\<exists>x \<in> set xs. f x = k \<and> g x = v) \<or> map_of mp k = Some v"
proof (induction xs arbitrary: mp)
  case (Cons x xs)
  from Cons.IH [of "AList.update (f x) (g x) mp"] Cons.prems show ?case
    by (auto split: if_splits)
qed simp

lemma map_of_store_all_None: "map_of (store_all f g xs []) k = None \<longleftrightarrow> k \<notin> f ` set xs"
  by (simp add: map_of_eq_None_iff keys_store_all)

lemma gomap_card: "distinct (gokeys mp) \<Longrightarrow> length mp = card (dom (map_of mp))"
  by (metis distinct_card dom_map_of_conv_image_fst length_map list.set_map)

lemma fold_delete_filter [go_map]: "fold AList.delete ks mp = filter (\<lambda>e. fst e \<notin> set ks) mp"
proof (induction ks arbitrary: mp)
  case (Cons k ks)
  have "AList.delete k mp = filter (\<lambda>e. fst e \<noteq> k) mp"
    unfolding AList.delete_eq by (rule filter_cong) auto
  with Cons show ?case by (auto intro!: filter_cong)
qed simp

lemma iter_values:
  assumes "is_iter it" shows "mset (map snd (it mp)) = mset (map snd mp)"
  using is_iterD [OF assms] by (metis mset_map)

section \<open>Lists\<close>

text \<open>The first element of each class of elements that agree on a key, in the order of the list.\<close>

fun firsts_by :: "('a \<Rightarrow> 'k) \<Rightarrow> 'k set \<Rightarrow> 'a list \<Rightarrow> 'a list" where
  "firsts_by f seen [] = []"
| "firsts_by f seen (x # xs) =
     (if f x \<in> seen then firsts_by f seen xs
      else x # firsts_by f (insert (f x) seen) xs)"

lemma firsts_by_subseq: "subseq (firsts_by f seen xs) xs"
  by (induction xs arbitrary: seen) auto

lemma firsts_by_keys: "f ` set (firsts_by f seen xs) = f ` set xs - seen"
  by (induction xs arbitrary: seen) auto

lemma firsts_by_distinct: "distinct (map f (firsts_by f seen xs))"
proof (induction xs arbitrary: seen)
  case (Cons x xs)
  have "f x \<notin> set (map f (firsts_by f (insert (f x) seen) xs))"
    using firsts_by_keys [of f "insert (f x) seen" xs] by auto
  with Cons.IH show ?case by auto
qed simp

lemma firsts_by_id:
  "distinct (map f xs) \<Longrightarrow> f ` set xs \<inter> seen = {} \<Longrightarrow> firsts_by f seen xs = xs"
  by (induction xs arbitrary: seen) auto

text \<open>In a list sorted by some measure, the element kept for a key has the least measure.\<close>

lemma firsts_by_least:
  assumes "sorted (map g xs)" and "x \<in> set xs" and "f x \<notin> seen"
  shows "\<exists>y \<in> set (firsts_by f seen xs). f y = f x \<and> g y \<le> g x"
  using assms
proof (induction xs arbitrary: seen)
  case (Cons z zs)
  show ?case
  proof (cases "f z = f x")
    case True
    with Cons.prems show ?thesis by auto
  next
    case False
    with Cons.prems have "x \<in> set zs" and "f x \<notin> insert (f z) seen" by auto
    with Cons show ?thesis by (cases "f z \<in> seen") auto
  qed
qed simp

lemma sorted_map_subseq:
  "subseq ys xs \<Longrightarrow> sorted (map g xs) \<Longrightarrow> sorted (map g ys)"
proof (induction rule: list_emb.induct)
  case (list_emb_Cons2 x y xs ys)
  then show ?case
    by (auto dest: list_emb_set)
qed auto

lemma distinct_count_list: "distinct xs \<Longrightarrow> count_list xs a = (if a \<in> set xs then 1 else 0)"
  by (induction xs) auto

lemma count_list_distinct: "(\<And>a. a \<in> set xs \<Longrightarrow> count_list xs a = 1) \<Longrightarrow> distinct xs"
proof (induction xs)
  case (Cons x xs)
  have "x \<notin> set xs"
    using Cons.prems [of x] by (simp add: count_list_0_iff)
  moreover have "count_list xs a = 1" if "a \<in> set xs" for a
    using Cons.prems [of a] that \<open>x \<notin> set xs\<close> by (auto split: if_splits)
  ultimately show ?case using Cons.IH by simp
qed simp

lemma sum_list_permute:
  fixes g :: "'a \<Rightarrow> int"
  shows "mset xs = mset ys \<Longrightarrow> sum_list (map g xs) = sum_list (map g ys)"
  by (metis mset_map sum_mset_sum_list)

end
