(* ===== verification/Miner_Settings.thy ===== *)
theory Miner_Settings
  imports Go_Prelude
begin

text \<open>
  The configuration of a miner, \<^verbatim>\<open>settings/settings.go\<close>. Reading the file and
  \<^verbatim>\<open>json.Unmarshal\<close> are arguments of \<^verbatim>\<open>LoadSettings\<close>.
\<close>

record Settings =
  MinedCoinsPerOpBlock :: uint8
  MinedCoinsPerNoOpBlock :: uint8
  NumCoinsPerFileCreate :: uint8
  GenOpBlockTimeout :: uint8
  GenesisBlockHash :: string
  PowPerOpBlock :: uint8
  PowPerNoOpBlock :: uint8
  ConfirmsPerFileCreate :: uint8
  ConfirmsPerFileAppend :: uint8
  SettingsMinerID :: string
  PeerMinersAddrs :: "string list"
  IncomingMinersAddr :: string
  OutgoingMinersIP :: string
  IncomingClientsAddr :: string

text \<open>The zero value, which a \<^verbatim>\<open>Blockchain\<close> literal without a config field carries.\<close>

definition zero_Settings :: Settings where
  "zero_Settings = \<lparr>MinedCoinsPerOpBlock = 0, MinedCoinsPerNoOpBlock = 0, NumCoinsPerFileCreate = 0,
     GenOpBlockTimeout = 0, GenesisBlockHash = [], PowPerOpBlock = 0, PowPerNoOpBlock = 0,
     ConfirmsPerFileCreate = 0, ConfirmsPerFileAppend = 0, SettingsMinerID = [],
     PeerMinersAddrs = [], IncomingMinersAddr = [], OutgoingMinersIP = [],
     IncomingClientsAddr = []\<rparr>"

text \<open>\<^verbatim>\<open>log.Fatal\<close> is \<open>Inl\<close>. \<^verbatim>\<open>json.Unmarshal\<close> stores what it can decode into
  the settings; its error is ignored.\<close>

definition LoadSettings ::
  "(string \<Rightarrow> string + bytes) \<Rightarrow> (bytes \<Rightarrow> Settings \<Rightarrow> Settings \<times> string option) \<Rightarrow> string \<Rightarrow> string + Settings" where
  "LoadSettings readFile unmarshal fname =
     (case readFile fname of
        Inl err \<Rightarrow> Inl err
      | Inr file_bytes \<Rightarrow> (let (settings, err) = unmarshal file_bytes zero_Settings in Inr settings))"

end
