(* ===== verification/Bclib_Operation.thy ===== *)
theory Bclib_Operation
  imports Miner_Settings
begin

text \<open>
  \<^verbatim>\<open>bclib/operation.go\<close>: file operations, their identifiers and the filter that a miner
  applies to a batch before it validates and mines it.

  \<^verbatim>\<open>OpType\<close> is an integer type with three named constants; a decoded message may carry
  any other integer, which is \<open>UnknownOp\<close> here. \<^verbatim>\<open>crypto/md5\<close> and
  \<^verbatim>\<open>encoding/gob\<close> enter as the functions of a record \<open>host\<close>, an argument of every
  definition that hashes or encodes: the theorems hold whatever these functions return.
\<close>

datatype OpType = Create | Append | Delete | UnknownOp int

record Operation =
  Op :: OpType
  Data :: bytes
  Filename :: string
  MinerID :: string
  OperationID :: string
  Timestamp :: int64

record host =
  md5_sum :: "bytes \<Rightarrow> bytes"
  gob_Operation :: "Operation \<Rightarrow> bytes"
  gob_Operations :: "Operation list \<Rightarrow> bytes"

definition MarshallOperation :: "host \<Rightarrow> Operation \<Rightarrow> bytes" where
  "MarshallOperation H oper = gob_Operation H oper"

definition MarshallOperations :: "host \<Rightarrow> Operation list \<Rightarrow> bytes" where
  "MarshallOperations H ops = gob_Operations H ops"

text \<open>The clock reading \<^verbatim>\<open>time.Now().UnixNano()\<close> is the argument \<open>now\<close>.\<close>

definition NewOperation ::
  "host \<Rightarrow> int64 \<Rightarrow> OpType \<Rightarrow> string \<Rightarrow> string \<Rightarrow> bytes \<Rightarrow> Operation" where
  "NewOperation H now t mID fname data =
     (let oper = \<lparr>Op = t, Data = data, Filename = fname, MinerID = mID, OperationID = [],
                  Timestamp = now\<rparr>;
          b = MarshallOperation H oper;
          hash = md5_sum H b
      in oper\<lparr>OperationID := hash\<rparr>)"

section \<open>FilterInvalidOperations\<close>

text \<open>
  \<^verbatim>\<open>sort.Slice\<close> sorts by the timestamp and leaves the order of operations with equal
  timestamps open. It is the argument \<open>srt\<close>; \<open>sorts_ops\<close> is its documented contract.
\<close>

definition op_time :: "Operation \<Rightarrow> int" where
  "op_time oper = sint (Timestamp oper)"

definition sorts_ops :: "(Operation list \<Rightarrow> Operation list) \<Rightarrow> bool" where
  "sorts_ops srt \<longleftrightarrow> (\<forall>ops. mset (srt ops) = mset ops \<and> sorted (map op_time (srt ops)))"

fun filter_loop ::
  "Operation list \<Rightarrow> (string, unit) gomap \<Rightarrow> (string, unit) gomap \<Rightarrow> Operation list
     \<Rightarrow> Operation list" where
  "filter_loop [] createFnames opIDs validOps = validOps"
| "filter_loop (oper # ops) createFnames opIDs validOps =
     (if Op oper = Create then
        (case map_of createFnames (Filename oper) of
           None \<Rightarrow> filter_loop ops (AList.update (Filename oper) () createFnames) opIDs
                     (validOps @ [oper])
         | Some _ \<Rightarrow> filter_loop ops createFnames opIDs validOps)
      else
        (case map_of opIDs (OperationID oper) of
           None \<Rightarrow> filter_loop ops createFnames (AList.update (OperationID oper) () opIDs)
                     (validOps @ [oper])
         | Some _ \<Rightarrow> filter_loop ops createFnames opIDs validOps))"

definition FilterInvalidOperations ::
  "(Operation list \<Rightarrow> Operation list) \<Rightarrow> Operation list \<Rightarrow> Operation list" where
  "FilterInvalidOperations srt ops = filter_loop (srt ops) [] [] []"

definition ListOpsFromMap ::
  "(string, Operation) iter \<Rightarrow> (string, Operation) gomap \<Rightarrow> Operation list" where
  "ListOpsFromMap it ops = map snd (it ops)"

text \<open>
  The filter keeps one operation for each key: creations are keyed by their file name, all other
  operations by their identifier.
\<close>

definition filter_key :: "Operation \<Rightarrow> string + string" where
  "filter_key oper = (if Op oper = Create then Inl (Filename oper) else Inr (OperationID oper))"

definition seen_keys :: "(string, unit) gomap \<Rightarrow> (string, unit) gomap \<Rightarrow> (string + string) set" where
  "seen_keys cf ids = Inl ` set (gokeys cf) \<union> Inr ` set (gokeys ids)"

lemma filter_loop_firsts:
  "filter_loop ops cf ids valid = valid @ firsts_by filter_key (seen_keys cf ids) ops"
proof (induction ops arbitrary: cf ids valid)
  case (Cons oper ops)
  have cf: "seen_keys (AList.update k () cf) ids = insert (Inl k) (seen_keys cf ids)" for k
    by (simp add: seen_keys_def)
  have ids: "seen_keys cf (AList.update k () ids) = insert (Inr k) (seen_keys cf ids)" for k
    by (simp add: seen_keys_def)
  have mem: "filter_key oper \<in> seen_keys cf ids \<longleftrightarrow>
      (if Op oper = Create then map_of cf (Filename oper) \<noteq> None
       else map_of ids (OperationID oper) \<noteq> None)"
    by (auto simp: filter_key_def seen_keys_def map_of_eq_None_iff)
  show ?case
    using Cons.IH mem cf ids
    by (cases "Op oper = Create") (auto simp: filter_key_def split: option.split)
qed simp

lemma FilterInvalidOperations_firsts:
  "FilterInvalidOperations srt ops = firsts_by filter_key {} (srt ops)"
  by (simp add: FilterInvalidOperations_def filter_loop_firsts seen_keys_def)

lemma sorts_opsD:
  assumes "sorts_ops srt"
  shows sorts_ops_mset: "mset (srt ops) = mset ops"
    and sorts_ops_sorted: "sorted (map op_time (srt ops))"
    and sorts_ops_set: "set (srt ops) = set ops"
  using assms by (auto simp: sorts_ops_def dest: mset_eq_setD)

lemma sorts_ops_sort_key: "sorts_ops (sort_key op_time)"
  by (simp add: sorts_ops_def)

text \<open>C20: \<^verbatim>\<open>FilterInvalidOperations\<close> returns a subsequence of the batch in
  timestamp order, with at most one creation per file name and at most one other operation per
  identifier; and for every operation of the batch it keeps one with the same key that is at least
  as old.\<close>

theorem FilterInvalidOperations_correct:
  assumes "sorts_ops srt"
  shows "subseq (FilterInvalidOperations srt ops) (srt ops) \<and>
    sorted (map op_time (FilterInvalidOperations srt ops)) \<and>
    distinct (map filter_key (FilterInvalidOperations srt ops)) \<and>
    (\<forall>oper \<in> set ops. \<exists>kept \<in> set (FilterInvalidOperations srt ops).
       filter_key kept = filter_key oper \<and> op_time kept \<le> op_time oper)"
  using sorts_ops_sorted [OF assms, of ops] sorts_ops_set [OF assms, of ops]
  by (simp add: FilterInvalidOperations_firsts firsts_by_subseq firsts_by_distinct
      sorted_map_subseq [OF firsts_by_subseq] firsts_by_least)

definition sample_ops :: "Operation list" where
  "sample_ops =
     [\<lparr>Op = Create, Data = [], Filename = ''f'', MinerID = ''A'', OperationID = ''2'', Timestamp = 7\<rparr>,
      \<lparr>Op = Append, Data = ''x'', Filename = ''f'', MinerID = ''A'', OperationID = ''3'', Timestamp = 9\<rparr>,
      \<lparr>Op = Create, Data = [], Filename = ''f'', MinerID = ''B'', OperationID = ''1'', Timestamp = 5\<rparr>,
      \<lparr>Op = Append, Data = ''x'', Filename = ''f'', MinerID = ''A'', OperationID = ''3'', Timestamp = 9\<rparr>]"

theorem FilterInvalidOperations_correct_witness:
  "map OperationID (FilterInvalidOperations (sort_key op_time) sample_ops) = [''1'', ''3''] \<and>
   sorted (map op_time (FilterInvalidOperations (sort_key op_time) sample_ops)) \<and>
   distinct (map filter_key (FilterInvalidOperations (sort_key op_time) sample_ops))"
proof -
  have "map OperationID (FilterInvalidOperations (sort_key op_time) sample_ops) = [''1'', ''3'']"
    by (simp add: FilterInvalidOperations_def sample_ops_def op_time_def)
  then show ?thesis
    using FilterInvalidOperations_correct [OF sorts_ops_sort_key, of sample_ops] by blast
qed

end
