(* ===== verification/Bclib_Block.thy ===== *)
theory Bclib_Block
  imports Bclib_Operation
begin

unbundle bit_operations_syntax

text \<open>
  \<^verbatim>\<open>bclib/block.go\<close> and \<^verbatim>\<open>bclib/pow.go\<close>: blocks and their proof of work.

  The Go struct \<^verbatim>\<open>Block\<close> embeds \<^verbatim>\<open>Header\<close>; here it extends the record. The
  search \<^verbatim>\<open>Run\<close> polls its stop channel before every nonce: \<open>stop n\<close> says whether the
  poll before nonce \<open>n\<close> finds the channel ready (a nil channel is never ready,
  \<open>\<lambda>_. False\<close>).
\<close>

record Header =
  HeaderTimestamp :: int64
  Operations :: "Operation list"
  PreviousHash :: bytes

record Block = Header +
  BlockMinerID :: string
  Hash :: bytes
  Nonce :: int

record ProofOfWork =
  pow_block :: Block
  difficulty :: nat

definition maxNonce :: nat where
  "maxNonce = 2 ^ 63 - 1"

text \<open>\<^verbatim>\<open>uint(difficulty * 4)\<close>: the conversion wraps a negative product.\<close>

definition NewProofOfWork :: "Block \<Rightarrow> int \<Rightarrow> ProofOfWork" where
  "NewProofOfWork b diff =
     \<lparr>pow_block = b, difficulty = unat (word_of_int (diff * 4) :: 64 word)\<rparr>"

text \<open>\<^verbatim>\<open>binary.Write\<close> with \<^verbatim>\<open>binary.BigEndian\<close>: eight bytes, high byte first.\<close>

definition IntToHex :: "int64 \<Rightarrow> bytes" where
  "IntToHex num = map (\<lambda>i. char_of (unat (drop_bit (8 * i) num))) [7, 6, 5, 4, 3, 2, 1, 0]"

definition prepareData :: "host \<Rightarrow> ProofOfWork \<Rightarrow> int \<Rightarrow> bytes" where
  "prepareData H pow nonce =
     (let b = pow_block pow;
          operations = (if 0 < length (Operations b) then MarshallOperations H (Operations b) else [])
      in concat [PreviousHash b, operations, BlockMinerID b, IntToHex (HeaderTimestamp b),
                 IntToHex (word_of_nat (difficulty pow)), IntToHex (word_of_int nonce)])"

text \<open>\<^verbatim>\<open>big.Int.SetBytes\<close> reads a byte slice as a big-endian natural number.\<close>

definition SetBytes :: "bytes \<Rightarrow> nat" where
  "SetBytes bs = foldl (\<lambda>n c. n * 256 + of_char c) 0 bs"

text \<open>The test both \<^verbatim>\<open>Run\<close> and \<^verbatim>\<open>Validate\<close> make on a hash.\<close>

definition hash_ok :: "nat \<Rightarrow> bytes \<Rightarrow> bool" where
  "hash_ok d hash =
     (let hashInt = SetBytes hash; rshHashInt = push_bit d (drop_bit d (SetBytes hash))
      in hashInt = rshHashInt)"

function run_loop ::
  "host \<Rightarrow> ProofOfWork \<Rightarrow> (nat \<Rightarrow> bool) \<Rightarrow> nat \<Rightarrow> bytes \<Rightarrow> int \<times> bytes" where
  "run_loop H pow stop nonce hash =
     (if nonce < maxNonce then
        (if stop nonce then (-1, [])
         else
           (let hash' = md5_sum H (prepareData H pow (int nonce))
            in if hash_ok (difficulty pow) hash' then (int nonce, hash')
               else run_loop H pow stop (nonce + 1) hash'))
      else (int nonce, hash))"
  by pat_completeness auto
termination
  by (relation "measure (\<lambda>(H, pow, stop, nonce, hash). maxNonce - nonce)") auto

declare run_loop.simps [simp del]

definition Run :: "host \<Rightarrow> ProofOfWork \<Rightarrow> (nat \<Rightarrow> bool) \<Rightarrow> int \<times> bytes" where
  "Run H pow stop = run_loop H pow stop 0 (replicate 16 (CHR 0x00))"

definition Validate :: "host \<Rightarrow> ProofOfWork \<Rightarrow> bool" where
  "Validate H pow =
     (let hash = md5_sum H (prepareData H pow (Nonce (pow_block pow)))
      in hash_ok (difficulty pow) hash)"

definition NewBlock ::
  "host \<Rightarrow> int64 \<Rightarrow> Operation list \<Rightarrow> bytes \<Rightarrow> string \<Rightarrow> int \<Rightarrow> (nat \<Rightarrow> bool) \<Rightarrow> Block" where
  "NewBlock H now ops prevHash mID diff stop =
     (let block = \<lparr>HeaderTimestamp = now, Operations = ops, PreviousHash = prevHash,
                   BlockMinerID = mID, Hash = [], Nonce = 0\<rparr>;
          pow = NewProofOfWork block diff;
          (nonce, hash) = Run H pow stop
      in block\<lparr>Hash := hash, Nonce := nonce\<rparr>)"

definition NewGenesisBlock :: "int64 \<Rightarrow> string \<Rightarrow> Block" where
  "NewGenesisBlock now genBlockHash =
     \<lparr>HeaderTimestamp = now, Operations = [], PreviousHash = [], BlockMinerID = [],
      Hash = genBlockHash, Nonce = 0\<rparr>"

section \<open>The hash test\<close>

lemma hash_ok_iff_dvd: "hash_ok d hash \<longleftrightarrow> 2 ^ d dvd SetBytes hash"
proof -
  have "n = n div 2 ^ d * 2 ^ d \<longleftrightarrow> 2 ^ d dvd n" for n :: nat
    by (metis dvd_div_mult_self dvd_triv_right)
  then show ?thesis
    by (simp add: hash_ok_def push_bit_eq_mult drop_bit_eq_div Let_def)
qed

lemma hash_ok_0 [simp]: "hash_ok 0 hash"
  by (simp add: hash_ok_iff_dvd)

text \<open>The difficulty in bits, and the hashed data as a function of the fields it depends on.\<close>

definition pow_bits :: "int \<Rightarrow> nat" where
  "pow_bits diff = unat (word_of_int (diff * 4) :: 64 word)"

definition pow_data :: "host \<Rightarrow> Header \<Rightarrow> string \<Rightarrow> int \<Rightarrow> int \<Rightarrow> bytes" where
  "pow_data H header mID diff nonce =
     prepareData H (NewProofOfWork (Header.extend header
       (Block.fields mID [] 0)) diff) nonce"

lemma difficulty_New [simp]: "difficulty (NewProofOfWork b diff) = pow_bits diff"
  by (simp add: NewProofOfWork_def pow_bits_def)

lemma prepareData_New [simp]:
  "prepareData H (NewProofOfWork b diff) nonce =
     pow_data H (Header.truncate b) (BlockMinerID b) diff nonce"
  by (simp add: pow_data_def prepareData_def NewProofOfWork_def Header.defs Block.defs)

lemma pow_bits_uint8 [simp]: "pow_bits (uint (w :: uint8)) = 4 * unat w"
proof -
  have "uint w * 4 < 2 ^ 64"
    using uint_lt2p [of w] by simp
  then have "uint (word_of_int (uint w * 4) :: 64 word) = uint w * 4"
    by (simp only: uint_word_of_int) simp
  then have "unat (word_of_int (uint w * 4) :: 64 word) = nat (uint w * 4)"
    by (simp only: unat_eq_nat_uint)
  then show ?thesis
    by (simp add: pow_bits_def nat_mult_distrib del: of_int_mult)
qed

lemma pow_block_New [simp]: "pow_block (NewProofOfWork b d) = b"
  by (simp add: NewProofOfWork_def)

section \<open>The nonce search\<close>

abbreviation nonce_ok :: "host \<Rightarrow> ProofOfWork \<Rightarrow> nat \<Rightarrow> bool" where
  "nonce_ok H pow n \<equiv> hash_ok (difficulty pow) (md5_sum H (prepareData H pow (int n)))"

text \<open>Nonces that fail the test while the stop channel is not ready are skipped.\<close>

abbreviation nonce_skipped :: "host \<Rightarrow> ProofOfWork \<Rightarrow> (nat \<Rightarrow> bool) \<Rightarrow> nat \<Rightarrow> bool" where
  "nonce_skipped H pow stop n \<equiv> \<not> stop n \<and> \<not> nonce_ok H pow n"

lemma run_loop_skip:
  assumes "\<forall>k < n. nonce_skipped H pow stop k" and "n \<le> maxNonce"
  shows "\<exists>hash'. run_loop H pow stop 0 hash = run_loop H pow stop n hash'"
  using assms
proof (induction n)
  case (Suc n)
  then obtain hash' where "run_loop H pow stop 0 hash = run_loop H pow stop n hash'"
    by auto
  moreover have "run_loop H pow stop n hash' =
      run_loop H pow stop (Suc n) (md5_sum H (prepareData H pow (int n)))"
    using Suc.prems by (subst run_loop.simps) (simp add: Let_def)
  ultimately show ?case by metis
qed auto

text \<open>The search stops at the first nonce that is not skipped, or at the bound.\<close>

lemma first_not_skipped:
  obtains n where "\<forall>k < n. nonce_skipped H pow stop k" and "n \<le> maxNonce"
    and "n = maxNonce \<or> \<not> nonce_skipped H pow stop n"
proof -
  define n where "n = (LEAST n. n = maxNonce \<or> \<not> nonce_skipped H pow stop n)"
  have "n = maxNonce \<or> \<not> nonce_skipped H pow stop n"
    unfolding n_def by (rule LeastI [of _ maxNonce]) simp
  moreover have "n \<le> maxNonce"
    unfolding n_def by (rule Least_le) simp
  moreover have "\<forall>k < n. nonce_skipped H pow stop k"
    unfolding n_def by (metis (mono_tags, lifting) not_less_Least)
  ultimately show ?thesis using that by blast
qed

lemma Run_stopped:
  assumes "\<forall>k < n. nonce_skipped H pow stop k" and "n < maxNonce" and "stop n"
  shows "Run H pow stop = (-1, [])"
proof -
  obtain hash' where "Run H pow stop = run_loop H pow stop n hash'"
    using run_loop_skip [where n = n] assms unfolding Run_def by fastforce
  then show ?thesis using assms by (subst (asm) run_loop.simps) simp
qed

lemma Run_found:
  assumes "\<forall>k < n. nonce_skipped H pow stop k" and "n < maxNonce"
    and "\<not> stop n" and "nonce_ok H pow n"
  shows "Run H pow stop = (int n, md5_sum H (prepareData H pow (int n)))"
proof -
  obtain hash' where "Run H pow stop = run_loop H pow stop n hash'"
    using run_loop_skip [where n = n] assms unfolding Run_def by fastforce
  then show ?thesis using assms by (subst (asm) run_loop.simps) (simp add: Let_def)
qed

lemma Run_exhausted:
  assumes "\<forall>k < maxNonce. nonce_skipped H pow stop k"
  shows "fst (Run H pow stop) = int maxNonce"
proof -
  obtain hash' where "Run H pow stop = run_loop H pow stop maxNonce hash'"
    using run_loop_skip [where n = maxNonce] assms unfolding Run_def by fastforce
  then show ?thesis by (subst (asm) run_loop.simps) simp
qed

lemma Run_cases:
  obtains (stopped) n where "\<forall>k < n. nonce_skipped H pow stop k" "n < maxNonce" "stop n"
      "Run H pow stop = (-1, [])"
  | (found) n where "\<forall>k < n. nonce_skipped H pow stop k" "n < maxNonce" "\<not> stop n"
      "nonce_ok H pow n" "Run H pow stop = (int n, md5_sum H (prepareData H pow (int n)))"
  | (exhausted) "\<forall>k < maxNonce. nonce_skipped H pow stop k"
      "fst (Run H pow stop) = int maxNonce"
proof -
  obtain n where n: "\<forall>k < n. nonce_skipped H pow stop k" "n \<le> maxNonce"
      "n = maxNonce \<or> \<not> nonce_skipped H pow stop n"
    by (rule first_not_skipped)
  then consider "n = maxNonce" | "n < maxNonce" "stop n"
    | "n < maxNonce" "\<not> stop n" "nonce_ok H pow n"
    by (auto simp: le_less)
  then show thesis
  proof cases
    case 1
    with n show thesis using exhausted [OF _ Run_exhausted] by simp
  next
    case 2
    with n show thesis using stopped [OF _ _ _ Run_stopped] by simp
  next
    case 3
    with n show thesis using found [OF _ _ _ _ Run_found] by simp
  qed
qed

section \<open>Mined blocks\<close>

text \<open>A block template: what \<^verbatim>\<open>NewBlock\<close> fills in before the search.\<close>

abbreviation block_template :: "int64 \<Rightarrow> Operation list \<Rightarrow> bytes \<Rightarrow> string \<Rightarrow> Block" where
  "block_template now ops prevHash mID \<equiv>
     \<lparr>HeaderTimestamp = now, Operations = ops, PreviousHash = prevHash,
      BlockMinerID = mID, Hash = [], Nonce = 0\<rparr>"

lemma NewBlock_Run:
  "NewBlock H now ops prevHash mID diff stop =
     (block_template now ops prevHash mID)
       \<lparr>Hash := snd (Run H (NewProofOfWork (block_template now ops prevHash mID) diff) stop),
        Nonce := fst (Run H (NewProofOfWork (block_template now ops prevHash mID) diff) stop)\<rparr>"
  by (simp add: NewBlock_def split: prod.split)

lemma NewBlock_fields [simp]:
  "HeaderTimestamp (NewBlock H now ops prevHash mID diff stop) = now"
  "Operations (NewBlock H now ops prevHash mID diff stop) = ops"
  "PreviousHash (NewBlock H now ops prevHash mID diff stop) = prevHash"
  "BlockMinerID (NewBlock H now ops prevHash mID diff stop) = mID"
  by (simp_all add: NewBlock_Run)

lemma Validate_nonce_ok:
  "Validate H (NewProofOfWork (b\<lparr>Nonce := int n\<rparr>) d) = nonce_ok H (NewProofOfWork b d) n"
  by (simp add: Validate_def Header.defs)

lemma IntToHex_length [simp]: "length (IntToHex num) = 8"
  by (simp add: IntToHex_def)

lemma big_endian_step: "n div (256 * k) * 256 + n div k mod 256 = n div (k::nat)"
  by (metis div_mult2_eq div_mult_mod_eq mult.commute)

lemma SetBytes_snoc: "SetBytes (bs @ [c]) = SetBytes bs * 256 + of_char c"
  by (simp add: SetBytes_def)

section \<open>Properties of the proof of work\<close>

text \<open>the eight bytes that \<^verbatim>\<open>IntToHex\<close> writes, read back as a big-endian number,
  give the 64-bit pattern of the argument: the encoding loses nothing.\<close>

theorem IntToHex_roundtrip:
  "length (IntToHex num) = 8 \<and> SetBytes (IntToHex num) = unat num"
proof -
  let ?n = "unat num"
  have top: "?n div 2 ^ 56 mod 256 = ?n div 2 ^ 56"
    using unsigned_less [of num, where 'a = nat] by (simp add: less_mult_imp_div_less)
  show ?thesis
    using top big_endian_step [of ?n "2 ^ 48"] big_endian_step [of ?n "2 ^ 40"]
      big_endian_step [of ?n "2 ^ 32"] big_endian_step [of ?n "2 ^ 24"]
      big_endian_step [of ?n "2 ^ 16"] big_endian_step [of ?n "2 ^ 8"]
      big_endian_step [of ?n 1]
    by (simp add: IntToHex_def SetBytes_def drop_bit_eq_div unat_div)
qed

text \<open>\<^verbatim>\<open>Validate\<close> at a configured difficulty \<open>w\<close> accepts exactly the blocks
  whose recomputed hash, as a number, is a multiple of \<open>16 ^ w\<close>: its last \<open>w\<close>
  hexadecimal digits are zero.\<close>

theorem Validate_iff:
  "Validate H (NewProofOfWork b (uint (w :: uint8))) \<longleftrightarrow>
     16 ^ unat w dvd SetBytes (md5_sum H (prepareData H (NewProofOfWork b (uint w)) (Nonce b)))"
  by (simp add: Validate_def hash_ok_iff_dvd power_mult Let_def)

text \<open>C19: mining succeeds. If some nonce below the bound passes the test and the stop channel is
  not ready up to it, \<^verbatim>\<open>NewBlock\<close> returns the block with the least such nonce, its hash
  is the hash of its data, it passes \<^verbatim>\<open>Validate\<close>, and the other fields are the
  arguments.\<close>

theorem NewBlock_mines_least:
  assumes "Validate H (NewProofOfWork (block_template now ops prevHash mID\<lparr>Nonce := int n\<rparr>) diff)"
    and "n < maxNonce" and "\<forall>k \<le> n. \<not> stop k"
  shows "\<exists>k \<le> n. let b = NewBlock H now ops prevHash mID diff stop in
    Nonce b = int k \<and> Validate H (NewProofOfWork b diff) \<and>
    Hash b = md5_sum H (prepareData H (NewProofOfWork b diff) (Nonce b)) \<and>
    (\<forall>j < k. \<not> Validate H (NewProofOfWork (b\<lparr>Nonce := int j\<rparr>) diff)) \<and>
    Operations b = ops \<and> PreviousHash b = prevHash \<and> BlockMinerID b = mID"
proof -
  let ?pow = "NewProofOfWork (block_template now ops prevHash mID) diff"
  have ok: "nonce_ok H ?pow n"
    using assms(1) by (simp only: Validate_nonce_ok)
  define k where "k = (LEAST k. nonce_ok H ?pow k)"
  have k: "nonce_ok H ?pow k" and le: "k \<le> n"
    unfolding k_def using ok by (rule LeastI, rule Least_le)
  have small: "\<forall>j < k. \<not> nonce_ok H ?pow j"
    unfolding k_def by (metis (mono_tags, lifting) not_less_Least)
  have "Run H ?pow stop = (int k, md5_sum H (prepareData H ?pow (int k)))"
    using small le k assms(2,3) by (intro Run_found) auto
  then show ?thesis
    using small le k by (intro exI [of _ k]) (simp add: NewBlock_Run Validate_def Let_def Header.defs)
qed

definition sample_host :: host where
  "sample_host = \<lparr>md5_sum = (\<lambda>bs. [char_of (of_char (last bs) + 13 :: nat)]),
     gob_Operation = OperationID, gob_Operations = (\<lambda>ops. concat (map OperationID ops))\<rparr>"

theorem NewBlock_mines_least_witness:
  "\<exists>k \<le> 3. let b = NewBlock sample_host 0 [] ''g'' ''A'' 1 (\<lambda>_. False) in
    Nonce b = int k \<and> Validate sample_host (NewProofOfWork b 1) \<and> PreviousHash b = ''g''"
proof -
  have "Validate sample_host (NewProofOfWork (block_template 0 [] ''g'' ''A''\<lparr>Nonce := int 3\<rparr>) 1)"
    by (simp add: Validate_def hash_ok_iff_dvd pow_data_def prepareData_def NewProofOfWork_def IntToHex_def SetBytes_def
        sample_host_def Header.defs Block.defs)
  from NewBlock_mines_least [OF this, of "\<lambda>_. False"] show ?thesis
    by (auto simp: Let_def maxNonce_def)
qed

text \<open>the search always returns, in one of three ways: cancelled (nonce -1 and an empty hash,
  only if the stop channel was ready), exhausted (the nonce is the bound), or with a nonce for
  which the block passes \<^verbatim>\<open>Validate\<close>.\<close>

theorem NewBlock_outcomes:
  "let b = NewBlock H now ops prevHash mID diff stop in
    (Nonce b = -1 \<and> Hash b = [] \<and> (\<exists>n < maxNonce. stop n)) \<or>
    Nonce b = int maxNonce \<or>
    (0 \<le> Nonce b \<and> Nonce b < int maxNonce \<and> Validate H (NewProofOfWork b diff))"
  by (rule Run_cases [where H = H and stop = stop
        and pow = "NewProofOfWork (block_template now ops prevHash mID) diff"])
    (auto simp: NewBlock_Run Validate_def Let_def Header.defs)

end
