(* ===== verification/Bclib_Heap.thy ===== *)
theory Bclib_Heap
  imports Bclib_Block
begin

text \<open>
  The block tree of \<^verbatim>\<open>bclib/blockchain.go\<close>: nodes with parent and child pointers, and
  the loops that follow the pointers.

  Nodes are Go heap objects that are shared and mutated (\<^verbatim>\<open>AddBlock\<close> appends to the
  children of an existing node), so the model keeps them in an explicit store: an address is an
  index into \<open>bc_heap\<close>, allocation appends. A loop \<^verbatim>\<open>for node != nil\<close> that
  follows parent pointers never ends on a cycle; such loops are partial functions whose value
  \<^term>\<open>None\<close> means that the loop does not end.
\<close>

type_synonym addr = nat

record Node =
  node_block :: Block
  node_parent :: "addr option"
  node_children :: "addr list"

record Blockchain =
  bc_genesis :: addr
  bc_lastNode :: addr
  bc_m :: "(string, addr) gomap"
  bc_config :: Settings
  bc_heap :: "Node list"

definition newNode :: "Block \<Rightarrow> addr option \<Rightarrow> Node" where
  "newNode b prnt = \<lparr>node_block = b, node_parent = prnt, node_children = []\<rparr>"

definition NewBlockchain :: "int64 \<Rightarrow> Settings \<Rightarrow> Blockchain" where
  "NewBlockchain now cfg =
     (let node = newNode (NewGenesisBlock now (GenesisBlockHash cfg)) None
      in \<lparr>bc_genesis = 0, bc_lastNode = 0, bc_m = [(Hash (node_block node), 0)],
          bc_config = cfg, bc_heap = [node]\<rparr>)"

definition SetConfig :: "Blockchain \<Rightarrow> Settings \<Rightarrow> Blockchain" where
  "SetConfig bc cfg = bc\<lparr>bc_config := cfg\<rparr>"

section \<open>Following parent pointers\<close>

text \<open>The loop \<^verbatim>\<open>for node != nil { ...; node = node.parent }\<close> with body \<open>f\<close>.\<close>

partial_function (option) walk ::
  "(Block \<Rightarrow> 's \<Rightarrow> 's) \<Rightarrow> Node list \<Rightarrow> addr option \<Rightarrow> 's \<Rightarrow> 's option" where
  "walk f h node s =
     (case node of
        None \<Rightarrow> Some s
      | Some a \<Rightarrow> walk f h (node_parent (h ! a)) (f (node_block (h ! a)) s))"

fun previous_loop :: "Node list \<Rightarrow> addr option \<Rightarrow> nat \<Rightarrow> Block list \<Rightarrow> Block list" where
  "previous_loop h None k result = result"
| "previous_loop h (Some a) 0 result = result"
| "previous_loop h (Some a) (Suc k) result =
     previous_loop h (node_parent (h ! a)) k (result @ [node_block (h ! a)])"

definition GetPreviousBlocks :: "Blockchain \<Rightarrow> bytes \<Rightarrow> nat \<Rightarrow> Block list" where
  "GetPreviousBlocks bc hash numBlocks =
     (case map_of (bc_m bc) hash of
        None \<Rightarrow> []
      | Some node \<Rightarrow>
          previous_loop (bc_heap bc) (Some node) numBlocks [node_block (bc_heap bc ! node)])"

section \<open>The deepest nodes\<close>

text \<open>
  \<^verbatim>\<open>getLastNodes\<close> searches the tree depth first with two stacks (depths and nodes), here
  lists with the top of the stack first. The state is the greatest depth so far, the first node
  found at it and all nodes found at it.
\<close>

type_synonym last_state = "nat \<times> addr \<times> addr list"

fun last_visit :: "addr \<Rightarrow> nat \<Rightarrow> last_state \<Rightarrow> last_state" where
  "last_visit node depth (maxDepth, lastNode, lastNodes) =
     (if depth > maxDepth then (depth, node, [node])
      else if depth = maxDepth then (maxDepth, lastNode, lastNodes @ [node])
      else (maxDepth, lastNode, lastNodes))"

partial_function (option) last_loop ::
  "Node list \<Rightarrow> nat list \<Rightarrow> addr list \<Rightarrow> last_state \<Rightarrow> last_state option" where
  "last_loop h dStack nStack st =
     (case nStack of
        [] \<Rightarrow> Some st
      | node # ns \<Rightarrow>
          (case dStack of
             [] \<Rightarrow> Some st
           | depth # ds \<Rightarrow>
               last_loop h (rev (map (\<lambda>child. depth + 1) (node_children (h ! node))) @ ds)
                 (rev (node_children (h ! node)) @ ns) (last_visit node depth st)))"

definition getLastNodes :: "Blockchain \<Rightarrow> (Blockchain \<times> addr list) option" where
  "getLastNodes bc =
     do {
       (maxDepth, lastNode, lastNodes) \<leftarrow>
         last_loop (bc_heap bc) [0] [bc_genesis bc] (0, bc_genesis bc, [bc_genesis bc]);
       Some (bc\<lparr>bc_lastNode := lastNode\<rparr>, lastNodes)
     }"

definition GetLastBlocks :: "Blockchain \<Rightarrow> (Blockchain \<times> Block list) option" where
  "GetLastBlocks bc =
     do {
       (bc', lastNodes) \<leftarrow> getLastNodes bc;
       Some (bc', map (\<lambda>node. node_block (bc_heap bc' ! node)) lastNodes)
     }"

text \<open>\<^verbatim>\<open>lastNodes[0]\<close> would panic on an empty slice; \<open>getLastNodes_correct\<close> below
  excludes that.\<close>

definition GetLastHash :: "Blockchain \<Rightarrow> (Blockchain \<times> bytes) option" where
  "GetLastHash bc =
     do {
       (bc', lastNodes) \<leftarrow> getLastNodes bc;
       Some (bc', Hash (node_block (bc_heap bc' ! (lastNodes ! 0))))
     }"

fun confirmed_loop :: "Node list \<Rightarrow> nat \<Rightarrow> addr \<Rightarrow> addr option" where
  "confirmed_loop h 0 node = Some node"
| "confirmed_loop h (Suc thresh) node =
     (case node_parent (h ! node) of
        None \<Rightarrow> None
      | Some p \<Rightarrow> confirmed_loop h thresh p)"

definition getLastConfirmedNode :: "Blockchain \<Rightarrow> nat \<Rightarrow> (Blockchain \<times> addr option) option" where
  "getLastConfirmedNode bc numConfirmedBlocks =
     do {
       (bc', lastNodes) \<leftarrow> getLastNodes bc;
       Some (bc', if length lastNodes = 0 then None
                  else confirmed_loop (bc_heap bc') numConfirmedBlocks (lastNodes ! 0))
     }"

section \<open>Lookups\<close>

definition GetSize :: "Blockchain \<Rightarrow> nat" where
  "GetSize bc = length (bc_m bc)"

definition HasBlock :: "Blockchain \<Rightarrow> string \<Rightarrow> bool" where
  "HasBlock bc hash = (map_of (bc_m bc) hash \<noteq> None)"

definition GetBlock :: "Blockchain \<Rightarrow> string \<Rightarrow> Block option" where
  "GetBlock bc hash = map_option (\<lambda>node. node_block (bc_heap bc ! node)) (map_of (bc_m bc) hash)"

definition GetBlocks :: "(string, addr) iter \<Rightarrow> Blockchain \<Rightarrow> Block list" where
  "GetBlocks it bc = map (\<lambda>(k, node). node_block (bc_heap bc ! node)) (it (bc_m bc))"

end
