(* ===== verification/Bclib_Tree.thy ===== *)
theory Bclib_Tree
  imports Bclib_Heap
begin

text \<open>
  The shape of the block tree: chains of parent pointers, the invariant of the store, and the
  correctness of the loops of \<open>Bclib_Heap\<close> on a store that satisfies it.
\<close>

section \<open>Chains\<close>

text \<open>\<open>chain h x as\<close>: following parent pointers from \<open>x\<close> passes the addresses
  \<open>as\<close> and reaches nil.\<close>

primrec chain :: "Node list \<Rightarrow> addr option \<Rightarrow> addr list \<Rightarrow> bool" where
  "chain h x [] \<longleftrightarrow> x = None"
| "chain h x (a # as) \<longleftrightarrow> x = Some a \<and> chain h (node_parent (h ! a)) as"

abbreviation block_at :: "Node list \<Rightarrow> addr \<Rightarrow> Block" where
  "block_at h a \<equiv> node_block (h ! a)"

text \<open>The blocks of a chain, the block the walk starts at first and the genesis block last.\<close>

definition chain_blocks :: "Node list \<Rightarrow> addr option \<Rightarrow> Block list option" where
  "chain_blocks h x = walk (\<lambda>b bs. bs @ [b]) h x []"

lemma chain_None [simp]: "chain h None as \<longleftrightarrow> as = []"
  by (cases as) auto

lemma chain_Some: "chain h (Some a) as \<longleftrightarrow> (\<exists>bs. as = a # bs \<and> chain h (node_parent (h ! a)) bs)"
  by (cases as) auto

lemma chain_unique: "chain h x as \<Longrightarrow> chain h x bs \<Longrightarrow> as = bs"
  by (induction as arbitrary: x bs) (auto simp: chain_Some)

text \<open>On a chain every walk ends, with the fold of its body over the blocks of the chain.\<close>

lemma walk_chain: "chain h x as \<Longrightarrow> walk f h x s = Some (fold (\<lambda>a. f (block_at h a)) as s)"
  by (induction as arbitrary: x s) (auto simp: walk.simps)

lemma chain_blocks_chain: "chain h x as \<Longrightarrow> chain_blocks h x = Some (map (block_at h) as)"
proof -
  have "fold (\<lambda>a bs. bs @ [block_at h a]) as bs = bs @ map (block_at h) as" for bs
    by (induction as arbitrary: bs) auto
  then show "chain h x as \<Longrightarrow> chain_blocks h x = Some (map (block_at h) as)"
    by (simp add: chain_blocks_def walk_chain)
qed

text \<open>Conversely, a walk that ends has followed a chain.\<close>

lemma walk_Some_chain:
  assumes "walk f h x s = Some s'"
  shows "\<exists>as. chain h x as"
proof (rule walk.raw_induct [where P = "\<lambda>f h x s s'. \<exists>as. chain h x as", OF _ assms])
  fix w and f :: "Block \<Rightarrow> 'a \<Rightarrow> 'a" and h x s s'
  assume "\<And>f h x s s'. w f h x s = Some s' \<Longrightarrow> \<exists>as. chain h x as"
    and "(case x of None \<Rightarrow> Some s
          | Some a \<Rightarrow> w f h (node_parent (h ! a)) (f (block_at h a) s)) = Some s'"
  then show "\<exists>as. chain h x as"
    by (cases x) (auto simp: chain_Some)
qed

text \<open>Every loop over parent pointers is a fold over the blocks of the chain.\<close>

lemma walk_fold: "walk f h x s = map_option (\<lambda>bs. fold f bs s) (chain_blocks h x)"
proof (cases "\<exists>as. chain h x as")
  case True
  then obtain as where "chain h x as" by blast
  then show ?thesis
    by (simp add: walk_chain chain_blocks_chain fold_map comp_def)
next
  case False
  then have "walk f h x s = None" and "chain_blocks h x = None"
    unfolding chain_blocks_def by (metis walk_Some_chain option.exhaust)+
  then show ?thesis by simp
qed

lemma chain_blocks_Some:
  "chain_blocks h x = Some bs \<longleftrightarrow> (\<exists>as. chain h x as \<and> bs = map (block_at h) as)"
  by (metis chain_blocks_chain chain_blocks_def option.inject walk_Some_chain)

lemma chain_blocks_None [simp]: "chain_blocks h None = Some []"
  by (simp add: chain_blocks_def walk.simps)

lemma chain_blocks_step:
  "chain_blocks h (Some a) =
     map_option (Cons (block_at h a)) (chain_blocks h (node_parent (h ! a)))"
proof (cases "chain_blocks h (node_parent (h ! a))")
  case None
  then have "chain_blocks h (Some a) = None"
    by (metis chain_Some chain_blocks_Some not_Some_eq)
  with None show ?thesis by simp
next
  case (Some bs)
  then obtain as where "chain h (node_parent (h ! a)) as" and "bs = map (block_at h) as"
    by (auto simp: chain_blocks_Some)
  then have "chain_blocks h (Some a) = Some (block_at h a # bs)"
    using chain_blocks_chain [of h "Some a" "a # as"] by simp
  with Some show ?thesis by simp
qed

section \<open>The invariant of the store\<close>

definition live :: "Blockchain \<Rightarrow> addr set" where
  "live bc = snd ` set (bc_m bc)"

definition depth :: "Blockchain \<Rightarrow> addr \<Rightarrow> nat" where
  "depth bc a = length (the (chain_blocks (bc_heap bc) (Some a))) - 1"

definition map_inv :: "Blockchain \<Rightarrow> bool" where
  "map_inv bc \<longleftrightarrow> distinct (gokeys (bc_m bc)) \<and>
     (\<forall>(k, a) \<in> set (bc_m bc). a < length (bc_heap bc) \<and> Hash (block_at (bc_heap bc) a) = k)"

definition parent_inv :: "Blockchain \<Rightarrow> bool" where
  "parent_inv bc \<longleftrightarrow> bc_genesis bc \<in> live bc \<and> bc_lastNode bc \<in> live bc \<and>
     node_parent (bc_heap bc ! bc_genesis bc) = None \<and>
     (\<forall>a \<in> live bc. a \<noteq> bc_genesis bc \<longrightarrow>
        (\<exists>p. node_parent (bc_heap bc ! a) = Some p \<and>
             map_of (bc_m bc) (PreviousHash (block_at (bc_heap bc) a)) = Some p)) \<and>
     (\<forall>a \<in> live bc. chain_blocks (bc_heap bc) (Some a) \<noteq> None)"

definition children_inv :: "Blockchain \<Rightarrow> bool" where
  "children_inv bc \<longleftrightarrow>
     (\<forall>p \<in> live bc. distinct (node_children (bc_heap bc ! p)) \<and>
        set (node_children (bc_heap bc ! p)) =
          {a \<in> live bc. node_parent (bc_heap bc ! a) = Some p})"

definition bc_inv :: "Blockchain \<Rightarrow> bool" where
  "bc_inv bc \<longleftrightarrow> map_inv bc \<and> parent_inv bc \<and> children_inv bc"

lemmas bc_inv_defs = bc_inv_def map_inv_def parent_inv_def children_inv_def

lemma map_of_live: "map_of (bc_m bc) k = Some a \<Longrightarrow> a \<in> live bc"
  unfolding live_def by (metis image_eqI map_of_SomeD snd_conv)

lemma bc_inv_map_of:
  assumes "bc_inv bc"
  shows "map_of (bc_m bc) k = Some a \<longleftrightarrow> a \<in> live bc \<and> Hash (block_at (bc_heap bc) a) = k"
proof -
  have "distinct (gokeys (bc_m bc))"
    and "\<forall>(k, a) \<in> set (bc_m bc). Hash (block_at (bc_heap bc) a) = k"
    using assms by (auto simp: bc_inv_def map_inv_def)
  then show ?thesis
    by (force simp: live_def)
qed

lemma bc_inv_bound: "bc_inv bc \<Longrightarrow> a \<in> live bc \<Longrightarrow> a < length (bc_heap bc)"
  by (force simp: bc_inv_def map_inv_def live_def)

lemma bc_inv_parent:
  assumes "bc_inv bc" and "a \<in> live bc" and "node_parent (bc_heap bc ! a) = Some p"
  shows "p \<in> live bc"
proof (cases "a = bc_genesis bc")
  case True
  with assms show ?thesis by (simp add: bc_inv_def parent_inv_def)
next
  case False
  with assms show ?thesis
    unfolding bc_inv_def parent_inv_def by (metis map_of_live option.inject)
qed

lemma bc_inv_chain:
  assumes "bc_inv bc" and "a \<in> live bc"
  obtains as where "chain (bc_heap bc) (Some a) as"
    and "chain_blocks (bc_heap bc) (Some a) = Some (map (block_at (bc_heap bc)) as)"
proof -
  have "chain_blocks (bc_heap bc) (Some a) \<noteq> None"
    using assms unfolding bc_inv_def parent_inv_def by blast
  then show ?thesis
    using that chain_blocks_Some [of "bc_heap bc" "Some a"] by blast
qed

lemma bc_inv_chain_Cons:
  assumes "bc_inv bc" and "a \<in> live bc"
  obtains bs where "chain_blocks (bc_heap bc) (Some a) = Some (block_at (bc_heap bc) a # bs)"
proof -
  obtain as where "chain (bc_heap bc) (Some a) as"
      "chain_blocks (bc_heap bc) (Some a) = Some (map (block_at (bc_heap bc)) as)"
    using bc_inv_chain [OF assms] .
  then show ?thesis using that by (cases as) auto
qed

lemma chain_live:
  assumes "bc_inv bc" and "chain (bc_heap bc) x as" and "\<forall>a. x = Some a \<longrightarrow> a \<in> live bc"
  shows "set as \<subseteq> live bc"
  using assms(2,3) by (induction as arbitrary: x) (auto dest: bc_inv_parent [OF assms(1)])

text \<open>A chain visits no address twice, so it is no longer than the store.\<close>

lemma chain_suffix: "chain h x (as @ a # bs) \<Longrightarrow> chain h (Some a) (a # bs)"
  by (induction as arbitrary: x) auto

lemma chain_distinct: "chain h x as \<Longrightarrow> distinct as"
proof (induction as arbitrary: x)
  case (Cons a as)
  have "a \<notin> set as"
  proof
    assume "a \<in> set as"
    then obtain us vs where "as = us @ a # vs" by (meson split_list)
    with Cons.prems have "chain h (Some a) (a # vs)" and "chain h (Some a) (a # us @ a # vs)"
      using chain_suffix [of h x "a # us" a vs] by auto
    then show False by (auto dest: chain_unique)
  qed
  with Cons show ?case by auto
qed simp

lemma depth_parent:
  assumes "bc_inv bc" and "a \<in> live bc" and "node_parent (bc_heap bc ! a) = Some p"
  shows "depth bc a = Suc (depth bc p)"
proof -
  obtain as where "chain_blocks (bc_heap bc) (Some p) = Some (map (block_at (bc_heap bc)) as)"
      "chain (bc_heap bc) (Some p) as"
    using bc_inv_chain [OF assms(1) bc_inv_parent [OF assms]] by blast
  with assms(3) show ?thesis by (auto simp: depth_def chain_Some chain_blocks_step [of _ a])
qed

lemma depth_bound:
  assumes "bc_inv bc" and "a \<in> live bc"
  shows "depth bc a < card (live bc)"
proof -
  obtain as where as: "chain (bc_heap bc) (Some a) as"
      "chain_blocks (bc_heap bc) (Some a) = Some (map (block_at (bc_heap bc)) as)"
    using bc_inv_chain [OF assms] by blast
  have "length as = card (set as)"
    using chain_distinct [OF as(1)] by (simp add: distinct_card)
  also have "\<dots> \<le> card (live bc)"
    using chain_live [OF assms(1) as(1)] assms(2) by (intro card_mono) (auto simp: live_def)
  finally show ?thesis
    using as by (cases as) (auto simp: depth_def)
qed

lemma depth_genesis [simp]: "bc_inv bc \<Longrightarrow> depth bc (bc_genesis bc) = 0"
  by (simp add: depth_def bc_inv_def parent_inv_def chain_blocks_step)

section \<open>The depth-first search\<close>

text \<open>\<open>visits h ds ns xs\<close>: started on the stacks \<open>ds\<close> and \<open>ns\<close> the search
  visits the nodes of \<open>xs\<close>, in this order and at these depths, and ends.\<close>

inductive visits :: "Node list \<Rightarrow> nat list \<Rightarrow> addr list \<Rightarrow> (addr \<times> nat) list \<Rightarrow> bool" for h where
  visits_done: "visits h [] [] []"
| visits_pop:
    "visits h (rev (map (\<lambda>child. d + 1) (node_children (h ! n))) @ ds)
       (rev (node_children (h ! n)) @ ns) xs \<Longrightarrow>
     visits h (d # ds) (n # ns) ((n, d) # xs)"

lemma last_loop_visits:
  "visits h ds ns xs \<Longrightarrow> last_loop h ds ns st = Some (fold (\<lambda>(n, d). last_visit n d) xs st)"
  by (induction arbitrary: st rule: visits.induct) (simp_all add: last_loop.simps)

text \<open>The search ends when the children of every node have a smaller rank: each step replaces a
  node of the stack by nodes of smaller rank, so the stack decreases in the multiset order.\<close>

lemma visits_exist:
  fixes rank :: "addr \<Rightarrow> nat"
  assumes child: "\<And>n c. n \<in> L \<Longrightarrow> c \<in> set (node_children (h ! n)) \<Longrightarrow> c \<in> L \<and> rank c < rank n"
  shows "set ns \<subseteq> L \<Longrightarrow> length ds = length ns \<Longrightarrow> \<exists>xs. visits h ds ns xs"
proof (induction "image_mset rank (mset ns)" arbitrary: ds ns
    rule: wf_induct_rule [OF wf_mult [OF wf_less]])
  case 1
  show ?case
  proof (cases ns)
    case Nil
    with "1.prems" show ?thesis by (auto intro: visits_done)
  next
    case (Cons n ns')
    with "1.prems"(2) obtain d ds' where ds: "ds = d # ds'"
      by (cases ds) auto
    let ?cs = "node_children (h ! n)"
    have "n \<in> L" using Cons "1.prems" by simp
    then have "(image_mset rank (mset ns') + image_mset rank (mset ?cs),
        image_mset rank (mset ns') + {#rank n#}) \<in> mult {(x, y). x < y}"
      using child by (intro one_step_implies_mult) auto
    then have "(image_mset rank (mset (rev ?cs @ ns')), image_mset rank (mset ns)) \<in> mult {(x, y). x < y}"
      using Cons by (simp add: union_commute)
    moreover have "set (rev ?cs @ ns') \<subseteq> L"
      using child [OF \<open>n \<in> L\<close>] Cons "1.prems" by auto
    ultimately obtain xs where "visits h (rev (map (\<lambda>c. d + 1) ?cs) @ ds') (rev ?cs @ ns') xs"
      using "1.hyps" [of "rev ?cs @ ns'" "rev (map (\<lambda>c. d + 1) ?cs) @ ds'"] "1.prems"(2) Cons ds
      by auto
    then show ?thesis
      using Cons ds visits_pop by blast
  qed
qed

text \<open>A property of the stack entries that passes from a node to its children holds for every
  visited entry.\<close>

lemma visits_all:
  assumes "visits h ds ns xs"
    and "\<And>n d c. P n d \<Longrightarrow> c \<in> set (node_children (h ! n)) \<Longrightarrow> P c (d + 1)"
    and "\<forall>(n, d) \<in> set (zip ns ds). P n d"
  shows "\<forall>(n, d) \<in> set xs. P n d"
  using assms(1,3)
proof (induction rule: visits.induct)
  case (visits_pop d n ds ns xs)
  let ?cs = "node_children (h ! n)"
  have "\<forall>(c, d') \<in> set (zip (rev ?cs) (rev (map (\<lambda>child. d + 1) ?cs))). P c d'"
    using visits_pop.prems assms(2) [of n d] by (auto simp: zip_rev zip_map2 in_set_zip)
  with visits_pop show ?case
    by (auto simp: zip_append)
qed simp

text \<open>A node is visited as often as it is on the stack or is a child of a visited node.\<close>

lemma visits_count:
  "visits h ds ns xs \<Longrightarrow>
   count_list (map fst xs) a =
     count_list ns a + (\<Sum>(n, d) \<leftarrow> xs. count_list (node_children (h ! n)) a)"
  by (induction rule: visits.induct) auto

lemma sum_list_if_fst:
  "(\<Sum>(n, d) \<leftarrow> xs. if p = n then 1 else 0) = count_list (map fst xs) p"
  by (induction xs) auto

lemma count_children:
  assumes "bc_inv bc" and "n \<in> live bc" and "a \<in> live bc"
  shows "count_list (node_children (bc_heap bc ! n)) a =
    (if node_parent (bc_heap bc ! a) = Some n then 1 else 0)"
proof -
  have "distinct (node_children (bc_heap bc ! n))"
    and "set (node_children (bc_heap bc ! n)) =
      {a \<in> live bc. node_parent (bc_heap bc ! a) = Some n}"
    using assms by (auto simp: bc_inv_def children_inv_def)
  with assms(3) show ?thesis
    by (simp add: distinct_count_list)
qed

text \<open>On a store that satisfies the invariant, the search from the genesis node visits every node
  of the tree exactly once, at its depth.\<close>

text \<open>The search visits each node of the tree once, at its depth.\<close>

lemma visits_tree_exist:
  assumes inv: "bc_inv bc"
  shows "\<exists>zs. visits (bc_heap bc) [0] [bc_genesis bc] zs"
proof -
  have "c \<in> live bc \<and> card (live bc) - depth bc c < card (live bc) - depth bc n"
    if "n \<in> live bc" "c \<in> set (node_children (bc_heap bc ! n))" for n c
  proof -
    have "c \<in> live bc \<and> node_parent (bc_heap bc ! c) = Some n"
      using that inv by (auto simp: bc_inv_def children_inv_def)
    then show ?thesis using depth_parent [OF inv, of c n] depth_bound [OF inv, of c] by auto
  qed
  moreover have "bc_genesis bc \<in> live bc"
    using inv by (simp add: bc_inv_def parent_inv_def)
  ultimately show ?thesis
    by (intro visits_exist [where L = "live bc" and rank = "\<lambda>a. card (live bc) - depth bc a"]) auto
qed

lemma visits_sound:
  assumes inv: "bc_inv bc" and zs: "visits (bc_heap bc) [0] [bc_genesis bc] zs"
  shows "\<forall>(n, d) \<in> set zs. n \<in> live bc \<and> d = depth bc n"
proof (rule visits_all [OF zs])
  fix n d c
  assume n: "n \<in> live bc \<and> d = depth bc n" and c: "c \<in> set (node_children (bc_heap bc ! n))"
  then have "c \<in> live bc \<and> node_parent (bc_heap bc ! c) = Some n"
    using inv by (auto simp: bc_inv_def children_inv_def)
  then show "c \<in> live bc \<and> d + 1 = depth bc c"
    using n depth_parent [OF inv, of c n] by simp
qed (use inv depth_genesis [OF inv] in \<open>simp add: bc_inv_def parent_inv_def\<close>)

lemma visits_once:
  assumes inv: "bc_inv bc" and zs: "visits (bc_heap bc) [0] [bc_genesis bc] zs"
    and "chain (bc_heap bc) (Some a) as" "a \<in> live bc"
  shows "count_list (map fst zs) a = 1"
  using assms(3,4)
proof (induction as arbitrary: a)
  case (Cons a' as)
  let ?h = "bc_heap bc" and ?g = "bc_genesis bc"
  have gp: "node_parent (?h ! ?g) = None"
    using inv by (auto simp: bc_inv_def parent_inv_def)
  have "(\<Sum>(n, d) \<leftarrow> zs. count_list (node_children (?h ! n)) a) =
      (\<Sum>(n, d) \<leftarrow> zs. if node_parent (?h ! a) = Some n then 1 else 0)"
    using visits_sound [OF inv zs] count_children [OF inv _ Cons.prems(2)]
    by (intro arg_cong [where f = sum_list] map_cong) auto
  also have "\<dots> = (if a = ?g then 0 else 1)"
  proof (cases "node_parent (?h ! a)")
    case None
    then have "a = ?g"
      using Cons.prems(2) inv unfolding bc_inv_def parent_inv_def by (metis option.distinct(1))
    then show ?thesis using gp by simp
  next
    case (Some p)
    then have "a \<noteq> ?g" using gp by auto
    have "chain ?h (Some p) as" "p \<in> live bc"
      using Cons.prems Some bc_inv_parent [OF inv] by auto
    then have "count_list (map fst zs) p = 1" by (rule Cons.IH)
    then show ?thesis
      using Some \<open>a \<noteq> ?g\<close> sum_list_if_fst [of p zs] by simp
  qed
  finally show ?case
    using visits_count [OF zs, of a] by simp
qed simp

lemma visits_tree:
  assumes inv: "bc_inv bc"
  obtains xs where "visits (bc_heap bc) [0] [bc_genesis bc] ((bc_genesis bc, 0) # xs)"
    and "set ((bc_genesis bc, 0) # xs) = {(a, depth bc a) | a. a \<in> live bc}"
    and "distinct (map fst ((bc_genesis bc, 0) # xs))"
proof -
  obtain zs where zs: "visits (bc_heap bc) [0] [bc_genesis bc] zs"
    using visits_tree_exist [OF inv] by blast
  then obtain xs where xs: "zs = (bc_genesis bc, 0) # xs"
    by (cases rule: visits.cases) auto
  note sound = visits_sound [OF inv zs]
  have one: "count_list (map fst zs) a = 1" if "a \<in> live bc" for a
    using visits_once [OF inv zs _ that] bc_inv_chain [OF inv that] by blast
  then have complete: "live bc \<subseteq> fst ` set zs"
    by (metis count_list_0_iff list.set_map subsetI zero_neq_one)
  have "distinct (map fst zs)"
    using sound one by (intro count_list_distinct) auto
  moreover have "set zs = {(a, depth bc a) | a. a \<in> live bc}"
    using sound complete by force
  ultimately show ?thesis
    using that zs xs by blast
qed

text \<open>The state of the search after visiting a list of nodes.\<close>

abbreviation max_depth :: "nat \<Rightarrow> (addr \<times> nat) list \<Rightarrow> nat" where
  "max_depth mx xs \<equiv> fold max (map snd xs) mx"

abbreviation nodes_at :: "nat \<Rightarrow> (addr \<times> nat) list \<Rightarrow> addr list" where
  "nodes_at d xs \<equiv> map fst (filter (\<lambda>x. snd x = d) xs)"

lemma max_depth_ge: "mx \<le> max_depth mx xs"
  by (induction xs arbitrary: mx) (auto intro: order_trans [OF max.cobounded2])

lemma fold_last_visit:
  "fold (\<lambda>(n, d). last_visit n d) xs (mx, ln, lns) =
    (max_depth mx xs,
     if max_depth mx xs = mx then ln else hd (nodes_at (max_depth mx xs) xs),
     (if max_depth mx xs = mx then lns else []) @ nodes_at (max_depth mx xs) xs)"
proof (induction xs arbitrary: mx ln lns)
  case (Cons x xs)
  obtain n d where x: "x = (n, d)" by fastforce
  consider "mx < d" | "d = mx" | "d < mx" by linarith
  then show ?case
  proof cases
    case 1
    then show ?thesis
      using Cons.IH [of d n "[n]"] max_depth_ge [of d xs] by (simp add: x max_absorb1)
  next
    case 2
    then show ?thesis
      using Cons.IH [of mx ln "lns @ [n]"] max_depth_ge [of mx xs] by (simp add: x)
  next
    case 3
    then show ?thesis
      using Cons.IH [of mx ln lns] max_depth_ge [of mx xs] by (simp add: x max_absorb2)
  qed
qed simp

lemma max_depth_is_max:
  "max_depth mx xs = Max (insert mx (snd ` set xs))"
  using Max.set_eq_fold [of mx "map snd xs"] by simp

section \<open>The longest chain\<close>

definition deepest :: "Blockchain \<Rightarrow> addr set" where
  "deepest bc = {a \<in> live bc. \<forall>b \<in> live bc. depth bc b \<le> depth bc a}"

lemma depth_0_genesis:
  assumes "bc_inv bc" and "a \<in> live bc" and "depth bc a = 0"
  shows "a = bc_genesis bc"
proof (rule ccontr)
  assume "a \<noteq> bc_genesis bc"
  with assms obtain p where "node_parent (bc_heap bc ! a) = Some p"
    unfolding bc_inv_def parent_inv_def by blast
  from depth_parent [OF assms(1,2) this] assms(3) show False by simp
qed

text \<open>The deepest level among the visited nodes.\<close>

lemma deepest_level:
  assumes inv: "bc_inv bc" and set: "set zs = {(a, depth bc a) | a. a \<in> live bc}"
  shows "max_depth 0 zs \<in> depth bc ` live bc" "a \<in> live bc \<Longrightarrow> depth bc a \<le> max_depth 0 zs"
    and "set (nodes_at (max_depth 0 zs) zs) = deepest bc"
proof -
  let ?M = "max_depth 0 zs"
  have M: "?M = Max (insert 0 (depth bc ` live bc))"
    using set unfolding max_depth_is_max by (intro arg_cong [where f = Max]) force
  have fin: "finite (live bc)" by (simp add: live_def)
  have g: "bc_genesis bc \<in> live bc" using inv by (simp add: bc_inv_def parent_inv_def)
  have "0 \<in> depth bc ` live bc"
    using image_eqI [where f = "depth bc", OF depth_genesis [OF inv, symmetric] g] .
  then have "?M = Max (depth bc ` live bc)"
    unfolding M by (simp only: insert_absorb)
  also have "\<dots> \<in> depth bc ` live bc"
    using fin g by (intro Max_in) blast+
  finally show in_M: "?M \<in> depth bc ` live bc" .
  have ge: "depth bc a \<le> ?M" if "a \<in> live bc" for a
    using that fin unfolding M by (intro Max_ge) auto
  then show "a \<in> live bc \<Longrightarrow> depth bc a \<le> ?M" .
  have "deepest bc = {a \<in> live bc. depth bc a = ?M}"
    using ge in_M unfolding deepest_def by (auto intro: antisym)
  then show "set (nodes_at ?M zs) = deepest bc"
    using set by (force simp: image_iff)
qed

text \<open>With only the genesis block the search returns it twice.\<close>

lemma last_nodes_distinct:
  assumes inv: "bc_inv bc" and set: "set ((bc_genesis bc, 0) # xs) = {(a, depth bc a) | a. a \<in> live bc}"
    and dist: "distinct (map fst ((bc_genesis bc, 0) # xs))"
  defines "zs \<equiv> (bc_genesis bc, 0) # xs"
  defines "lns \<equiv> (if max_depth 0 zs = 0 then [bc_genesis bc] else []) @ nodes_at (max_depth 0 zs) zs"
  shows "if live bc = {bc_genesis bc} then lns = [bc_genesis bc, bc_genesis bc] else distinct lns"
proof (cases "max_depth 0 zs = 0")
  case True
  note level = deepest_level [OF inv set, folded zs_def]
  have g: "bc_genesis bc \<in> live bc" using inv by (simp add: bc_inv_def parent_inv_def)
  have "depth bc a = 0" if "a \<in> live bc" for a
    using level(2) [OF that] True by simp
  then have live: "live bc = {bc_genesis bc}"
    using depth_0_genesis [OF inv] g by blast
  moreover have "set zs = {(bc_genesis bc, 0)}"
    using set live depth_genesis [OF inv] unfolding zs_def by auto
  then have "nodes_at (max_depth 0 zs) zs = [bc_genesis bc]"
    using True dist unfolding zs_def by (cases xs) auto
  ultimately show ?thesis using True by (simp add: lns_def)
next
  case False
  then have "live bc \<noteq> {bc_genesis bc}"
    using deepest_level(1) [OF inv set, folded zs_def] depth_genesis [OF inv] by auto
  moreover have "distinct (nodes_at (max_depth 0 zs) zs)"
    using dist unfolding zs_def [symmetric] by (rule distinct_map_filter)
  ultimately show ?thesis using False by (simp add: lns_def)
qed

lemma getLastNodes_deepest:
  assumes inv: "bc_inv bc"
  shows "\<exists>lns. getLastNodes bc = Some (bc\<lparr>bc_lastNode := lns ! 0\<rparr>, lns) \<and> lns \<noteq> [] \<and>
    set lns = deepest bc \<and>
    (if live bc = {bc_genesis bc} then lns = [bc_genesis bc, bc_genesis bc] else distinct lns)"
proof -
  let ?g = "bc_genesis bc"
  obtain xs where vis: "visits (bc_heap bc) [0] [?g] ((?g, 0) # xs)"
    and set: "set ((?g, 0) # xs) = {(a, depth bc a) | a. a \<in> live bc}"
    and dist: "distinct (map fst ((?g, 0) # xs))"
    using visits_tree [OF inv] by blast
  define zs where "zs = (?g, 0) # xs"
  define M where "M = max_depth 0 zs"
  define lns where "lns = (if M = 0 then [?g] else []) @ nodes_at M zs"
  note level = deepest_level [OF inv set, folded zs_def, folded M_def]
  have g: "?g \<in> live bc" using inv by (simp add: bc_inv_def parent_inv_def)
  have ne: "nodes_at M zs \<noteq> []"
  proof -
    obtain a where "a \<in> live bc" "depth bc a = M" using level(1) by blast
    then have "a \<in> deepest bc" using level(2) by (simp add: deepest_def)
    then show ?thesis unfolding level(3) [symmetric] by (metis empty_iff empty_set)
  qed
  have "set lns = deepest bc"
    using level(2,3) g depth_genesis [OF inv] unfolding lns_def deepest_def by auto
  moreover have "getLastNodes bc = Some (bc\<lparr>bc_lastNode := lns ! 0\<rparr>, lns)"
    using last_loop_visits [OF vis] ne
    unfolding getLastNodes_def lns_def zs_def [symmetric] M_def fold_last_visit
    by (auto simp: fold_last_visit hd_conv_nth)
  moreover have "if live bc = {?g} then lns = [?g, ?g] else distinct lns"
    using last_nodes_distinct [OF inv set dist] unfolding lns_def M_def zs_def .
  ultimately show ?thesis
    using ne by (intro exI [of _ lns]) (auto simp: lns_def)
qed

text \<open>The node the ledger queries start from, and its chain.\<close>

definition tip :: "Blockchain \<Rightarrow> addr" where
  "tip bc = snd (the (getLastNodes bc)) ! 0"

lemma getLastNodes_tip:
  assumes "bc_inv bc"
  obtains lns where "getLastNodes bc = Some (bc\<lparr>bc_lastNode := tip bc\<rparr>, lns)"
    and "lns ! 0 = tip bc" and "lns \<noteq> []" and "tip bc \<in> deepest bc" and "set lns = deepest bc"
proof -
  obtain lns where "getLastNodes bc = Some (bc\<lparr>bc_lastNode := lns ! 0\<rparr>, lns)"
      "lns \<noteq> []" "set lns = deepest bc"
    using getLastNodes_deepest [OF assms] by blast
  then show ?thesis
    using that by (simp add: tip_def) (metis length_greater_0_conv nth_mem)
qed

lemma tip_live: "bc_inv bc \<Longrightarrow> tip bc \<in> live bc"
  by (rule getLastNodes_tip) (auto simp: deepest_def)

lemma live_lastNode [simp]: "live (bc\<lparr>bc_lastNode := a\<rparr>) = live bc"
  by (simp add: live_def)

lemma bc_inv_lastNode: "bc_inv bc \<Longrightarrow> a \<in> live bc \<Longrightarrow> bc_inv (bc\<lparr>bc_lastNode := a\<rparr>)"
  by (simp add: bc_inv_defs del: map_of_eq_Some_iff)

text \<open>The node \<open>k\<close> steps behind a node, and the blocks that follow.\<close>

lemma confirmed_loop_chain:
  "chain h (Some a) as \<Longrightarrow>
   confirmed_loop h k a = (if k < length as then Some (as ! k) else None)"
proof (induction k arbitrary: a as)
  case (Suc k)
  then obtain bs where bs: "as = a # bs" "chain h (node_parent (h ! a)) bs"
    by (auto simp: chain_Some)
  with Suc.IH show ?case
    by (cases "node_parent (h ! a)") auto
qed (auto simp: chain_Some)

lemma chain_nth: "chain h x as \<Longrightarrow> k < length as \<Longrightarrow> chain h (Some (as ! k)) (drop k as)"
  by (metis Cons_nth_drop_Suc append_take_drop_id chain_suffix)

lemma confirmed_loop_blocks:
  assumes "chain_blocks h (Some a) = Some bs"
  shows "map_option (\<lambda>c. chain_blocks h (Some c)) (confirmed_loop h k a) =
    (if k < length bs then Some (Some (drop k bs)) else None)"
proof -
  obtain as where "chain h (Some a) as" "bs = map (block_at h) as"
    using assms by (auto simp: chain_blocks_Some)
  then show ?thesis
    using chain_blocks_chain [OF chain_nth] by (auto simp: confirmed_loop_chain drop_map)
qed

lemma previous_loop_chain:
  "chain h x as \<Longrightarrow> previous_loop h x k result = result @ map (block_at h) (take k as)"
proof (induction as arbitrary: x k result)
  case (Cons a as)
  then show ?case by (cases k) auto
qed (simp add: walk.simps)

end
