(* ===== verification/Bclib_Rfs.thy ===== *)
theory Bclib_Rfs
  imports Bclib_Tree
begin

text \<open>
  \<^verbatim>\<open>bclib/blockchain_rfs.go\<close>: the record file system on the block tree. Every query
  walks a chain of blocks from some node back to the genesis block.

  Coin balances are Go \<^verbatim>\<open>int\<close>s. One block changes a balance by less than \<open>2 ^ 8\<close>
  upwards and by less than \<open>2 ^ 8\<close> downwards per operation, so 64 bits do not overflow on a
  chain that fits in memory, and the model uses mathematical integers.
\<close>

record FileOps =
  Fname :: string
  FileOperations :: "Operation list"
  Deleted :: bool

section \<open>ValidateOperations\<close>

definition op_cost :: "Settings \<Rightarrow> Operation \<Rightarrow> int" where
  "op_cost cfg oper = (if Op oper = Create then uint (NumCoinsPerFileCreate cfg) else 1)"

definition block_reward :: "Settings \<Rightarrow> Block \<Rightarrow> int" where
  "block_reward cfg b =
     (if 0 < length (Operations b) then uint (MinedCoinsPerOpBlock cfg)
      else uint (MinedCoinsPerNoOpBlock cfg))"

type_synonym balances = "(string, int) gomap"
type_synonym opmap = "(string, Operation) gomap"

text \<open>The three maps filled from the operations under validation: the balance of every miner
  involved, the operations by identifier, and the creations by file name.\<close>

fun validate_init :: "Operation list \<Rightarrow> balances \<Rightarrow> opmap \<Rightarrow> opmap \<Rightarrow> balances \<times> opmap \<times> opmap" where
  "validate_init [] minersBalance opIds files = (minersBalance, opIds, files)"
| "validate_init (oper # ops) minersBalance opIds files =
     validate_init ops (AList.update (MinerID oper) 0 minersBalance)
       (AList.update (OperationID oper) oper opIds)
       (if Op oper = Create then AList.update (Filename oper) oper files else files)"

text \<open>The inner loop: one operation of a block on the chain.\<close>

definition validate_op :: "Settings \<Rightarrow> opmap \<Rightarrow> Operation \<Rightarrow> balances \<times> opmap \<Rightarrow> balances \<times> opmap" where
  "validate_op cfg files oper st =
     (let (minersBalance, opIds) = st;
          (minersBalance', opIds') =
            (case map_of minersBalance (MinerID oper) of
               None \<Rightarrow> (minersBalance, opIds)
             | Some balance \<Rightarrow>
                 (AList.update (MinerID oper) (balance - op_cost cfg oper) minersBalance,
                  if Op oper = Create then
                    (case map_of files (Filename oper) of
                       None \<Rightarrow> opIds
                     | Some conflictingOp \<Rightarrow> AList.delete (OperationID conflictingOp) opIds)
                  else opIds))
      in (minersBalance',
          case map_of opIds' (OperationID oper) of
            None \<Rightarrow> opIds'
          | Some _ \<Rightarrow> AList.delete (OperationID oper) opIds'))"

text \<open>The body of the loop that backtracks to the genesis block.\<close>

definition validate_block :: "Settings \<Rightarrow> opmap \<Rightarrow> Block \<Rightarrow> balances \<times> opmap \<Rightarrow> balances \<times> opmap" where
  "validate_block cfg files b st =
     (let (minersBalance, opIds) = st;
          minersBalance' =
            (case map_of minersBalance (BlockMinerID b) of
               None \<Rightarrow> minersBalance
             | Some balance \<Rightarrow>
                 AList.update (BlockMinerID b) (balance + block_reward cfg b) minersBalance)
      in fold (validate_op cfg files) (Operations b) (minersBalance', opIds))"

text \<open>The loop over the remaining operations: it spends the miners' coins and collects the
  identifiers of the operations that cannot be paid. \<^term>\<open>None\<close> is the early return.\<close>

fun spend_loop :: "Settings \<Rightarrow> opmap \<Rightarrow> balances \<Rightarrow> string list \<Rightarrow> string list option" where
  "spend_loop cfg [] minersBalance conflictOpIds = Some conflictOpIds"
| "spend_loop cfg ((k, oper) # rest) minersBalance conflictOpIds =
     (case map_of minersBalance (MinerID oper) of
        None \<Rightarrow> None
      | Some minerBalance \<Rightarrow>
          (if minerBalance - op_cost cfg oper < 0 then
             spend_loop cfg rest (AList.update (MinerID oper) minerBalance minersBalance)
               (conflictOpIds @ [OperationID oper])
           else
             spend_loop cfg rest
               (AList.update (MinerID oper) (minerBalance - op_cost cfg oper) minersBalance)
               conflictOpIds))"

text \<open>\<open>it1\<close> and \<open>it2\<close> are the orders of the two loops over \<^verbatim>\<open>opIds\<close>.\<close>

definition ValidateOperations ::
  "(string, Operation) iter \<Rightarrow> (string, Operation) iter \<Rightarrow> Blockchain \<Rightarrow> Operation list \<Rightarrow> bytes
     \<Rightarrow> (Operation list \<times> bool) option" where
  "ValidateOperations it1 it2 bc operations previousHash =
     (if length operations = 0 then Some ([], True)
      else
        (let (minersBalance, opIds, files) = validate_init operations [] [] []
         in case map_of (bc_m bc) previousHash of
              None \<Rightarrow> Some ([], False)
            | Some node \<Rightarrow>
                do {
                  (minersBalance', opIds') \<leftarrow>
                    walk (validate_block (bc_config bc) files) (bc_heap bc) (Some node)
                      (minersBalance, opIds);
                  (case spend_loop (bc_config bc) (it1 opIds') minersBalance' [] of
                     None \<Rightarrow> Some ([], False)
                   | Some conflictOpIds \<Rightarrow>
                       (let validOps = map snd (it2 (fold AList.delete conflictOpIds opIds'))
                        in Some (validOps, length operations = length validOps)))
                }))"

section \<open>Queries on the confirmed chain\<close>

definition list_files_block :: "Block \<Rightarrow> (string, unit) gomap \<Rightarrow> (string, unit) gomap" where
  "list_files_block b filenames =
     fold (\<lambda>oper. AList.update (Filename oper) ()) (Operations b) filenames"

definition ListFiles :: "(string, unit) iter \<Rightarrow> Blockchain \<Rightarrow> (Blockchain \<times> string list) option" where
  "ListFiles it bc =
     do {
       (bc', node) \<leftarrow> getLastConfirmedNode bc (unat (ConfirmsPerFileCreate (bc_config bc)));
       (case node of
          None \<Rightarrow> Some (bc', [])
        | Some nd \<Rightarrow>
            do {
              filenames \<leftarrow> walk list_files_block (bc_heap bc') (Some nd) [];
              Some (bc', map fst (it filenames))
            })
     }"

definition num_recs_block :: "string \<Rightarrow> Block \<Rightarrow> int \<times> bool \<Rightarrow> int \<times> bool" where
  "num_recs_block fname b st =
     fold (\<lambda>oper (numRecs, seenFilename).
       if Filename oper = fname then (if Op oper = Append then numRecs + 1 else numRecs, True)
       else (numRecs, seenFilename)) (Operations b) st"

definition NumRecs :: "Blockchain \<Rightarrow> string \<Rightarrow> (Blockchain \<times> int \<times> bool) option" where
  "NumRecs bc fname =
     do {
       (bc', node) \<leftarrow> getLastConfirmedNode bc (unat (ConfirmsPerFileAppend (bc_config bc)));
       (case node of
          None \<Rightarrow> Some (bc', -1, False)
        | Some nd \<Rightarrow>
            do {
              (numRecs, seenFilename) \<leftarrow>
                walk (num_recs_block fname) (bc_heap bc') (Some nd) (0, False);
              Some (bc', numRecs, seenFilename)
            })
     }"

type_synonym file_state = "Operation list \<times> bool \<times> bool"

definition get_file_block :: "string \<Rightarrow> Block \<Rightarrow> file_state \<Rightarrow> file_state" where
  "get_file_block fname b st =
     fold (\<lambda>oper (operations, seenFilename, deleted).
       if Filename oper = fname then
         (if Op oper = Append then operations @ [oper] else operations,
          True,
          if Op oper = Delete then True else deleted)
       else (operations, seenFilename, deleted)) (Operations b) st"

text \<open>The loop that reverses \<^verbatim>\<open>operations\<close> in place, swapping from both ends.\<close>

function reverse_loop :: "'a list \<Rightarrow> nat \<Rightarrow> nat \<Rightarrow> 'a list" where
  "reverse_loop xs i j =
     (if i < j then reverse_loop (xs[i := xs ! j, j := xs ! i]) (i + 1) (j - 1) else xs)"
  by pat_completeness auto
termination
  by (relation "measure (\<lambda>(xs, i, j). j - i)") auto

declare reverse_loop.simps [simp del]

definition GetFile :: "Blockchain \<Rightarrow> string \<Rightarrow> (Blockchain \<times> FileOps \<times> bool) option" where
  "GetFile bc fname =
     do {
       (bc', node) \<leftarrow> getLastConfirmedNode bc (unat (ConfirmsPerFileAppend (bc_config bc)));
       (case node of
          None \<Rightarrow> Some (bc', \<lparr>Fname = [], FileOperations = [], Deleted = False\<rparr>, False)
        | Some nd \<Rightarrow>
            do {
              (operations, seenFilename, deleted) \<leftarrow>
                walk (get_file_block fname) (bc_heap bc') (Some nd) ([], False, False);
              Some (bc', \<lparr>Fname = fname,
                          FileOperations = reverse_loop operations 0 (length operations - 1),
                          Deleted = deleted\<rparr>, seenFilename)
            })
     }"

section \<open>CheckOpConfirmed\<close>

text \<open>The loop over the operations of one block: \<^term>\<open>Inr\<close> is the return inside the loop,
  \<^term>\<open>Inl\<close> the value of \<^verbatim>\<open>otherMiner\<close> after the loop.\<close>

fun check_ops ::
  "Operation \<Rightarrow> nat \<Rightarrow> nat \<Rightarrow> Operation list \<Rightarrow> bool \<Rightarrow> bool + (bool \<times> bool \<times> bool)" where
  "check_ops oper numConf i [] otherMiner = Inl otherMiner"
| "check_ops oper numConf i (blockOp # rest) otherMiner =
     (let otherMiner' =
            (if Op oper = Create \<and> Filename oper = Filename blockOp \<and> MinerID oper \<noteq> MinerID blockOp
             then True else otherMiner)
      in if OperationID blockOp = OperationID oper then
           Inr (if i > numConf then True else False, True, otherMiner')
         else check_ops oper numConf i rest otherMiner')"

partial_function (option) check_loop ::
  "Node list \<Rightarrow> Operation \<Rightarrow> nat \<Rightarrow> addr option \<Rightarrow> nat \<Rightarrow> bool \<Rightarrow> (bool \<times> bool \<times> bool) option" where
  "check_loop h oper numConf node i otherMiner =
     (case node of
        None \<Rightarrow> Some (False, False, otherMiner)
      | Some a \<Rightarrow>
          (case check_ops oper numConf i (Operations (node_block (h ! a))) otherMiner of
             Inr result \<Rightarrow> Some result
           | Inl otherMiner' \<Rightarrow>
               check_loop h oper numConf (node_parent (h ! a)) (i + 1) otherMiner'))"

text \<open>The result is \<^verbatim>\<open>(confirmed, exists, otherMiner)\<close>.\<close>

definition CheckOpConfirmed ::
  "Blockchain \<Rightarrow> Operation \<Rightarrow> (Blockchain \<times> bool \<times> bool \<times> bool) option" where
  "CheckOpConfirmed bc oper =
     do {
       (bc', lastNodes) \<leftarrow> getLastNodes bc;
       result \<leftarrow> check_loop (bc_heap bc') oper
         (unat (if Op oper = Append then ConfirmsPerFileAppend (bc_config bc')
                else ConfirmsPerFileCreate (bc_config bc')))
         (Some (lastNodes ! 0)) 0 False;
       Some (bc', result)
     }"

end
