(* ===== verification/Bclib_Validate.thy ===== *)
theory Bclib_Validate
  imports Bclib_Rfs
begin

text \<open>
  What \<^verbatim>\<open>ValidateOperations\<close> computes: the balance of a miner as a sum over the blocks of
  a chain, the exact condition under which a batch of operations is accepted (which does not depend
  on the order of the loops over Go maps), and what the returned operations satisfy.
\<close>

section \<open>Specification\<close>

definition chain_ops :: "Block list \<Rightarrow> Operation list" where
  "chain_ops bs = concat (map Operations bs)"

text \<open>What a miner pays for the operations of a list, and what it owns after a chain of blocks.\<close>

definition op_costs :: "Settings \<Rightarrow> string \<Rightarrow> Operation list \<Rightarrow> int" where
  "op_costs cfg mid ops = (\<Sum>oper \<leftarrow> ops. if MinerID oper = mid then op_cost cfg oper else 0)"

definition rewards :: "Settings \<Rightarrow> string \<Rightarrow> Block list \<Rightarrow> int" where
  "rewards cfg mid bs = (\<Sum>b \<leftarrow> bs. if BlockMinerID b = mid then block_reward cfg b else 0)"

definition balance :: "Settings \<Rightarrow> string \<Rightarrow> Block list \<Rightarrow> int" where
  "balance cfg mid bs = rewards cfg mid bs - op_costs cfg mid (chain_ops bs)"

text \<open>A batch repeats a creation of the chain, as far as the code looks: only creations by miners
  that also take part in the batch count.\<close>

definition repeats_creation :: "Operation list \<Rightarrow> Operation list \<Rightarrow> bool" where
  "repeats_creation ops old \<longleftrightarrow>
     (\<exists>c \<in> set ops. \<exists>oper \<in> set old. Op c = Create \<and> Op oper = Create \<and>
        Filename c = Filename oper \<and> MinerID oper \<in> MinerID ` set ops)"

text \<open>The condition for a batch on top of a chain.\<close>

definition acceptable :: "Settings \<Rightarrow> Operation list \<Rightarrow> Block list \<Rightarrow> bool" where
  "acceptable cfg ops bs \<longleftrightarrow>
     distinct (map OperationID ops) \<and>
     (\<forall>oper \<in> set ops. OperationID oper \<notin> OperationID ` set (chain_ops bs)) \<and>
     \<not> repeats_creation ops (chain_ops bs) \<and>
     (\<forall>oper \<in> set ops. op_costs cfg (MinerID oper) ops \<le> balance cfg (MinerID oper) bs)"

lemma op_cost_nonneg [simp]: "0 \<le> op_cost cfg oper"
  by (simp add: op_cost_def)

lemma block_reward_nonneg [simp]: "0 \<le> block_reward cfg b"
  by (simp add: block_reward_def)

lemma op_costs_simps [simp]:
  "op_costs cfg mid [] = 0"
  "op_costs cfg mid (oper # ops) = (if MinerID oper = mid then op_cost cfg oper else 0) + op_costs cfg mid ops"
  "op_costs cfg mid (ops @ ops') = op_costs cfg mid ops + op_costs cfg mid ops'"
  by (simp_all add: op_costs_def)

lemma op_costs_neg:
  "(\<Sum>oper \<leftarrow> ops. - (if MinerID oper = mid then op_cost cfg oper else 0)) = - op_costs cfg mid ops"
  by (induction ops) auto

lemma op_costs_nonneg [simp]: "0 \<le> op_costs cfg mid ops"
  by (induction ops) auto

lemma op_costs_none: "mid \<notin> MinerID ` set ops \<Longrightarrow> op_costs cfg mid ops = 0"
  by (induction ops) auto

lemma op_costs_mset: "mset ops = mset ops' \<Longrightarrow> op_costs cfg mid ops = op_costs cfg mid ops'"
  unfolding op_costs_def by (rule sum_list_permute)

lemma chain_ops_simps [simp]:
  "chain_ops [] = []"
  "chain_ops (b # bs) = Operations b @ chain_ops bs"
  by (simp_all add: chain_ops_def)

lemma balance_simps:
  "balance cfg mid [] = 0"
  "balance cfg mid (b # bs) =
     (if BlockMinerID b = mid then block_reward cfg b else 0) - op_costs cfg mid (Operations b)
       + balance cfg mid bs"
  by (simp_all add: balance_def rewards_def)

section \<open>The maps before the walk\<close>

lemma validate_init_eq:
  "validate_init ops B I F =
     (store_all MinerID (\<lambda>_. 0) ops B, store_all OperationID (\<lambda>oper. oper) ops I,
      store_all Filename (\<lambda>oper. oper) (filter (\<lambda>oper. Op oper = Create) ops) F)"
  by (induction ops arbitrary: B I F) auto

abbreviation init_balances :: "Operation list \<Rightarrow> balances" where
  "init_balances ops \<equiv> store_all MinerID (\<lambda>_. 0) ops []"

abbreviation init_ids :: "Operation list \<Rightarrow> opmap" where
  "init_ids ops \<equiv> store_all OperationID (\<lambda>oper. oper) ops []"

abbreviation init_files :: "Operation list \<Rightarrow> opmap" where
  "init_files ops \<equiv> store_all Filename (\<lambda>oper. oper) (filter (\<lambda>oper. Op oper = Create) ops) []"

lemma map_of_init_balances:
  "map_of (init_balances ops) mid = (if mid \<in> MinerID ` set ops then Some 0 else None)"
proof (cases "map_of (init_balances ops) mid")
  case None
  then show ?thesis
    using map_of_store_all_None [of MinerID "\<lambda>_. 0 :: int" ops mid] by auto
next
  case (Some v)
  then show ?thesis
    using map_of_store_all [OF Some] by auto
qed

lemma map_of_init_ids:
  "map_of (init_ids ops) k = Some oper \<Longrightarrow> oper \<in> set ops \<and> OperationID oper = k"
  by (drule map_of_store_all) auto

lemma map_of_init_files:
  "map_of (init_files ops) f = Some c \<Longrightarrow> c \<in> set ops \<and> Op c = Create \<and> Filename c = f"
  by (drule map_of_store_all) auto

lemma init_files_None:
  "map_of (init_files ops) f = None \<longleftrightarrow> (\<forall>c \<in> set ops. Op c = Create \<longrightarrow> Filename c \<noteq> f)"
  by (auto simp: map_of_store_all_None)

section \<open>The walk\<close>

text \<open>The identifiers that an operation of the chain removes from the map of valid operations.\<close>

definition kills :: "string set \<Rightarrow> opmap \<Rightarrow> Operation \<Rightarrow> string set" where
  "kills miners files oper =
     insert (OperationID oper)
       (if Op oper = Create \<and> MinerID oper \<in> miners then
          OperationID ` set_option (map_of files (Filename oper))
        else {})"

text \<open>A step of the walk adds to the balances, removes identifiers, and keeps the keys distinct.\<close>

definition effect ::
  "(string \<Rightarrow> int) \<Rightarrow> string set \<Rightarrow> balances \<times> opmap \<Rightarrow> balances \<times> opmap \<Rightarrow> bool" where
  "effect delta killed st st' \<longleftrightarrow>
     (\<forall>mid. map_of (fst st') mid = map_option (\<lambda>x. x + delta mid) (map_of (fst st) mid)) \<and>
     map_of (snd st') = map_of (snd st) |` (- killed) \<and>
     (distinct (gokeys (snd st)) \<longrightarrow> distinct (gokeys (snd st')))"

lemma effect_dom: "effect delta killed st st' \<Longrightarrow> dom (map_of (fst st')) = dom (map_of (fst st))"
  by (auto simp: effect_def dom_def)

lemma effect_refl: "effect (\<lambda>mid. 0) {} st st"
  by (simp add: effect_def restrict_map_def option.map_ident)

lemma effect_trans:
  assumes "effect d1 k1 st st1" and "effect d2 k2 st1 st2"
  shows "effect (\<lambda>mid. d1 mid + d2 mid) (k1 \<union> k2) st st2"
  using assms
  by (auto simp: effect_def restrict_map_def fun_eq_iff option.map_comp comp_def add.assoc)

lemma fold_effect:
  assumes "\<And>x st. dom (map_of (fst st)) = D \<Longrightarrow> effect (d x) (k x) st (f x st)"
  shows "dom (map_of (fst st)) = D \<Longrightarrow>
    effect (\<lambda>mid. \<Sum>x \<leftarrow> xs. d x mid) (\<Union>x \<in> set xs. k x) st (fold f xs st)"
proof (induction xs arbitrary: st)
  case (Cons x xs)
  note one = assms [OF Cons.prems, of x]
  with Cons have "effect (\<lambda>mid. \<Sum>x \<leftarrow> xs. d x mid) (\<Union>x \<in> set xs. k x) (f x st) (fold f xs (f x st))"
    by (simp add: effect_dom)
  from effect_trans [OF one this] show ?case by simp
qed (simp add: effect_refl)

lemma validate_op_effect:
  assumes "dom (map_of (fst st)) = miners"
  shows "effect (\<lambda>mid. - (if MinerID oper = mid then op_cost cfg oper else 0))
    (kills miners files oper) st (validate_op cfg files oper st)"
proof -
  obtain B I where st: "st = (B, I)" by fastforce
  show ?thesis
  proof (cases "map_of B (MinerID oper)")
    case None
    then have "MinerID oper \<notin> miners" using assms by (auto simp: st)
    with None show ?thesis
      by (auto simp: st effect_def validate_op_def kills_def restrict_map_def fun_eq_iff
          option.map_ident)
  next
    case (Some x)
    then have "MinerID oper \<in> miners" using assms by (auto simp: st)
    with Some show ?thesis
      by (cases "map_of files (Filename oper)")
        (auto simp: st effect_def validate_op_def kills_def restrict_map_def fun_eq_iff
          option.map_ident)
  qed
qed

lemma validate_block_effect:
  assumes "dom (map_of (fst st)) = miners"
  shows "effect (\<lambda>mid. balance cfg mid [b]) (\<Union>oper \<in> set (Operations b). kills miners files oper)
    st (validate_block cfg files b st)"
proof -
  obtain B I where st: "st = (B, I)" by fastforce
  define B1 where "B1 = (case map_of B (BlockMinerID b) of None \<Rightarrow> B
    | Some x \<Rightarrow> AList.update (BlockMinerID b) (x + block_reward cfg b) B)"
  have one: "effect (\<lambda>mid. if BlockMinerID b = mid then block_reward cfg b else 0) {} st (B1, I)"
    unfolding st B1_def
    by (auto simp: effect_def restrict_map_def fun_eq_iff option.map_ident split: option.splits)
  have "effect (\<lambda>mid. \<Sum>oper \<leftarrow> Operations b. - (if MinerID oper = mid then op_cost cfg oper else 0))
      (\<Union>oper \<in> set (Operations b). kills miners files oper)
      (B1, I) (fold (validate_op cfg files) (Operations b) (B1, I))"
    using effect_dom [OF one] assms
    by (intro fold_effect [where D = miners] validate_op_effect) auto
  from effect_trans [OF one this] show ?thesis
    unfolding st validate_block_def B1_def
    by (simp add: balance_simps op_costs_neg)
qed

lemma balance_sum: "balance cfg mid bs = (\<Sum>b \<leftarrow> bs. balance cfg mid [b])"
  by (induction bs) (simp_all add: balance_simps)

lemma validate_blocks_effect:
  assumes "dom (map_of (fst st)) = miners"
  shows "effect (\<lambda>mid. balance cfg mid bs)
    (\<Union>oper \<in> set (chain_ops bs). kills miners files oper)
    st (fold (validate_block cfg files) bs st)"
  using fold_effect [where D = miners, OF validate_block_effect assms, where xs = bs]
  by (simp add: balance_sum [of _ _ bs] chain_ops_def)

section \<open>Spending\<close>

text \<open>The loop over the remaining operations never takes the early return when every miner has a
  balance. It drops nothing exactly when every miner can pay for all of its operations; and what
  it does not drop is paid for.\<close>

lemma spend_loop_run:
  assumes "\<forall>oper \<in> snd ` set es. MinerID oper \<in> dom (map_of B)"
  obtains dropped where "spend_loop cfg es B conf = Some (conf @ dropped)"
    and "set dropped \<subseteq> OperationID ` snd ` set es"
    and "dropped = [] \<longleftrightarrow> (\<forall>oper \<in> snd ` set es.
           op_costs cfg (MinerID oper) (map snd es) \<le> the (map_of B (MinerID oper)))"
  using assms
proof (induction es arbitrary: B conf thesis)
  case (Cons e es)
  obtain k oper where e: "e = (k, oper)" by fastforce
  let ?m = "MinerID oper" and ?c = "op_cost cfg oper"
  obtain x where x: "map_of B ?m = Some x"
    using Cons.prems(2) e by auto
  let ?B = "AList.update ?m (if x - ?c < 0 then x else x - ?c) B"
  have "\<forall>oper \<in> snd ` set es. MinerID oper \<in> dom (map_of ?B)"
    using Cons.prems(2) by auto
  then obtain dropped where run: "spend_loop cfg es ?B (if x - ?c < 0 then conf @ [OperationID oper] else conf) =
        Some ((if x - ?c < 0 then conf @ [OperationID oper] else conf) @ dropped)"
    and sub: "set dropped \<subseteq> OperationID ` snd ` set es"
    and iff: "dropped = [] \<longleftrightarrow> (\<forall>oper \<in> snd ` set es.
           op_costs cfg (MinerID oper) (map snd es) \<le> the (map_of ?B (MinerID oper)))"
    using Cons.IH by blast
  show ?case
  proof (cases "x - ?c < 0")
    case True
    have "\<not> op_costs cfg ?m (map snd (e # es)) \<le> the (map_of B ?m)"
      using True x op_costs_nonneg [of cfg ?m "map snd es"] by (simp add: e del: op_costs_nonneg)
    then show ?thesis
      using True run sub x by (intro Cons.prems(1) [of "OperationID oper # dropped"]) (auto simp: e)
  next
    case False
    have "(\<forall>o' \<in> snd ` set es. op_costs cfg (MinerID o') (map snd es) \<le> the (map_of ?B (MinerID o')))
      \<longleftrightarrow> (\<forall>o' \<in> snd ` set (e # es).
            op_costs cfg (MinerID o') (map snd (e # es)) \<le> the (map_of B (MinerID o')))"
      using False x op_costs_none [of ?m "map snd es" cfg] by (fastforce simp: e image_iff)
    then show ?thesis
      using False run sub x iff by (intro Cons.prems(1) [of dropped]) (auto simp: e)
  qed
qed simp

text \<open>What is not dropped can be paid, miner by miner.\<close>

lemma spend_loop_prefix:
  "spend_loop cfg es B conf = Some r \<Longrightarrow>
   \<exists>dropped. r = conf @ dropped \<and> set dropped \<subseteq> OperationID ` snd ` set es"
proof (induction cfg es B conf rule: spend_loop.induct)
  case (2 cfg k oper rest B conf)
  then show ?case
    by (fastforce split: option.splits if_splits)
qed simp

abbreviation kept_ops :: "opmap \<Rightarrow> string list \<Rightarrow> Operation list" where
  "kept_ops es dropped \<equiv> filter (\<lambda>oper. OperationID oper \<notin> set dropped) (map snd es)"

lemma spend_loop_paid:
  "spend_loop cfg es B conf = Some (conf @ dropped) \<Longrightarrow>
   distinct (map (OperationID \<circ> snd) es) \<Longrightarrow> mid \<in> MinerID ` set (kept_ops es dropped) \<Longrightarrow>
   op_costs cfg mid (kept_ops es dropped) \<le> the (map_of B mid)"
proof (induction es arbitrary: B conf dropped)
  case (Cons e es)
  obtain k oper where e: "e = (k, oper)" by fastforce
  let ?m = "MinerID oper" and ?c = "op_cost cfg oper"
  obtain x where x: "map_of B ?m = Some x"
    using Cons.prems(1) e by (auto split: option.splits)
  have fresh: "OperationID oper \<notin> OperationID ` snd ` set es"
    using Cons.prems(2) by (auto simp: e image_comp)
  show ?case
  proof (cases "x - ?c < 0")
    case True
    let ?B = "AList.update ?m x B"
    have run: "spend_loop cfg es ?B (conf @ [OperationID oper]) = Some (conf @ dropped)"
      using Cons.prems(1) True x by (simp add: e)
    with spend_loop_prefix [OF run] obtain dropped' where d: "dropped = OperationID oper # dropped'"
      by auto
    have kept: "kept_ops (e # es) dropped = kept_ops es dropped'"
    proof -
      have "OperationID o' \<noteq> OperationID oper" if "o' \<in> set (map snd es)" for o'
        using fresh that by (metis image_eqI list.set_map)
      then show ?thesis by (auto simp: e d intro!: filter_cong)
    qed
    show ?thesis
      using Cons.IH [of ?B "conf @ [OperationID oper]" dropped'] run Cons.prems(2,3) x
      unfolding kept by (simp add: d split: if_splits)
  next
    case False
    let ?B = "AList.update ?m (x - ?c) B"
    have run: "spend_loop cfg es ?B conf = Some (conf @ dropped)"
      using Cons.prems(1) False x by (simp add: e)
    have "set dropped \<subseteq> OperationID ` snd ` set es"
      using spend_loop_prefix [OF run] by auto
    then have kept: "kept_ops (e # es) dropped = oper # kept_ops es dropped"
      using fresh by (auto simp: e)
    have IH: "mid \<in> MinerID ` set (kept_ops es dropped) \<Longrightarrow>
        op_costs cfg mid (kept_ops es dropped) \<le> the (map_of ?B mid)"
      using Cons.IH [OF run] Cons.prems(2) by simp
    show ?thesis
      using IH False x Cons.prems(3) op_costs_none [of mid "kept_ops es dropped" cfg]
      unfolding kept by (cases "mid \<in> MinerID ` set (kept_ops es dropped)") (auto split: if_splits)
  qed
qed simp

section \<open>The verdict\<close>

definition killed :: "Operation list \<Rightarrow> Block list \<Rightarrow> string set" where
  "killed ops bs = (\<Union>oper \<in> set (chain_ops bs). kills (MinerID ` set ops) (init_files ops) oper)"

lemma killed_disjoint:
  "OperationID ` set ops \<inter> killed ops bs = {} \<longleftrightarrow>
     (\<forall>oper \<in> set ops. OperationID oper \<notin> OperationID ` set (chain_ops bs)) \<and>
     \<not> repeats_creation ops (chain_ops bs)"
proof -
  have mem: "OperationID old \<in> OperationID ` set ops \<longleftrightarrow>
      (\<exists>oper \<in> set ops. OperationID oper = OperationID old)" for old
    by (metis image_iff)
  have one: "OperationID ` set ops \<inter> kills (MinerID ` set ops) (init_files ops) old = {} \<longleftrightarrow>
      (\<forall>oper \<in> set ops. OperationID oper \<noteq> OperationID old) \<and>
      \<not> (Op old = Create \<and> MinerID old \<in> MinerID ` set ops \<and>
         (\<exists>c \<in> set ops. Op c = Create \<and> Filename c = Filename old))" for old
  proof (cases "map_of (init_files ops) (Filename old)")
    case None
    with None [unfolded init_files_None] show ?thesis by (auto simp: kills_def mem)
  next
    case (Some c)
    with map_of_init_files [OF Some] show ?thesis by (auto simp: kills_def mem)
  qed
  have "OperationID ` set ops \<inter> killed ops bs = {} \<longleftrightarrow>
      (\<forall>old \<in> set (chain_ops bs).
         OperationID ` set ops \<inter> kills (MinerID ` set ops) (init_files ops) old = {})"
    unfolding killed_def by blast
  also have "\<dots> \<longleftrightarrow> (\<forall>oper \<in> set ops. OperationID oper \<notin> OperationID ` set (chain_ops bs)) \<and>
     \<not> repeats_creation ops (chain_ops bs)"
    unfolding one repeats_creation_def image_iff by blast
  finally show ?thesis .
qed

text \<open>The state after the walk.\<close>

lemma validate_walk:
  assumes "chain_blocks h (Some node) = Some bs"
  obtains B I where
    "walk (validate_block cfg (init_files ops)) h (Some node) (init_balances ops, init_ids ops) = Some (B, I)"
    and "\<And>mid. map_of B mid = (if mid \<in> MinerID ` set ops then Some (balance cfg mid bs) else None)"
    and "map_of I = map_of (init_ids ops) |` (- killed ops bs)" and "distinct (gokeys I)"
proof -
  obtain B I where BI: "fold (validate_block cfg (init_files ops)) bs (init_balances ops, init_ids ops) = (B, I)"
    by fastforce
  have "dom (map_of (init_balances ops)) = MinerID ` set ops"
    by (auto simp: map_of_init_balances split: if_splits)
  then have "effect (\<lambda>mid. balance cfg mid bs) (killed ops bs) (init_balances ops, init_ids ops) (B, I)"
    using validate_blocks_effect [of "(init_balances ops, init_ids ops)" "MinerID ` set ops" cfg bs
        "init_files ops"] BI unfolding killed_def by (simp only: fst_conv)
  then show ?thesis
    using assms BI that [of B I] distinct_store_all [of "[]" OperationID "\<lambda>oper. oper" ops]
    by (auto simp: walk_fold effect_def map_of_init_balances)
qed

text \<open>When the identifiers of a batch are distinct and none was removed, the map holds exactly the
  operations of the batch.\<close>

lemma opmap_all:
  assumes "distinct (map OperationID ops)" and "map_of I = map_of (init_ids ops)"
    and "distinct (gokeys I)"
  shows "mset (map snd I) = mset ops"
proof -
  have key: "fst e = OperationID (snd e) \<and> snd e \<in> set ops" if "e \<in> set I" for e
  proof -
    have "map_of I (fst e) = Some (snd e)"
      using that assms(3) by simp
    then show ?thesis
      using assms(2) map_of_init_ids [of ops "fst e" "snd e"] by simp
  qed
  have "gokeys I = map OperationID (map snd I)"
    using key by auto
  with assms(3) have dist: "distinct (map OperationID (map snd I))"
    by (rule subst [rotated])
  have "set ops \<subseteq> snd ` set I"
  proof
    fix oper assume "oper \<in> set ops"
    then obtain c where c: "map_of I (OperationID oper) = Some c"
      using map_of_store_all_None [of OperationID "\<lambda>oper. oper" ops "OperationID oper"] assms(2) by auto
    then have "c \<in> set ops" and "OperationID c = OperationID oper"
      using map_of_init_ids [of ops "OperationID oper" c] assms(2) by simp_all
    with \<open>oper \<in> set ops\<close> assms(1) have "c = oper"
      by (auto simp: distinct_map dest: inj_onD)
    with c show "oper \<in> snd ` set I" by (force dest: map_of_SomeD)
  qed
  then have "set (map snd I) = set ops"
    using key by auto
  then show ?thesis
    using dist assms(1) set_eq_iff_mset_eq_distinct by (metis distinct_map)
qed

lemma opmap_entries:
  assumes "map_of I = map_of (init_ids ops) |` (- K)" and "distinct (gokeys I)" and "e \<in> set I"
  shows "snd e \<in> set ops" and "OperationID (snd e) = fst e" and "fst e \<notin> K"
proof -
  have "map_of I (fst e) = Some (snd e)"
    using assms(2,3) by simp
  then have "map_of (init_ids ops) (fst e) = Some (snd e)" and "fst e \<notin> K"
    using assms(1) by (auto simp: restrict_map_def split: if_splits)
  then show "snd e \<in> set ops" and "OperationID (snd e) = fst e" and "fst e \<notin> K"
    using map_of_init_ids [of ops "fst e" "snd e"] by simp_all
qed

text \<open>The map after the walk and the identifiers dropped by the spending loop.\<close>

definition survivors :: "Settings \<Rightarrow> Operation list \<Rightarrow> Block list \<Rightarrow> opmap \<Rightarrow> string list \<Rightarrow> bool" where
  "survivors cfg ops bs I dropped \<longleftrightarrow>
     map_of I = map_of (init_ids ops) |` (- killed ops bs) \<and> distinct (gokeys I) \<and>
     set dropped \<subseteq> fst ` set I \<and>
     (dropped = [] \<longleftrightarrow> (\<forall>oper \<in> snd ` set I.
        op_costs cfg (MinerID oper) (map snd I) \<le> balance cfg (MinerID oper) bs)) \<and>
     (\<forall>mid \<in> MinerID ` set (kept_ops I dropped).
        op_costs cfg mid (kept_ops I dropped) \<le> balance cfg mid bs)"

text \<open>The iteration order of the spending loop changes neither costs nor what is kept.\<close>

lemma kept_ops_iter:
  assumes "is_iter it"
  shows "mset (kept_ops (it I) dropped) = mset (kept_ops I dropped)"
    and "op_costs cfg mid (map snd (it I)) = op_costs cfg mid (map snd I)"
    and "op_costs cfg mid (kept_ops (it I) dropped) = op_costs cfg mid (kept_ops I dropped)"
proof -
  show k: "mset (kept_ops (it I) dropped) = mset (kept_ops I dropped)"
    using iter_values [OF assms, of I] by (simp only: mset_filter)
  show "op_costs cfg mid (map snd (it I)) = op_costs cfg mid (map snd I)"
    "op_costs cfg mid (kept_ops (it I) dropped) = op_costs cfg mid (kept_ops I dropped)"
    using iter_values [OF assms, of I] k by (auto intro: op_costs_mset)
qed

lemma spend_loop_kept_paid:
  assumes it: "is_iter it" and run: "spend_loop cfg (it I) B [] = Some dropped"
    and keys: "distinct (gokeys I)" "\<And>e. e \<in> set I \<Longrightarrow> fst e = OperationID (snd e)"
    and B: "\<And>oper. oper \<in> snd ` set I \<Longrightarrow> map_of B (MinerID oper) = Some (bal (MinerID oper))"
    and mid: "mid \<in> MinerID ` set (kept_ops I dropped)"
  shows "op_costs cfg mid (kept_ops I dropped) \<le> bal mid"
proof -
  have "map (OperationID \<circ> snd) (it I) = gokeys (it I)"
    using keys(2) iter_set [OF it, of I] by auto
  then have "distinct (map (OperationID \<circ> snd) (it I))"
    using keys(1) iter_distinct_keys [OF it] by metis
  moreover have "set (kept_ops (it I) dropped) = set (kept_ops I dropped)"
    using kept_ops_iter(1) [OF it] by (rule mset_eq_setD)
  ultimately have "op_costs cfg mid (kept_ops (it I) dropped) \<le> the (map_of B mid)"
    using spend_loop_paid [of cfg "it I" B "[]" dropped] run mid by simp
  moreover obtain oper where "oper \<in> set (kept_ops I dropped)" and "mid = MinerID oper"
    using mid by (rule imageE)
  ultimately show ?thesis
    using B [of oper] kept_ops_iter(3) [OF it, where cfg = cfg and mid = mid and I = I and dropped = dropped] by auto
qed

lemma ValidateOperations_run:
  assumes it: "is_iter it1" "is_iter it2" and ops: "ops \<noteq> []"
    and node: "map_of (bc_m bc) prev = Some node"
    and bs: "chain_blocks (bc_heap bc) (Some node) = Some bs"
  shows "\<exists>I dropped valid. survivors (bc_config bc) ops bs I dropped \<and>
    ValidateOperations it1 it2 bc ops prev = Some (valid, length ops = length valid) \<and>
    mset valid = mset (kept_ops I dropped)"
proof -
  let ?cfg = "bc_config bc"
  obtain B I where walk: "walk (validate_block ?cfg (init_files ops)) (bc_heap bc) (Some node)
      (init_balances ops, init_ids ops) = Some (B, I)"
    and B: "\<And>mid. map_of B mid = (if mid \<in> MinerID ` set ops then Some (balance ?cfg mid bs) else None)"
    and I: "map_of I = map_of (init_ids ops) |` (- killed ops bs)" "distinct (gokeys I)"
    using validate_walk [OF bs] by blast
  note entry = opmap_entries [OF I]
  note es = iter_set [OF it(1), of I]
  have mB: "map_of B (MinerID oper) = Some (balance ?cfg (MinerID oper) bs)"
    if "oper \<in> snd ` set I" for oper
    using that entry(1) B by auto
  then have "\<forall>oper \<in> snd ` set (it1 I). MinerID oper \<in> dom (map_of B)"
    unfolding es by blast
  then obtain dropped where run: "spend_loop ?cfg (it1 I) B [] = Some dropped"
    and sub: "set dropped \<subseteq> OperationID ` snd ` set (it1 I)"
    and iff: "dropped = [] \<longleftrightarrow> (\<forall>oper \<in> snd ` set (it1 I).
           op_costs ?cfg (MinerID oper) (map snd (it1 I)) \<le> the (map_of B (MinerID oper)))"
    using spend_loop_run [of "it1 I" B ?cfg "[]"] by (metis append_Nil)
  define valid where "valid = map snd (it2 (fold AList.delete dropped I))"
  have "map snd (fold AList.delete dropped I) = kept_ops I dropped"
    using entry(2) by (auto simp: fold_delete_filter filter_map comp_def intro!: arg_cong [where f = "map snd"] filter_cong)
  then have v: "mset valid = mset (kept_ops I dropped)"
    unfolding valid_def using iter_values [OF it(2), of "fold AList.delete dropped I"] by simp
  have "ValidateOperations it1 it2 bc ops prev = Some (valid, length ops = length valid)"
    using ops node walk run by (simp add: ValidateOperations_def validate_init_eq valid_def Let_def)
  moreover have "set dropped \<subseteq> fst ` set I"
    using sub entry(2) unfolding es by force
  moreover have "dropped = [] \<longleftrightarrow> (\<forall>oper \<in> snd ` set I.
      op_costs ?cfg (MinerID oper) (map snd I) \<le> balance ?cfg (MinerID oper) bs)"
    using iff mB unfolding es kept_ops_iter(2) [OF it(1)] by simp
  moreover have "\<forall>mid \<in> MinerID ` set (kept_ops I dropped).
      op_costs ?cfg mid (kept_ops I dropped) \<le> balance ?cfg mid bs"
  proof
    fix mid assume "mid \<in> MinerID ` set (kept_ops I dropped)"
    with entry(2) mB show "op_costs ?cfg mid (kept_ops I dropped) \<le> balance ?cfg mid bs"
      by (intro spend_loop_kept_paid [OF it(1) run I(2), where bal = "\<lambda>mid. balance ?cfg mid bs"]) simp_all
  qed
  ultimately show ?thesis
    using v I unfolding survivors_def by blast
qed

text \<open>The number of operations that survive decides the verdict.\<close>

text \<open>The map that survives the walk: its size, and when it holds the whole batch.\<close>

lemma survivors_length:
  assumes "survivors cfg ops bs I dropped"
  shows "length I = card (OperationID ` set ops - killed ops bs)"
proof -
  from assms have I: "map_of I = map_of (init_ids ops) |` (- killed ops bs)" "distinct (gokeys I)"
    unfolding survivors_def by blast+
  have "dom (map_of (init_ids ops)) = OperationID ` set ops"
    unfolding set_eq_iff domIff map_of_store_all_None by simp
  then have "dom (map_of I) = OperationID ` set ops - killed ops bs"
    by (simp add: I(1) dom_restrict Diff_eq)
  then show ?thesis using gomap_card [OF I(2)] by simp
qed

lemma survivors_all:
  assumes surv: "survivors cfg ops bs I dropped"
    and ops: "distinct (map OperationID ops)" "OperationID ` set ops \<inter> killed ops bs = {}"
  shows "mset (map snd I) = mset ops"
    and "dropped = [] \<longleftrightarrow> (\<forall>oper \<in> set ops. op_costs cfg (MinerID oper) ops \<le> balance cfg (MinerID oper) bs)"
proof -
  from surv have I: "map_of I = map_of (init_ids ops) |` (- killed ops bs)" "distinct (gokeys I)"
    and iff: "dropped = [] \<longleftrightarrow> (\<forall>oper \<in> snd ` set I.
           op_costs cfg (MinerID oper) (map snd I) \<le> balance cfg (MinerID oper) bs)"
    unfolding survivors_def by blast+
  have "map_of I = map_of (init_ids ops)"
  proof (rule ext)
    fix k
    show "map_of I k = map_of (init_ids ops) k"
      using ops(2) map_of_store_all_None [of OperationID "\<lambda>oper. oper" ops k]
      by (cases "k \<in> killed ops bs") (auto simp: I(1) restrict_map_def)
  qed
  then show m: "mset (map snd I) = mset ops" using opmap_all ops(1) I(2) by blast
  show "dropped = [] \<longleftrightarrow> (\<forall>oper \<in> set ops. op_costs cfg (MinerID oper) ops \<le> balance cfg (MinerID oper) bs)"
    unfolding iff using op_costs_mset [OF m] mset_eq_setD [OF m] by simp
qed

lemma survivors_keep_all:
  assumes surv: "survivors cfg ops bs I dropped" and len: "length ops = length (kept_ops I dropped)"
  shows "distinct (map OperationID ops)" "OperationID ` set ops \<inter> killed ops bs = {}" "dropped = []"
proof -
  let ?ids = "OperationID ` set ops" and ?K = "killed ops bs"
  from surv have I: "map_of I = map_of (init_ids ops) |` (- killed ops bs)" "distinct (gokeys I)"
    and sub: "set dropped \<subseteq> fst ` set I"
    unfolding survivors_def by blast+
  have "length (kept_ops I dropped) \<le> length I"
    by (metis length_filter_le length_map)
  moreover have "card (?ids - ?K) \<le> card ?ids" and "card ?ids \<le> length ops"
    by (auto intro: card_mono card_image_le [THEN order_trans] card_length)
  ultimately have eq: "card (?ids - ?K) = card ?ids" "card ?ids = length ops"
    "length (kept_ops I dropped) = length I" using survivors_length [OF surv] len by linarith+
  have "?ids - ?K = ?ids"
    using eq(1) by (intro card_subset_eq) auto
  then show "?ids \<inter> ?K = {}" by blast
  show "distinct (map OperationID ops)"
    using eq(2) by (simp add: card_distinct)
  have "OperationID (snd e) \<notin> set dropped" if "e \<in> set I" for e
    using that eq(3) length_filter_less [of "snd e" "map snd I"
        "\<lambda>oper. OperationID oper \<notin> set dropped"] by auto
  then have "fst ` set I \<inter> set dropped = {}"
    using opmap_entries(2) [OF I] by auto
  then show "dropped = []"
    using sub by (metis inf.absorb2 set_empty)
qed

lemma verdict_iff:
  assumes "survivors cfg ops bs I dropped"
  shows "length ops = length (kept_ops I dropped) \<longleftrightarrow> acceptable cfg ops bs"
proof
  assume "length ops = length (kept_ops I dropped)"
  note all = survivors_keep_all [OF assms this]
  with survivors_all(2) [OF assms all(1,2)] show "acceptable cfg ops bs"
    using killed_disjoint unfolding acceptable_def by blast
next
  assume acc: "acceptable cfg ops bs"
  then have ops: "distinct (map OperationID ops)" "OperationID ` set ops \<inter> killed ops bs = {}"
    using killed_disjoint unfolding acceptable_def by blast+
  have "dropped = []"
    using survivors_all(2) [OF assms ops] acc unfolding acceptable_def by blast
  then show "length ops = length (kept_ops I dropped)"
    using mset_eq_length [OF survivors_all(1) [OF assms ops]] by simp
qed

lemma acceptable_Nil [simp]: "acceptable cfg [] bs"
  by (simp add: acceptable_def repeats_creation_def)

lemma ValidateOperations_Nil [simp]: "ValidateOperations it1 it2 bc [] prev = Some ([], True)"
  by (simp add: ValidateOperations_def)

lemma ValidateOperations_missing:
  "map_of (bc_m bc) prev = None \<Longrightarrow>
   ValidateOperations it1 it2 bc ops prev = Some ([], ops = [])"
  by (simp add: ValidateOperations_def validate_init_eq)

lemma ValidateOperations_acceptable:
  assumes "is_iter it1" "is_iter it2" "map_of (bc_m bc) prev = Some node"
    and "chain_blocks (bc_heap bc) (Some node) = Some bs"
  shows "\<exists>valid. ValidateOperations it1 it2 bc ops prev = Some (valid, acceptable (bc_config bc) ops bs)"
proof (cases "ops = []")
  case False
  then obtain I dropped valid where "survivors (bc_config bc) ops bs I dropped"
    and run: "ValidateOperations it1 it2 bc ops prev = Some (valid, length ops = length valid)"
    and m: "mset valid = mset (kept_ops I dropped)"
    using ValidateOperations_run [OF assms(1,2) False assms(3,4)] by blast
  then have "length ops = length valid \<longleftrightarrow> acceptable (bc_config bc) ops bs"
    using verdict_iff mset_eq_length [OF m] by simp
  with run show ?thesis by simp
qed simp

text \<open>The returned operations are a valid part of the batch, whatever the verdict.\<close>

lemma ValidateOperations_part:
  assumes "is_iter it1" "is_iter it2" "map_of (bc_m bc) prev = Some node"
    and "chain_blocks (bc_heap bc) (Some node) = Some bs"
    and "ValidateOperations it1 it2 bc ops prev = Some (valid, ok)"
  shows "set valid \<subseteq> set ops" and "distinct (map OperationID valid)"
    and "OperationID ` set valid \<inter> killed ops bs = {}"
    and "mid \<in> MinerID ` set valid \<Longrightarrow>
      op_costs (bc_config bc) mid valid \<le> balance (bc_config bc) mid bs"
proof -
  have "set valid \<subseteq> set ops \<and> distinct (map OperationID valid) \<and>
      OperationID ` set valid \<inter> killed ops bs = {} \<and>
      (\<forall>mid \<in> MinerID ` set valid.
         op_costs (bc_config bc) mid valid \<le> balance (bc_config bc) mid bs)"
  proof (cases "ops = []")
    case False
    obtain I dropped where surv: "survivors (bc_config bc) ops bs I dropped"
      and m: "mset valid = mset (kept_ops I dropped)"
      using ValidateOperations_run [OF assms(1,2) False assms(3,4)] assms(5) by auto
    from surv have I: "map_of I = map_of (init_ids ops) |` (- killed ops bs)" "distinct (gokeys I)"
      and paid: "\<forall>mid \<in> MinerID ` set (kept_ops I dropped).
         op_costs (bc_config bc) mid (kept_ops I dropped) \<le> balance (bc_config bc) mid bs"
      unfolding survivors_def by blast+
    note entry = opmap_entries [OF I]
    have "map OperationID (map snd I) = gokeys I"
      using entry(2) by auto
    then have "distinct (map OperationID (map snd I))"
      using I(2) by (rule subst [OF sym])
    then have "distinct (map OperationID (kept_ops I dropped))"
      by (rule distinct_map_filter)
    then have "distinct (map OperationID valid)"
      using m by (metis mset_eq_imp_distinct_iff mset_map)
    moreover have sv: "set valid = set (kept_ops I dropped)"
      using m by (rule mset_eq_setD)
    moreover have "op_costs (bc_config bc) mid valid = op_costs (bc_config bc) mid (kept_ops I dropped)"
      for mid using m by (rule op_costs_mset)
    moreover have "set valid \<subseteq> set ops" "OperationID ` set valid \<inter> killed ops bs = {}"
      unfolding sv using entry by auto
    ultimately show ?thesis using paid by simp
  qed (use assms(5) in simp)
  then show "set valid \<subseteq> set ops" and "distinct (map OperationID valid)"
    and "OperationID ` set valid \<inter> killed ops bs = {}"
    and "mid \<in> MinerID ` set valid \<Longrightarrow>
      op_costs (bc_config bc) mid valid \<le> balance (bc_config bc) mid bs"
    by auto
qed

text \<open>When no two creations of the batch share a file name (\<^verbatim>\<open>FilterInvalidOperations\<close>
  ensures that), the returned part is itself acceptable.\<close>

lemma valid_part_acceptable:
  assumes "set valid \<subseteq> set ops" and "distinct (map OperationID valid)"
    and "OperationID ` set valid \<inter> killed ops bs = {}"
    and "\<And>mid. mid \<in> MinerID ` set valid \<Longrightarrow> op_costs cfg mid valid \<le> balance cfg mid bs"
    and creates: "distinct (map filter_key ops)"
  shows "acceptable cfg valid bs"
proof -
  have fresh: "OperationID oper \<notin> OperationID ` set (chain_ops bs)" if "oper \<in> set valid" for oper
    using assms(3) that unfolding killed_def kills_def by auto
  have "\<not> repeats_creation valid (chain_ops bs)"
  proof
    assume "repeats_creation valid (chain_ops bs)"
    then obtain c old where c: "c \<in> set valid" "Op c = Create" and old: "old \<in> set (chain_ops bs)"
      "Op old = Create" "Filename c = Filename old" "MinerID old \<in> MinerID ` set ops"
      using assms(1) unfolding repeats_creation_def by blast
    obtain c' where c': "map_of (init_files ops) (Filename old) = Some c'"
      using c old assms(1) init_files_None [of ops "Filename old"] by auto
    have "filter_key c' = filter_key c"
      using map_of_init_files [OF c'] c old by (simp add: filter_key_def)
    then have "c' = c"
      using creates map_of_init_files [OF c'] c assms(1) by (auto simp: distinct_map dest: inj_onD)
    then have "OperationID c \<in> killed ops bs"
      using c' old unfolding killed_def kills_def by (intro UN_I [OF old(1)]) simp
    with c assms(3) show False by blast
  qed
  then show ?thesis
    using assms(2,4) fresh by (auto simp: acceptable_def)
qed

end
