(* ===== verification/Bclib_Blockchain.thy ===== *)
theory Bclib_Blockchain
  imports Bclib_Validate
begin

text \<open>
  The operations of \<^verbatim>\<open>bclib/blockchain.go\<close> that build the block tree: adding a validated
  block, and rebuilding a tree from a list of blocks received from a peer. The invariant of the
  store and the ledger invariants (no miner spends more than it earned, no operation occurs twice
  on a chain) are shown for every tree built from a genesis block by \<^verbatim>\<open>AddBlock\<close>.
\<close>

datatype bc_error =
    BlockExists
  | PowFailed
  | OperationValidationFailed
  | MissingPreviousBlock
  | NoParentForNode
  | NoGenesisBlock

section \<open>AddBlock\<close>

definition block_difficulty :: "Settings \<Rightarrow> Block \<Rightarrow> uint8" where
  "block_difficulty cfg b =
     (if 0 < length (Operations b) then PowPerOpBlock cfg else PowPerNoOpBlock cfg)"

definition validateBlock ::
  "host \<Rightarrow> (string, Operation) iter \<Rightarrow> (string, Operation) iter \<Rightarrow> Blockchain \<Rightarrow> Block
     \<Rightarrow> (bc_error + unit) option" where
  "validateBlock H it1 it2 bc b =
     (if \<not> Validate H (NewProofOfWork b (uint (block_difficulty (bc_config bc) b))) then
        Some (Inl PowFailed)
      else
        do {
          (validOps, ok) \<leftarrow> ValidateOperations it1 it2 bc (Operations b) (PreviousHash b);
          Some (if \<not> ok then Inl OperationValidationFailed else Inr ())
        })"

text \<open>The store after linking a new node for a block below an existing node.\<close>

definition link_block :: "Blockchain \<Rightarrow> Block \<Rightarrow> addr \<Rightarrow> Blockchain" where
  "link_block bc b prevNode =
     (let h = bc_heap bc; node = length h
      in bc\<lparr>bc_heap := h[prevNode := (h ! prevNode)\<lparr>node_children := node_children (h ! prevNode) @ [node]\<rparr>]
               @ [newNode b (Some prevNode)],
            bc_m := AList.update (Hash b) node (bc_m bc)\<rparr>)"

definition AddBlock ::
  "host \<Rightarrow> (string, Operation) iter \<Rightarrow> (string, Operation) iter \<Rightarrow> Blockchain \<Rightarrow> Block
     \<Rightarrow> (bc_error + Blockchain) option" where
  "AddBlock H it1 it2 bc b =
     (case map_of (bc_m bc) (Hash b) of
        Some _ \<Rightarrow> Some (Inl BlockExists)
      | None \<Rightarrow>
          do {
            err \<leftarrow> validateBlock H it1 it2 bc b;
            (case err of
               Inl e \<Rightarrow> Some (Inl e)
             | Inr _ \<Rightarrow>
                 (case map_of (bc_m bc) (PreviousHash b) of
                    None \<Rightarrow> Some (Inl MissingPreviousBlock)
                  | Some prevNode \<Rightarrow> Some (Inr (link_block bc b prevNode))))
          })"

section \<open>Rebuilding a tree from a list of blocks\<close>

definition alloc_nodes :: "Node list \<Rightarrow> Block list \<Rightarrow> Node list" where
  "alloc_nodes h blocks = h @ map (\<lambda>b. newNode b None) blocks"

fun node_map :: "nat \<Rightarrow> Block list \<Rightarrow> (string, addr) gomap \<Rightarrow> (string, addr) gomap" where
  "node_map i [] nodeMap = nodeMap"
| "node_map i (b # blocks) nodeMap = node_map (i + 1) blocks (AList.update (Hash b) i nodeMap)"

definition link_child :: "Node list \<Rightarrow> addr \<Rightarrow> addr \<Rightarrow> Node list" where
  "link_child h node parentNode =
     (let h1 = h[node := (h ! node)\<lparr>node_parent := Some parentNode\<rparr>]
      in h1[parentNode := (h1 ! parentNode)\<lparr>node_children := node_children (h1 ! parentNode) @ [node]\<rparr>])"

text \<open>The loop \<^verbatim>\<open>for key := range nodeMap\<close> over the entries in iteration order.\<close>

fun link_loop ::
  "(string, addr) gomap \<Rightarrow> (string \<times> addr) list \<Rightarrow> Node list \<Rightarrow> addr option
     \<Rightarrow> bc_error + (Node list \<times> addr option)" where
  "link_loop nodeMap [] h genesisNode = Inr (h, genesisNode)"
| "link_loop nodeMap ((key, node) # rest) h genesisNode =
     (if length (PreviousHash (node_block (h ! node))) = 0 then
        link_loop nodeMap rest h (Some node)
      else
        (case map_of nodeMap (PreviousHash (node_block (h ! node))) of
           None \<Rightarrow> Inl NoParentForNode
         | Some parentNode \<Rightarrow>
             link_loop nodeMap rest (link_child h node parentNode) genesisNode))"

definition UnmarshallBlockchain ::
  "(string, addr) iter \<Rightarrow> Block list \<Rightarrow> (bc_error + Blockchain) option" where
  "UnmarshallBlockchain it blocks =
     (let nodeMap = node_map 0 blocks []
      in case link_loop nodeMap (it nodeMap) (alloc_nodes [] blocks) None of
           Inl e \<Rightarrow> Some (Inl e)
         | Inr (h, genesisNode) \<Rightarrow>
             (case genesisNode of
                None \<Rightarrow> Some (Inl NoGenesisBlock)
              | Some g \<Rightarrow>
                  do {
                    (bc, lastNodes) \<leftarrow> getLastNodes
                      \<lparr>bc_genesis = g, bc_lastNode = g, bc_m = nodeMap, bc_config = zero_Settings,
                       bc_heap = h\<rparr>;
                    Some (Inr bc)
                  }))"

text \<open>\<^verbatim>\<open>MergeBlocks\<close> allocates nodes for the new blocks, then takes over the nodes of the
  old tree and links all of them. The nodes of the old tree are shared, so the store of the old tree
  changes too: the result holds the store.\<close>

definition MergeBlocks ::
  "(string, addr) iter \<Rightarrow> (string, addr) iter \<Rightarrow> Blockchain \<Rightarrow> Block list \<Rightarrow> (bc_error + Blockchain) option" where
  "MergeBlocks it1 it2 bc blocks =
     (let nodeMap1 = node_map (length (bc_heap bc)) blocks [];
          nodeMap = fold (\<lambda>(k, node). AList.update k node) (it1 (bc_m bc)) nodeMap1
      in case link_loop nodeMap (it2 nodeMap) (alloc_nodes (bc_heap bc) blocks) None of
           Inl e \<Rightarrow> Some (Inl e)
         | Inr (h, genesisNode) \<Rightarrow>
             (case genesisNode of
                None \<Rightarrow> Some (Inl NoGenesisBlock)
              | Some g \<Rightarrow>
                  do {
                    (newBc, lastNodes) \<leftarrow> getLastNodes
                      \<lparr>bc_genesis = g, bc_lastNode = g, bc_m = nodeMap, bc_config = bc_config bc,
                       bc_heap = h\<rparr>;
                    Some (Inr newBc)
                  }))"

section \<open>The store after AddBlock\<close>

lemma chain_cong:
  "chain h x as \<Longrightarrow> \<forall>a \<in> set as. node_parent (h' ! a) = node_parent (h ! a) \<Longrightarrow> chain h' x as"
  by (induction as arbitrary: x) auto

lemma live_bound: "bc_inv bc \<Longrightarrow> live bc \<subseteq> {..<length (bc_heap bc)}"
  using bc_inv_bound by auto

lemma length_link_block [simp]: "length (bc_heap (link_block bc b p)) = Suc (length (bc_heap bc))"
  by (simp add: link_block_def Let_def)

lemma link_block_simps [simp]:
  "bc_m (link_block bc b p) = AList.update (Hash b) (length (bc_heap bc)) (bc_m bc)"
  "bc_config (link_block bc b p) = bc_config bc"
  "bc_genesis (link_block bc b p) = bc_genesis bc"
  "bc_lastNode (link_block bc b p) = bc_lastNode bc"
  by (simp_all add: link_block_def Let_def)

lemma link_block_old:
  assumes "a < length (bc_heap bc)"
  shows "node_block (bc_heap (link_block bc b p) ! a) = node_block (bc_heap bc ! a)"
    and "node_parent (bc_heap (link_block bc b p) ! a) = node_parent (bc_heap bc ! a)"
    and "node_children (bc_heap (link_block bc b p) ! a) =
      node_children (bc_heap bc ! a) @ (if a = p then [length (bc_heap bc)] else [])"
  using assms by (cases "a = p"; simp add: link_block_def Let_def nth_append)+

lemma link_block_new:
  "bc_heap (link_block bc b p) ! length (bc_heap bc) = newNode b (Some p)"
  by (simp add: link_block_def Let_def nth_append)

lemma live_link_block:
  assumes "map_of (bc_m bc) (Hash b) = None"
  shows "live (link_block bc b p) = insert (length (bc_heap bc)) (live bc)"
proof -
  have "Hash b \<notin> fst ` set (bc_m bc)"
    using assms by (simp add: map_of_eq_None_iff)
  then show ?thesis by (simp add: live_def update_new)
qed

lemma chain_link_block:
  assumes "bc_inv bc" and "a \<in> live bc"
  shows "chain_blocks (bc_heap (link_block bc b p)) (Some a) = chain_blocks (bc_heap bc) (Some a)"
proof -
  let ?h = "bc_heap bc" and ?h' = "bc_heap (link_block bc b p)"
  obtain as where as: "chain ?h (Some a) as"
    "chain_blocks ?h (Some a) = Some (map (block_at ?h) as)"
    using bc_inv_chain [OF assms] .
  have old: "\<forall>c \<in> set as. c < length ?h"
    using chain_live [OF assms(1) as(1)] assms(2) bc_inv_bound [OF assms(1)] by blast
  then have "chain ?h' (Some a) as"
    using as(1) link_block_old(2) by (intro chain_cong [OF as(1)]) blast
  then have "chain_blocks ?h' (Some a) = Some (map (block_at ?h') as)"
    by (rule chain_blocks_chain)
  also have "map (block_at ?h') as = map (block_at ?h) as"
    using old link_block_old(1) by simp
  finally show ?thesis using as(2) by simp
qed

lemma chain_link_block_new:
  assumes "bc_inv bc" and "p \<in> live bc"
  shows "chain_blocks (bc_heap (link_block bc b p)) (Some (length (bc_heap bc))) =
    map_option (Cons b) (chain_blocks (bc_heap bc) (Some p))"
  using chain_link_block [OF assms]
  by (subst chain_blocks_step) (simp add: link_block_new newNode_def)

lemma link_map_inv:
  assumes "bc_inv bc" and "map_of (bc_m bc) (Hash b) = None"
  shows "map_inv (link_block bc b p)"
proof -
  have "Hash b \<notin> fst ` set (bc_m bc)"
    using assms(2) by (simp add: map_of_eq_None_iff)
  then show ?thesis
    using assms(1) bc_inv_bound [OF assms(1)] link_block_old(1) [of _ bc b p]
    by (fastforce simp: bc_inv_def map_inv_def update_new link_block_new newNode_def)
qed

lemma link_parent_inv:
  assumes inv: "bc_inv bc" and new: "map_of (bc_m bc) (Hash b) = None"
    and p: "map_of (bc_m bc) (PreviousHash b) = Some p"
  shows "parent_inv (link_block bc b p)"
proof -
  let ?n = "length (bc_heap bc)" and ?bc = "link_block bc b p"
  note old = link_block_old [OF bc_inv_bound [OF inv]]
  note lv = live_link_block [OF new]
  from inv have g: "bc_genesis bc \<in> live bc" "bc_lastNode bc \<in> live bc"
      "node_parent (bc_heap bc ! bc_genesis bc) = None"
    and par: "\<And>a. a \<in> live bc \<Longrightarrow> a \<noteq> bc_genesis bc \<Longrightarrow>
      \<exists>q. node_parent (bc_heap bc ! a) = Some q \<and>
          map_of (bc_m bc) (PreviousHash (block_at (bc_heap bc) a)) = Some q"
    and ch: "\<And>a. a \<in> live bc \<Longrightarrow> chain_blocks (bc_heap bc) (Some a) \<noteq> None"
    by (auto simp: bc_inv_def parent_inv_def)
  have "\<exists>q. node_parent (bc_heap ?bc ! a) = Some q \<and>
      map_of (bc_m ?bc) (PreviousHash (block_at (bc_heap ?bc) a)) = Some q"
    if "a \<in> live ?bc" "a \<noteq> bc_genesis bc" for a
  proof (cases "a = ?n")
    case True
    with new p show ?thesis by (auto simp: link_block_new newNode_def)
  next
    case False
    with that lv have "a \<in> live bc" by simp
    with par [OF this that(2)] new show ?thesis by (auto simp: old)
  qed
  moreover have "chain_blocks (bc_heap ?bc) (Some a) \<noteq> None" if "a \<in> live ?bc" for a
    using that ch ch [OF map_of_live [OF p]] chain_link_block [OF inv]
      chain_link_block_new [OF inv map_of_live [OF p]] unfolding lv by auto
  ultimately show ?thesis
    using g lv by (simp add: parent_inv_def old(2))
qed

lemma link_children_inv:
  assumes inv: "bc_inv bc" and new: "map_of (bc_m bc) (Hash b) = None"
    and p: "map_of (bc_m bc) (PreviousHash b) = Some p"
  shows "children_inv (link_block bc b p)"
  unfolding children_inv_def
proof
  let ?n = "length (bc_heap bc)" and ?bc = "link_block bc b p"
  note old = link_block_old [OF bc_inv_bound [OF inv]]
  note lv = live_link_block [OF new]
  have pl: "p \<in> live bc" using p by (rule map_of_live)
  have n: "?n \<notin> live bc" using bc_inv_bound [OF inv] by blast
  fix q assume q: "q \<in> live ?bc"
  have kids: "{a \<in> live ?bc. node_parent (bc_heap ?bc ! a) = Some q} =
      {a \<in> live bc. node_parent (bc_heap bc ! a) = Some q} \<union> (if q = p then {?n} else {})"
    using n unfolding lv by (auto simp: old link_block_new newNode_def)
  show "distinct (node_children (bc_heap ?bc ! q)) \<and>
      set (node_children (bc_heap ?bc ! q)) =
        {a \<in> live ?bc. node_parent (bc_heap ?bc ! a) = Some q}"
  proof (cases "q = ?n")
    case True
    have "q \<noteq> p" and "{a \<in> live bc. node_parent (bc_heap bc ! a) = Some q} = {}"
      using True n pl bc_inv_parent [OF inv] by auto
    then show ?thesis
      unfolding kids using True by (simp add: link_block_new newNode_def)
  next
    case False
    with q lv have ql: "q \<in> live bc" by simp
    then have "distinct (node_children (bc_heap bc ! q))"
      and "set (node_children (bc_heap bc ! q)) = {a \<in> live bc. node_parent (bc_heap bc ! a) = Some q}"
      using inv by (auto simp: bc_inv_def children_inv_def)
    then show ?thesis
      unfolding kids old(3) [OF ql] using n by auto
  qed
qed

lemma bc_inv_link_block:
  assumes "bc_inv bc" and "map_of (bc_m bc) (Hash b) = None"
    and "map_of (bc_m bc) (PreviousHash b) = Some p"
  shows "bc_inv (link_block bc b p)"
  using link_map_inv link_parent_inv link_children_inv assms by (simp add: bc_inv_def)

lemma bc_inv_New: "bc_inv (NewBlockchain now cfg)"
  by (auto simp: bc_inv_defs NewBlockchain_def live_def newNode_def chain_blocks_step)

section \<open>What AddBlock accepts\<close>

lemma validateBlock_cases:
  assumes "bc_inv bc" "is_iter it1" "is_iter it2"
  shows "validateBlock H it1 it2 bc b = Some
    (if \<not> Validate H (NewProofOfWork b (uint (block_difficulty (bc_config bc) b))) then Inl PowFailed
     else case map_of (bc_m bc) (PreviousHash b) of
       None \<Rightarrow> if Operations b = [] then Inr () else Inl OperationValidationFailed
     | Some p \<Rightarrow>
         if acceptable (bc_config bc) (Operations b) (the (chain_blocks (bc_heap bc) (Some p)))
         then Inr () else Inl OperationValidationFailed)"
proof (cases "map_of (bc_m bc) (PreviousHash b)")
  case None
  then show ?thesis
    by (simp add: validateBlock_def ValidateOperations_missing)
next
  case (Some p)
  obtain bs where bs: "chain_blocks (bc_heap bc) (Some p) = Some bs"
    using bc_inv_chain [OF assms(1) map_of_live [OF Some]] by blast
  obtain valid where "ValidateOperations it1 it2 bc (Operations b) (PreviousHash b) =
      Some (valid, acceptable (bc_config bc) (Operations b) bs)"
    using ValidateOperations_acceptable [OF assms(2,3) Some bs] by blast
  then show ?thesis
    using Some bs by (simp add: validateBlock_def)
qed

lemma AddBlock_eq:
  assumes "bc_inv bc" "is_iter it1" "is_iter it2"
  shows "AddBlock H it1 it2 bc b = Some
    (if HasBlock bc (Hash b) then Inl BlockExists
     else if \<not> Validate H (NewProofOfWork b (uint (block_difficulty (bc_config bc) b))) then Inl PowFailed
     else case map_of (bc_m bc) (PreviousHash b) of
       None \<Rightarrow> Inl (if Operations b = [] then MissingPreviousBlock else OperationValidationFailed)
     | Some p \<Rightarrow>
         if acceptable (bc_config bc) (Operations b) (the (chain_blocks (bc_heap bc) (Some p)))
         then Inr (link_block bc b p) else Inl OperationValidationFailed)"
  unfolding AddBlock_def HasBlock_def validateBlock_cases [OF assms]
  by (simp split: option.split)

lemma AddBlock_InrE:
  assumes "bc_inv bc" "is_iter it1" "is_iter it2" "AddBlock H it1 it2 bc b = Some (Inr bc')"
  obtains p bs where "map_of (bc_m bc) (Hash b) = None" "map_of (bc_m bc) (PreviousHash b) = Some p"
    "chain_blocks (bc_heap bc) (Some p) = Some bs" "acceptable (bc_config bc) (Operations b) bs"
    "Validate H (NewProofOfWork b (uint (block_difficulty (bc_config bc) b)))"
    "bc' = link_block bc b p"
proof -
  from assms(4) obtain p where "map_of (bc_m bc) (Hash b) = None"
      "map_of (bc_m bc) (PreviousHash b) = Some p"
      "acceptable (bc_config bc) (Operations b) (the (chain_blocks (bc_heap bc) (Some p)))"
      "Validate H (NewProofOfWork b (uint (block_difficulty (bc_config bc) b)))"
      "bc' = link_block bc b p"
    unfolding AddBlock_eq [OF assms(1-3)] HasBlock_def by (auto split: option.splits if_splits)
  moreover obtain bs where "chain_blocks (bc_heap bc) (Some p) = Some bs"
    using bc_inv_chain [OF assms(1) map_of_live] calculation(2) by blast
  ultimately show ?thesis using that by simp
qed

section \<open>Ledger invariants\<close>

text \<open>A property of every chain of the tree.\<close>

definition all_chains :: "(Block list \<Rightarrow> bool) \<Rightarrow> Blockchain \<Rightarrow> bool" where
  "all_chains P bc \<longleftrightarrow> (\<forall>a \<in> live bc. P (the (chain_blocks (bc_heap bc) (Some a))))"

definition solvent :: "Settings \<Rightarrow> Block list \<Rightarrow> bool" where
  "solvent cfg bs \<longleftrightarrow> (\<forall>mid. 0 \<le> balance cfg mid bs)"

definition unique_ops :: "Block list \<Rightarrow> bool" where
  "unique_ops bs \<longleftrightarrow> distinct (map OperationID (chain_ops bs))"

text \<open>Every block but the last (the genesis block) carries a proof of work and names its
  predecessor.\<close>

fun mined_chain :: "host \<Rightarrow> Settings \<Rightarrow> Block list \<Rightarrow> bool" where
  "mined_chain H cfg (b # c # bs) \<longleftrightarrow>
     Validate H (NewProofOfWork b (uint (block_difficulty cfg b))) \<and>
     PreviousHash b = Hash c \<and> mined_chain H cfg (c # bs)"
| "mined_chain H cfg [b] \<longleftrightarrow> True"
| "mined_chain H cfg [] \<longleftrightarrow> False"

lemma all_chains_link_block:
  assumes "bc_inv bc" "map_of (bc_m bc) (Hash b) = None" "map_of (bc_m bc) (PreviousHash b) = Some p"
    and "chain_blocks (bc_heap bc) (Some p) = Some bs" and "all_chains P bc" and "P (b # bs)"
  shows "all_chains P (link_block bc b p)"
  using assms chain_link_block [OF assms(1)] chain_link_block_new [OF assms(1) map_of_live [OF assms(3)]]
  by (simp add: all_chains_def live_link_block)

lemma all_chains_lastNode: "all_chains P (bc\<lparr>bc_lastNode := a\<rparr>) = all_chains P bc"
  by (simp add: all_chains_def)

lemma solvent_Cons:
  assumes "solvent cfg bs" and "acceptable cfg (Operations b) bs"
  shows "solvent cfg (b # bs)"
  unfolding solvent_def
proof
  fix mid
  show "0 \<le> balance cfg mid (b # bs)"
  proof (cases "mid \<in> MinerID ` set (Operations b)")
    case True
    with assms(2) have "op_costs cfg mid (Operations b) \<le> balance cfg mid bs"
      by (auto simp: acceptable_def)
    moreover have "0 \<le> (if BlockMinerID b = mid then block_reward cfg b else 0)" by simp
    ultimately show ?thesis unfolding balance_simps by linarith
  next
    case False
    then show ?thesis
      using assms(1) by (simp add: balance_simps op_costs_none solvent_def)
  qed
qed

lemma unique_ops_Cons: "unique_ops bs \<Longrightarrow> acceptable cfg (Operations b) bs \<Longrightarrow> unique_ops (b # bs)"
  by (auto simp: unique_ops_def acceptable_def)

text \<open>The trees a miner reaches: from a genesis block by adding blocks, in any iteration orders,
  with queries in between (a query only moves \<^verbatim>\<open>lastNode\<close>).\<close>

inductive built :: "host \<Rightarrow> Settings \<Rightarrow> Blockchain \<Rightarrow> bool" for H cfg where
  built_new: "built H cfg (NewBlockchain now cfg)"
| built_add: "built H cfg bc \<Longrightarrow> is_iter it1 \<Longrightarrow> is_iter it2 \<Longrightarrow>
     AddBlock H it1 it2 bc b = Some (Inr bc') \<Longrightarrow> built H cfg bc'"
| built_query: "built H cfg bc \<Longrightarrow> getLastNodes bc = Some (bc', ns) \<Longrightarrow> built H cfg bc'"

definition ledger_inv :: "host \<Rightarrow> Settings \<Rightarrow> Blockchain \<Rightarrow> bool" where
  "ledger_inv H cfg bc \<longleftrightarrow> bc_inv bc \<and> bc_config bc = cfg \<and>
     all_chains (solvent cfg) bc \<and> all_chains unique_ops bc \<and> all_chains (mined_chain H cfg) bc"

lemma ledger_inv_New: "ledger_inv H cfg (NewBlockchain now cfg)"
proof -
  have "live (NewBlockchain now cfg) = {0}"
    by (simp add: NewBlockchain_def live_def Let_def)
  moreover have "chain_blocks (bc_heap (NewBlockchain now cfg)) (Some 0) =
      Some [NewGenesisBlock now (GenesisBlockHash cfg)]"
    by (simp add: NewBlockchain_def newNode_def chain_blocks_step Let_def)
  ultimately show ?thesis
    by (simp add: ledger_inv_def bc_inv_New all_chains_def solvent_def unique_ops_def
        balance_simps NewGenesisBlock_def) (simp add: NewBlockchain_def Let_def)
qed

lemma ledger_inv_AddBlock:
  assumes inv: "ledger_inv H cfg bc" and it: "is_iter it1" "is_iter it2"
    and add: "AddBlock H it1 it2 bc b = Some (Inr bc')"
  shows "ledger_inv H cfg bc'"
proof -
  have bc: "bc_inv bc" "bc_config bc = cfg"
    using inv by (auto simp: ledger_inv_def)
  obtain p bs where p: "map_of (bc_m bc) (Hash b) = None" "map_of (bc_m bc) (PreviousHash b) = Some p"
    "chain_blocks (bc_heap bc) (Some p) = Some bs" and ok: "acceptable cfg (Operations b) bs"
    "Validate H (NewProofOfWork b (uint (block_difficulty cfg b)))" and bc': "bc' = link_block bc b p"
    using AddBlock_InrE [OF bc(1) it add] bc(2) by metis
  have pl: "p \<in> live bc" and ph: "Hash (block_at (bc_heap bc) p) = PreviousHash b"
    using p(2) bc_inv_map_of [OF bc(1)] by auto
  have chains: "P bs" if "all_chains P bc" for P
    using that pl p(3) by (auto simp: all_chains_def)
  obtain rest where "bs = block_at (bc_heap bc) p # rest"
    using p(3) by (subst (asm) chain_blocks_step) auto
  then have "mined_chain H cfg (b # bs)"
    using chains [of "mined_chain H cfg"] inv ok ph by (simp add: ledger_inv_def)
  moreover have "solvent cfg (b # bs)" "unique_ops (b # bs)"
    using solvent_Cons [OF chains [of "solvent cfg"] ok(1)]
      unique_ops_Cons [OF chains [of unique_ops] ok(1)] inv
    by (simp_all add: ledger_inv_def)
  ultimately show ?thesis
    using inv all_chains_link_block [OF bc(1) p] bc_inv_link_block [OF bc(1) p(1,2)] bc'
    by (simp add: ledger_inv_def)
qed

lemma ledger_inv_query:
  assumes "ledger_inv H cfg bc" and "getLastNodes bc = Some (bc', ns)"
  shows "ledger_inv H cfg bc'"
proof -
  have inv: "bc_inv bc" using assms(1) by (simp add: ledger_inv_def)
  obtain lns where "getLastNodes bc = Some (bc\<lparr>bc_lastNode := tip bc\<rparr>, lns)"
    using getLastNodes_tip [OF inv] by blast
  with assms(2) have "bc' = bc\<lparr>bc_lastNode := tip bc\<rparr>" by simp
  with assms(1) bc_inv_lastNode [OF inv tip_live [OF inv]] show ?thesis
    by (simp add: ledger_inv_def all_chains_lastNode)
qed

lemma built_inv: "built H cfg bc \<Longrightarrow> ledger_inv H cfg bc"
  by (induction rule: built.induct) (auto intro: ledger_inv_New ledger_inv_AddBlock ledger_inv_query)

end
