(* ===== verification/Bclib_Sample.thy ===== *)
theory Bclib_Sample
  imports Bclib_Blockchain
begin

text \<open>
  A small block tree built with \<^verbatim>\<open>AddBlock\<close>, used to show that the hypotheses of the
  theorems about trees can be met: miner A mines a no-op block, creates a file and appends a record
  to it; miner B mines a competing no-op block on A's first one.
\<close>

definition sample_cfg :: Settings where
  "sample_cfg = zero_Settings
     \<lparr>MinedCoinsPerOpBlock := 8, MinedCoinsPerNoOpBlock := 4, NumCoinsPerFileCreate := 4,
      GenesisBlockHash := ''g'', ConfirmsPerFileCreate := 1, ConfirmsPerFileAppend := 1\<rparr>"

definition sample_data :: bytes where
  "sample_data = replicate 512 (CHR ''x'')"

definition sample_op :: "OpType \<Rightarrow> string \<Rightarrow> string \<Rightarrow> string \<Rightarrow> Operation" where
  "sample_op t mid fname opid =
     \<lparr>Op = t, Data = sample_data, Filename = fname, MinerID = mid, OperationID = opid, Timestamp = 0\<rparr>"

definition sample_block :: "string \<Rightarrow> Operation list \<Rightarrow> string \<Rightarrow> string \<Rightarrow> Block" where
  "sample_block mid ops prev hash =
     \<lparr>HeaderTimestamp = 0, Operations = ops, PreviousHash = prev, BlockMinerID = mid, Hash = hash,
      Nonce = 0\<rparr>"

definition block1 :: Block where "block1 = sample_block ''A'' [] ''g'' ''1''"
definition block2 :: Block where
  "block2 = sample_block ''A'' [sample_op Create ''A'' ''f'' ''x''] ''1'' ''2''"
definition block3 :: Block where
  "block3 = sample_block ''A'' [sample_op Append ''A'' ''f'' ''y''] ''2'' ''3''"
definition block4 :: Block where "block4 = sample_block ''B'' [] ''1'' ''4''"

definition tree0 :: Blockchain where "tree0 = NewBlockchain 0 sample_cfg"
definition tree1 :: Blockchain where "tree1 = link_block tree0 block1 0"
definition tree2 :: Blockchain where "tree2 = link_block tree1 block2 1"
definition tree3 :: Blockchain where "tree3 = link_block tree2 block3 2"
definition tree4 :: Blockchain where "tree4 = link_block tree3 block4 1"

lemmas sample_defs = sample_cfg_def sample_op_def sample_block_def block1_def block2_def
  block3_def block4_def zero_Settings_def NewBlockchain_def NewGenesisBlock_def newNode_def

lemmas tree_defs = tree0_def tree1_def tree2_def tree3_def tree4_def link_block_def Let_def

lemma sample_chains:
  "chain_blocks (bc_heap tree0) (Some 0) = Some [NewGenesisBlock 0 ''g'']"
  "chain_blocks (bc_heap tree1) (Some 1) = Some [block1, NewGenesisBlock 0 ''g'']"
  "chain_blocks (bc_heap tree2) (Some 2) = Some [block2, block1, NewGenesisBlock 0 ''g'']"
  "chain_blocks (bc_heap tree3) (Some 1) = Some [block1, NewGenesisBlock 0 ''g'']"
  "chain_blocks (bc_heap tree4) (Some 3) = Some [block3, block2, block1, NewGenesisBlock 0 ''g'']"
  "chain_blocks (bc_heap tree4) (Some 0) = Some [NewGenesisBlock 0 ''g'']"
  "chain_blocks (bc_heap tree4) (Some 1) = Some [block1, NewGenesisBlock 0 ''g'']"
  "chain_blocks (bc_heap tree4) (Some 2) = Some [block2, block1, NewGenesisBlock 0 ''g'']"
  "chain_blocks (bc_heap tree4) (Some 4) = Some [block4, block1, NewGenesisBlock 0 ''g'']"
  by (simp_all add: chain_blocks_step tree_defs sample_defs)

lemma sample_cfg_of [simp]:
  "bc_config tree0 = sample_cfg" "bc_config tree1 = sample_cfg" "bc_config tree2 = sample_cfg"
  "bc_config tree3 = sample_cfg" "bc_config tree4 = sample_cfg"
  by (simp_all add: tree_defs NewBlockchain_def)

lemma sample_pow: "Validate H (NewProofOfWork b (uint (block_difficulty sample_cfg b)))"
  by (simp add: block_difficulty_def sample_cfg_def zero_Settings_def Validate_def hash_ok_def NewProofOfWork_def)

lemma sample_ok:
  "acceptable sample_cfg (Operations block1) [NewGenesisBlock 0 ''g'']"
  "acceptable sample_cfg (Operations block2) [block1, NewGenesisBlock 0 ''g'']"
  "acceptable sample_cfg (Operations block3) [block2, block1, NewGenesisBlock 0 ''g'']"
  "acceptable sample_cfg (Operations block4) [block1, NewGenesisBlock 0 ''g'']"
  by (simp_all add: acceptable_def balance_simps sample_defs repeats_creation_def op_cost_def block_reward_def)

lemma sample_map:
  "map_of (bc_m tree0) = [''g'' \<mapsto> 0]"
  "map_of (bc_m tree1) = [''g'' \<mapsto> 0, ''1'' \<mapsto> 1]"
  "map_of (bc_m tree2) = [''g'' \<mapsto> 0, ''1'' \<mapsto> 1, ''2'' \<mapsto> 2]"
  "map_of (bc_m tree3) = [''g'' \<mapsto> 0, ''1'' \<mapsto> 1, ''2'' \<mapsto> 2, ''3'' \<mapsto> 3]"
  "map_of (bc_m tree4) = [''g'' \<mapsto> 0, ''1'' \<mapsto> 1, ''2'' \<mapsto> 2, ''3'' \<mapsto> 3, ''4'' \<mapsto> 4]"
  by (auto simp: tree_defs sample_defs)

lemma sample_fields [simp]:
  "Hash block1 = ''1''" "Hash block2 = ''2''" "Hash block3 = ''3''" "Hash block4 = ''4''"
  "PreviousHash block1 = ''g''" "PreviousHash block2 = ''1''" "PreviousHash block3 = ''2''"
  "PreviousHash block4 = ''1''"
  by (simp_all add: sample_defs)

lemma sample_adds:
  assumes "is_iter it1" "is_iter it2"
  shows "bc_inv tree0 \<Longrightarrow> AddBlock H it1 it2 tree0 block1 = Some (Inr tree1)"
    and "bc_inv tree1 \<Longrightarrow> AddBlock H it1 it2 tree1 block2 = Some (Inr tree2)"
    and "bc_inv tree2 \<Longrightarrow> AddBlock H it1 it2 tree2 block3 = Some (Inr tree3)"
    and "bc_inv tree3 \<Longrightarrow> AddBlock H it1 it2 tree3 block4 = Some (Inr tree4)"
  using assms
  by (simp_all add: AddBlock_eq HasBlock_def sample_map sample_pow sample_chains sample_ok
      tree1_def [symmetric] tree2_def [symmetric] tree3_def [symmetric] tree4_def [symmetric]
      del: One_nat_def)

lemma sample_built:
  "built H sample_cfg tree0" "built H sample_cfg tree1" "built H sample_cfg tree2"
  "built H sample_cfg tree3" "built H sample_cfg tree4"
proof -
  have inv: "built H sample_cfg bc \<Longrightarrow> bc_inv bc" for bc
    using built_inv ledger_inv_def by blast
  show 0: "built H sample_cfg tree0"
    unfolding tree0_def by (rule built_new)
  show 1: "built H sample_cfg tree1"
    by (rule built_add [OF 0 is_iter_id is_iter_id sample_adds(1) [OF is_iter_id is_iter_id inv [OF 0]]])
  show 2: "built H sample_cfg tree2"
    by (rule built_add [OF 1 is_iter_id is_iter_id sample_adds(2) [OF is_iter_id is_iter_id inv [OF 1]]])
  show 3: "built H sample_cfg tree3"
    by (rule built_add [OF 2 is_iter_id is_iter_id sample_adds(3) [OF is_iter_id is_iter_id inv [OF 2]]])
  show 4: "built H sample_cfg tree4"
    by (rule built_add [OF 3 is_iter_id is_iter_id sample_adds(4) [OF is_iter_id is_iter_id inv [OF 3]]])
qed

lemmas sample_inv = sample_built [THEN built_inv, unfolded ledger_inv_def, THEN conjunct1]

end
