(* ===== verification/Bclib_Ledger.thy ===== *)
theory Bclib_Ledger
  imports Bclib_Sample
begin

text \<open>
  The main properties of the block tree: the longest chain, the exact conditions of
  \<^verbatim>\<open>ValidateOperations\<close> and \<^verbatim>\<open>AddBlock\<close>, and the ledger invariants of
  every tree that is built with \<^verbatim>\<open>AddBlock\<close>.
\<close>

section \<open>The longest chain\<close>

text \<open>C8: On a well-formed tree the depth-first search of \<^verbatim>\<open>getLastNodes\<close> ends, and
  returns exactly the deepest nodes, each once (the genesis node twice when it is the only node);
  it changes nothing but \<^verbatim>\<open>lastNode\<close>, which becomes the first of them.\<close>

theorem getLastNodes_longest:
  assumes "bc_inv bc"
  shows "\<exists>lns. getLastNodes bc = Some (bc\<lparr>bc_lastNode := lns ! 0\<rparr>, lns) \<and> lns \<noteq> [] \<and>
    set lns = deepest bc \<and>
    (if live bc = {bc_genesis bc} then lns = [bc_genesis bc, bc_genesis bc] else distinct lns)"
  using assms by (rule getLastNodes_deepest)

lemma sample_deepest: "deepest tree4 = {3}"
proof -
  have live: "live tree4 = {0, 1, 2, 3, 4}"
    by (auto simp: live_def tree_defs sample_defs)
  have depth: "depth tree4 0 = 0" "depth tree4 1 = 1" "depth tree4 2 = 2" "depth tree4 3 = 3"
    "depth tree4 4 = 2"
    by (simp_all add: depth_def sample_chains del: One_nat_def)
  have "a = 3" if "a \<in> live tree4" "depth tree4 3 \<le> depth tree4 a" for a
    using that unfolding live by (auto simp: depth simp del: One_nat_def)
  moreover have "depth tree4 a \<le> depth tree4 3" if "a \<in> live tree4" for a
    using that unfolding live by (auto simp: depth simp del: One_nat_def)
  moreover have "3 \<in> live tree4" unfolding live by simp
  ultimately have "a \<in> deepest tree4 \<longleftrightarrow> a = 3" for a
    unfolding deepest_def mem_Collect_eq by metis
  then show ?thesis by blast
qed

theorem getLastNodes_longest_witness:
  "\<exists>lns. getLastNodes tree4 = Some (tree4\<lparr>bc_lastNode := lns ! 0\<rparr>, lns) \<and> set lns = {3}"
  using getLastNodes_longest [OF sample_inv(5)] sample_deepest by metis

lemma tip_sample: "tip tree4 = 3"
  using getLastNodes_tip [OF sample_inv(5)] sample_deepest by (metis singletonD)

text \<open>\<^verbatim>\<open>GetLastHash\<close> and \<^verbatim>\<open>GetLastBlocks\<close> always return: the hash is that of
  the first of the returned blocks, and it names a block in the tree from which no chain back to
  the genesis block is longer.\<close>

theorem GetLastHash_longest:
  assumes "bc_inv bc"
  shows "\<exists>bc' bs. GetLastBlocks bc = Some (bc', bs) \<and> bs \<noteq> [] \<and>
    GetLastHash bc = Some (bc', Hash (hd bs)) \<and>
    (\<forall>b \<in> set bs. GetBlock bc (Hash b) = Some b) \<and>
    (\<exists>a. map_of (bc_m bc) (Hash (hd bs)) = Some a \<and> (\<forall>c \<in> live bc. depth bc c \<le> depth bc a))"
proof -
  obtain lns where run: "getLastNodes bc = Some (bc\<lparr>bc_lastNode := lns ! 0\<rparr>, lns)"
      and lns: "lns \<noteq> []" "set lns = deepest bc"
    using getLastNodes_deepest [OF assms] by blast
  have look: "map_of (bc_m bc) (Hash (block_at (bc_heap bc) a)) = Some a" if "a \<in> set lns" for a
    using that lns(2) bc_inv_map_of [OF assms] by (simp add: deepest_def)
  let ?bs = "map (block_at (bc_heap bc)) lns"
  have hd: "hd lns \<in> set lns" "hd lns = lns ! 0"
    using lns(1) by (simp_all add: hd_conv_nth)
  have "GetLastBlocks bc = Some (bc\<lparr>bc_lastNode := lns ! 0\<rparr>, ?bs)"
    and "GetLastHash bc = Some (bc\<lparr>bc_lastNode := lns ! 0\<rparr>, Hash (hd ?bs))"
    using run lns hd by (simp_all add: GetLastBlocks_def GetLastHash_def hd_map)
  moreover have "\<forall>b \<in> set ?bs. GetBlock bc (Hash b) = Some b"
    by (simp add: GetBlock_def look)
  moreover have "map_of (bc_m bc) (Hash (hd ?bs)) = Some (hd lns)"
    using look [OF hd(1)] lns(1) by (simp add: hd_map)
  moreover have "\<forall>c \<in> live bc. depth bc c \<le> depth bc (hd lns)"
    using hd(1) lns(2) by (simp add: deepest_def)
  ultimately show ?thesis
    using lns(1) by (intro exI [of _ "bc\<lparr>bc_lastNode := lns ! 0\<rparr>"] exI [of _ ?bs]) blast
qed

theorem GetLastHash_longest_witness:
  "GetLastHash tree4 = Some (tree4\<lparr>bc_lastNode := 3\<rparr>, ''3'') \<and>
   (\<exists>bc' bs. GetLastBlocks tree4 = Some (bc', bs) \<and> GetLastHash tree4 = Some (bc', Hash (hd bs)))"
proof -
  obtain lns where "getLastNodes tree4 = Some (tree4\<lparr>bc_lastNode := tip tree4\<rparr>, lns)" "lns ! 0 = tip tree4"
    using getLastNodes_tip [OF sample_inv(5)] by metis
  then have "GetLastHash tree4 = Some (tree4\<lparr>bc_lastNode := 3\<rparr>, ''3'')"
    by (simp add: GetLastHash_def tip_sample) (simp add: tree_defs sample_defs)
  then show ?thesis
    using GetLastHash_longest [OF sample_inv(5)] by blast
qed

section \<open>Earlier blocks\<close>

text \<open>\<^verbatim>\<open>GetPreviousBlocks\<close> returns nothing for an unknown hash; for a known one it
  returns the block, and after it up to \<^verbatim>\<open>numBlocks\<close> blocks of the chain back to the
  genesis block, where the chain starts with the block itself again.\<close>

theorem GetPreviousBlocks_chain:
  assumes "bc_inv bc"
  shows "GetPreviousBlocks bc hash n =
    (case map_of (bc_m bc) hash of
       None \<Rightarrow> []
     | Some a \<Rightarrow>
         (let bs = the (chain_blocks (bc_heap bc) (Some a)) in hd bs # take n bs))"
proof (cases "map_of (bc_m bc) hash")
  case (Some a)
  obtain as where as: "chain (bc_heap bc) (Some a) as"
      "chain_blocks (bc_heap bc) (Some a) = Some (map (block_at (bc_heap bc)) as)"
    using bc_inv_chain [OF assms map_of_live [OF Some]] by blast
  have "hd as = a" "as \<noteq> []" using as(1) by (auto simp: chain_Some)
  with as(2) Some show ?thesis
    by (simp add: GetPreviousBlocks_def previous_loop_chain [OF as(1)] take_map hd_map Let_def)
qed (simp add: GetPreviousBlocks_def)

theorem GetPreviousBlocks_chain_witness:
  "GetPreviousBlocks tree4 ''3'' 2 = [block3, block3, block2] \<and> GetPreviousBlocks tree4 ''9'' 2 = []"
  using GetPreviousBlocks_chain [OF sample_inv(5), of "''3''" 2]
    GetPreviousBlocks_chain [OF sample_inv(5), of "''9''" 2]
  by (simp add: sample_map sample_chains)

section \<open>Validation of operations\<close>

text \<open>C7: \<^verbatim>\<open>ValidateOperations\<close> always returns, and accepts a batch if and only if it is
  empty, or the previous block is known and on its chain: the identifiers are distinct and new, no
  creation repeats a creation by a miner of the batch, and each miner can pay all its operations.
  The order in which Go iterates over its maps has no influence on the verdict.\<close>

theorem ValidateOperations_verdict:
  assumes "bc_inv bc" "is_iter it1" "is_iter it2"
  shows "\<exists>valid. ValidateOperations it1 it2 bc ops prev = Some (valid,
    ops = [] \<or>
    (\<exists>p bs. map_of (bc_m bc) prev = Some p \<and> chain_blocks (bc_heap bc) (Some p) = Some bs \<and>
       acceptable (bc_config bc) ops bs))"
proof (cases "ops = [] \<or> map_of (bc_m bc) prev = None")
  case True
  then show ?thesis by (auto simp: ValidateOperations_missing)
next
  case False
  then obtain p where p: "map_of (bc_m bc) prev = Some p" by blast
  obtain bs where bs: "chain_blocks (bc_heap bc) (Some p) = Some bs"
    using bc_inv_chain [OF assms(1) map_of_live [OF p]] by blast
  show ?thesis
    using ValidateOperations_acceptable [OF assms(2,3) p bs, of ops] False p bs by auto
qed

theorem ValidateOperations_verdict_witness:
  "(\<exists>valid. ValidateOperations (\<lambda>m. m) rev tree1 [sample_op Create ''A'' ''f'' ''x''] ''1'' = Some (valid, True)) \<and>
   (\<exists>valid. ValidateOperations (\<lambda>m. m) rev tree1 [sample_op Create ''B'' ''f'' ''x''] ''1'' = Some (valid, False))"
proof -
  have "acceptable sample_cfg [sample_op Create ''A'' ''f'' ''x''] [block1, NewGenesisBlock 0 ''g'']"
    "\<not> acceptable sample_cfg [sample_op Create ''B'' ''f'' ''x''] [block1, NewGenesisBlock 0 ''g'']"
    by (simp_all add: acceptable_def balance_simps sample_defs repeats_creation_def op_cost_def block_reward_def)
  then show ?thesis
    using ValidateOperations_verdict [OF sample_inv(2) is_iter_id is_iter_rev,
        of "[sample_op Create ''A'' ''f'' ''x'']" "''1''"]
      ValidateOperations_verdict [OF sample_inv(2) is_iter_id is_iter_rev,
        of "[sample_op Create ''B'' ''f'' ''x'']" "''1''"]
    by (simp add: sample_map sample_chains(2) del: One_nat_def)
qed

text \<open>Whatever the verdict, the operations that \<^verbatim>\<open>ValidateOperations\<close> returns are
  operations of the batch, and when the batch has at most one creation per file name and one
  other operation per identifier (as \<^verbatim>\<open>FilterInvalidOperations\<close> leaves it) they are
  themselves accepted on the same block, in every iteration order.\<close>

theorem ValidateOperations_revalidates:
  assumes "bc_inv bc" "is_iter it1" "is_iter it2" "is_iter it3" "is_iter it4"
    and "distinct (map filter_key ops)"
    and run: "ValidateOperations it1 it2 bc ops prev = Some (valid, ok)"
  shows "set valid \<subseteq> set ops \<and> (\<exists>again. ValidateOperations it3 it4 bc valid prev = Some (again, True))"
proof (cases "map_of (bc_m bc) prev")
  case None
  with run have "valid = []" by (simp add: ValidateOperations_missing)
  then show ?thesis by simp
next
  case (Some p)
  obtain bs where bs: "chain_blocks (bc_heap bc) (Some p) = Some bs"
    using bc_inv_chain [OF assms(1) map_of_live [OF Some]] by blast
  note part = ValidateOperations_part [OF assms(2,3) Some bs run]
  have "acceptable (bc_config bc) valid bs"
    using part assms(6) by (rule valid_part_acceptable)
  then show ?thesis
    using ValidateOperations_acceptable [OF assms(4,5) Some bs, of valid] part(1) by auto
qed

theorem ValidateOperations_revalidates_witness:
  "\<exists>valid ok again. ValidateOperations (\<lambda>m. m) (\<lambda>m. m) tree1
      [sample_op Create ''A'' ''f'' ''x'', sample_op Append ''A'' ''f'' ''y''] ''1'' = Some (valid, ok) \<and>
    set valid \<subseteq> {sample_op Create ''A'' ''f'' ''x'', sample_op Append ''A'' ''f'' ''y''} \<and>
    ValidateOperations rev rev tree1 valid ''1'' = Some (again, True)"
proof -
  let ?ops = "[sample_op Create ''A'' ''f'' ''x'', sample_op Append ''A'' ''f'' ''y'']"
  have d: "distinct (map filter_key ?ops)"
    by (simp add: filter_key_def sample_op_def)
  obtain valid where v: "ValidateOperations (\<lambda>m. m) (\<lambda>m. m) tree1 ?ops ''1'' =
      Some (valid, acceptable (bc_config tree1) ?ops [block1, NewGenesisBlock 0 ''g''])"
    using ValidateOperations_acceptable [OF is_iter_id is_iter_id, of tree1 "''1''" 1] sample_map(2)
      sample_chains(2) by fastforce
  show ?thesis
    using ValidateOperations_revalidates [OF sample_inv(2) is_iter_id is_iter_id is_iter_rev is_iter_rev d v] v
    by auto
qed

section \<open>Adding blocks\<close>

text \<open>\<^verbatim>\<open>AddBlock\<close> always returns, with the same result in every iteration order: an
  error for a known hash, for a missing proof of work, for operations that are not acceptable on
  the chain of the previous block and for an unknown previous block (in this order), and otherwise
  the tree with the block linked below its predecessor.\<close>

theorem AddBlock_result:
  assumes "bc_inv bc" "is_iter it1" "is_iter it2"
  shows "AddBlock H it1 it2 bc b = Some
    (if HasBlock bc (Hash b) then Inl BlockExists
     else if \<not> Validate H (NewProofOfWork b (uint (block_difficulty (bc_config bc) b))) then Inl PowFailed
     else case map_of (bc_m bc) (PreviousHash b) of
       None \<Rightarrow> Inl (if Operations b = [] then MissingPreviousBlock else OperationValidationFailed)
     | Some p \<Rightarrow>
         if acceptable (bc_config bc) (Operations b) (the (chain_blocks (bc_heap bc) (Some p)))
         then Inr (link_block bc b p) else Inl OperationValidationFailed)"
  using assms by (rule AddBlock_eq)

theorem AddBlock_result_witness:
  "AddBlock sample_host rev (\<lambda>m. m) tree1 block2 = Some (Inr tree2) \<and>
   AddBlock sample_host rev (\<lambda>m. m) tree1 block1 = Some (Inl BlockExists) \<and>
   AddBlock sample_host rev (\<lambda>m. m) tree1 block3 = Some (Inl OperationValidationFailed)"
  using AddBlock_result [OF sample_inv(2) is_iter_rev is_iter_id, of sample_host block2]
    AddBlock_result [OF sample_inv(2) is_iter_rev is_iter_id, of sample_host block1]
    AddBlock_result [OF sample_inv(2) is_iter_rev is_iter_id, of sample_host block3]
  by (simp add: HasBlock_def sample_map sample_pow sample_chains sample_ok tree2_def [symmetric]
      del: One_nat_def) (simp add: block3_def sample_block_def)

text \<open>When \<^verbatim>\<open>AddBlock\<close> succeeds it keeps the tree well-formed, the new block can be
  found by its hash and every other lookup answers as before, the new node's chain is the block on
  top of its predecessor's chain, and no other chain changes.\<close>

theorem AddBlock_extends:
  assumes "bc_inv bc" "is_iter it1" "is_iter it2" and add: "AddBlock H it1 it2 bc b = Some (Inr bc')"
  shows "bc_inv bc' \<and> GetSize bc' = GetSize bc + 1 \<and>
    (\<forall>h. GetBlock bc' h = (if h = Hash b then Some b else GetBlock bc h)) \<and>
    (\<forall>a \<in> live bc. chain_blocks (bc_heap bc') (Some a) = chain_blocks (bc_heap bc) (Some a)) \<and>
    (\<exists>a p bs. map_of (bc_m bc') (Hash b) = Some a \<and> map_of (bc_m bc) (PreviousHash b) = Some p \<and>
       chain_blocks (bc_heap bc) (Some p) = Some bs \<and> chain_blocks (bc_heap bc') (Some a) = Some (b # bs))"
proof -
  obtain p bs where p: "map_of (bc_m bc) (Hash b) = None" "map_of (bc_m bc) (PreviousHash b) = Some p"
    "chain_blocks (bc_heap bc) (Some p) = Some bs" and bc': "bc' = link_block bc b p"
    using AddBlock_InrE [OF assms] by metis
  have "GetBlock bc' h = (if h = Hash b then Some b else GetBlock bc h)" for h
  proof (cases "map_of (bc_m bc) h")
    case (Some a)
    then have "a < length (bc_heap bc)"
      using bc_inv_bound [OF assms(1) map_of_live] by blast
    with Some p(1) show ?thesis
      by (auto simp: bc' GetBlock_def link_block_old(1))
  qed (auto simp: bc' GetBlock_def link_block_new newNode_def)
  moreover have "GetSize bc' = GetSize bc + 1"
    using p(1) by (simp add: GetSize_def bc' update_new map_of_eq_None_iff)
  moreover have "map_of (bc_m bc') (Hash b) = Some (length (bc_heap bc))"
    by (simp add: bc')
  moreover have "chain_blocks (bc_heap bc') (Some (length (bc_heap bc))) = Some (b # bs)"
    using chain_link_block_new [OF assms(1) map_of_live [OF p(2)]] p(3) bc' by simp
  ultimately show ?thesis
    using bc_inv_link_block [OF assms(1) p(1,2)] chain_link_block [OF assms(1)] p bc' by blast
qed

theorem AddBlock_extends_witness:
  "GetSize tree3 = GetSize tree2 + 1 \<and> GetBlock tree3 ''3'' = Some block3 \<and> bc_inv tree3"
  using AddBlock_extends [OF sample_inv(3) is_iter_id is_iter_id
      sample_adds(3) [OF is_iter_id is_iter_id sample_inv(3), of sample_host]]
  by simp

section \<open>Refinement\<close>

text \<open>The abstract ledger: every known hash has a chain of blocks, newest first. The tree of nodes with
  parents and children implements it; adding a block is one map update.\<close>

definition chain_view :: "Blockchain \<Rightarrow> string \<Rightarrow> Block list option" where
  "chain_view bc h = (case map_of (bc_m bc) h of None \<Rightarrow> None | Some a \<Rightarrow> chain_blocks (bc_heap bc) (Some a))"

definition add_spec ::
  "host \<Rightarrow> Settings \<Rightarrow> (string \<Rightarrow> Block list option) \<Rightarrow> Block \<Rightarrow> bc_error + (string \<Rightarrow> Block list option)" where
  "add_spec H cfg C b =
     (if C (Hash b) \<noteq> None then Inl BlockExists
      else if \<not> Validate H (NewProofOfWork b (uint (block_difficulty cfg b))) then Inl PowFailed
      else case C (PreviousHash b) of
        None \<Rightarrow> Inl (if Operations b = [] then MissingPreviousBlock else OperationValidationFailed)
      | Some bs \<Rightarrow> if acceptable cfg (Operations b) bs then Inr (C(Hash b \<mapsto> b # bs)) else Inl OperationValidationFailed)"

lemma chain_view_Some:
  assumes "bc_inv bc" "map_of (bc_m bc) h = Some a"
  obtains bs where "chain_view bc h = Some (block_at (bc_heap bc) a # bs)" "chain_blocks (bc_heap bc) (Some a) = Some (block_at (bc_heap bc) a # bs)"
  using bc_inv_chain_Cons [OF assms(1) map_of_live [OF assms(2)]] assms(2) by (auto simp: chain_view_def)

lemma chain_view_None: "bc_inv bc \<Longrightarrow> chain_view bc h = None \<longleftrightarrow> map_of (bc_m bc) h = None"
  by (cases "map_of (bc_m bc) h") (auto elim!: chain_view_Some simp: chain_view_def)

lemma chain_view_link_block:
  assumes inv: "bc_inv bc" and p: "map_of (bc_m bc) (PreviousHash b) = Some p" "chain_blocks (bc_heap bc) (Some p) = Some bs"
  shows "chain_view (link_block bc b p) = (chain_view bc)(Hash b \<mapsto> b # bs)"
proof
  fix h
  show "chain_view (link_block bc b p) h = ((chain_view bc)(Hash b \<mapsto> b # bs)) h"
  proof (cases "h = Hash b")
    case True
    then show ?thesis
      using chain_link_block_new [OF inv map_of_live [OF p(1)]] p(2) by (simp add: chain_view_def)
  next
    case False
    then show ?thesis
      using chain_link_block [OF inv, of _ b p] map_of_live by (auto simp: chain_view_def split: option.split)
  qed
qed

lemma GetBlock_view: "bc_inv bc \<Longrightarrow> GetBlock bc h = map_option hd (chain_view bc h)"
  by (cases "map_of (bc_m bc) h") (auto simp: GetBlock_def chain_view_def elim!: chain_view_Some)

lemma HasBlock_view: "bc_inv bc \<Longrightarrow> HasBlock bc h \<longleftrightarrow> chain_view bc h \<noteq> None"
  using chain_view_None by (simp add: HasBlock_def)

lemma AddBlock_chain_view:
  assumes "bc_inv bc" "is_iter it1" "is_iter it2"
  shows "map_option (map_sum (\<lambda>e. e) chain_view) (AddBlock H it1 it2 bc b) = Some (add_spec H (bc_config bc) (chain_view bc) b)"
proof (cases "map_of (bc_m bc) (PreviousHash b)")
  case None
  then have "chain_view bc (PreviousHash b) = None" using chain_view_None [OF assms(1)] by simp
  with None show ?thesis
    using chain_view_None [OF assms(1), of "Hash b"] by (simp add: AddBlock_eq [OF assms] add_spec_def HasBlock_def)
next
  case (Some p)
  from chain_view_Some [OF assms(1) this] obtain bs where
    "chain_view bc (PreviousHash b) = Some bs" "chain_blocks (bc_heap bc) (Some p) = Some bs" by metis
  with Some chain_view_link_block [OF assms(1) Some] chain_view_None [OF assms(1)] show ?thesis
    by (simp add: AddBlock_eq [OF assms] add_spec_def HasBlock_def)
qed

lemma AddBlock_keeps:
  assumes "bc_inv bc" "is_iter it1" "is_iter it2" "AddBlock H it1 it2 bc b = Some (Inr bc')"
  shows "bc_inv bc'" "bc_config bc' = bc_config bc"
proof -
  from AddBlock_InrE [OF assms] obtain p where "map_of (bc_m bc) (Hash b) = None"
      "map_of (bc_m bc) (PreviousHash b) = Some p" "bc' = link_block bc b p" by metis
  then show "bc_inv bc'" "bc_config bc' = bc_config bc"
    using bc_inv_link_block [OF assms(1)] by simp_all
qed

text \<open>C2: The block tree implements the abstract ledger that maps a hash to its chain:
  \<^verbatim>\<open>AddBlock\<close>, with every iteration order, returns exactly the errors of the specification and
  otherwise a well-formed tree with one more chain; \<^verbatim>\<open>GetBlock\<close> and
  \<^verbatim>\<open>HasBlock\<close> read the head of a chain.\<close>

theorem AddBlock_refines:
  assumes "bc_inv bc" "is_iter it1" "is_iter it2"
  shows "map_option (map_sum (\<lambda>e. e) chain_view) (AddBlock H it1 it2 bc b) = Some (add_spec H (bc_config bc) (chain_view bc) b) \<and>
    (\<forall>bc'. AddBlock H it1 it2 bc b = Some (Inr bc') \<longrightarrow> bc_inv bc' \<and> bc_config bc' = bc_config bc) \<and>
    GetBlock bc h = map_option hd (chain_view bc h) \<and> (HasBlock bc h \<longleftrightarrow> chain_view bc h \<noteq> None)"
  using AddBlock_chain_view [OF assms] AddBlock_keeps [OF assms] GetBlock_view [OF assms(1)] HasBlock_view [OF assms(1)]
  by blast

theorem AddBlock_refines_witness:
  "map_option (map_sum (\<lambda>e. e) chain_view) (AddBlock sample_host rev rev tree1 block2) =
     Some (add_spec sample_host sample_cfg (chain_view tree1) block2) \<and> GetBlock tree1 ''1'' = map_option hd (chain_view tree1 ''1'')"
proof -
  have "bc_config tree1 = sample_cfg" by (simp add: tree_defs NewBlockchain_def)
  then show ?thesis
    using AddBlock_refines [OF sample_inv(2) is_iter_rev is_iter_rev, of sample_host block2 "''1''"] by simp
qed

text \<open>C1: In every tree a miner builds from its genesis block with \<^verbatim>\<open>AddBlock\<close>, on the
  chain of every block: no miner has spent more coins than it mined, no operation identifier occurs
  twice, and every block but the genesis block carries its proof of work and names the block before
  it.\<close>

theorem built_ledger_safe:
  assumes "built H cfg bc" and "GetBlock bc h = Some b"
  shows "\<exists>a bs. map_of (bc_m bc) h = Some a \<and> chain_blocks (bc_heap bc) (Some a) = Some (b # bs) \<and>
    (\<forall>mid. op_costs cfg mid (chain_ops (b # bs)) \<le> rewards cfg mid (b # bs)) \<and>
    distinct (map OperationID (chain_ops (b # bs))) \<and> mined_chain H cfg (b # bs)"
proof -
  have inv: "ledger_inv H cfg bc" using assms(1) by (rule built_inv)
  obtain a where a: "map_of (bc_m bc) h = Some a" and b: "block_at (bc_heap bc) a = b"
    using assms(2) by (auto simp: GetBlock_def)
  have live: "a \<in> live bc" using a by (rule map_of_live)
  obtain bs where bs: "chain_blocks (bc_heap bc) (Some a) = Some (b # bs)"
    using bc_inv_chain_Cons [OF _ live] inv b unfolding ledger_inv_def by blast
  then have P: "P (b # bs)" if "all_chains P bc" for P
    using that live by (auto simp: all_chains_def)
  have "solvent cfg (b # bs)" "unique_ops (b # bs)" "mined_chain H cfg (b # bs)"
    using inv by (auto simp: ledger_inv_def intro: P)
  with a bs show ?thesis
    unfolding solvent_def unique_ops_def balance_def by fastforce
qed

theorem built_ledger_safe_witness:
  "\<exists>a bs. map_of (bc_m tree4) ''3'' = Some a \<and> chain_blocks (bc_heap tree4) (Some a) = Some (block3 # bs) \<and>
    op_costs sample_cfg ''A'' (chain_ops (block3 # bs)) \<le> rewards sample_cfg ''A'' (block3 # bs) \<and>
    distinct (map OperationID (chain_ops (block3 # bs)))"
proof -
  have "GetBlock tree4 ''3'' = Some block3"
    by (simp add: GetBlock_def sample_map) (simp add: tree_defs sample_defs)
  from built_ledger_safe [OF sample_built(5) this] show ?thesis by blast
qed

section \<open>What AddBlock does not check\<close>

text \<open>\<^verbatim>\<open>AddBlock\<close> does not relate the field \<^verbatim>\<open>Hash\<close> to the content of
  the block: a block that is accepted is also accepted under any other unused hash.\<close>

theorem AddBlock_ignores_Hash:
  assumes "bc_inv bc" "is_iter it1" "is_iter it2" and add: "AddBlock H it1 it2 bc b = Some (Inr bc')"
    and fresh: "\<not> HasBlock bc h"
  shows "\<exists>bc''. AddBlock H it1 it2 bc (b\<lparr>Hash := h\<rparr>) = Some (Inr bc'') \<and>
    GetBlock bc'' h = Some (b\<lparr>Hash := h\<rparr>)"
proof -
  obtain p bs where p: "map_of (bc_m bc) (PreviousHash b) = Some p"
    "chain_blocks (bc_heap bc) (Some p) = Some bs" "acceptable (bc_config bc) (Operations b) bs"
    "Validate H (NewProofOfWork b (uint (block_difficulty (bc_config bc) b)))"
    using AddBlock_InrE [OF assms(1-4)] by metis
  have "Validate H (NewProofOfWork (b\<lparr>Hash := h\<rparr>) d) = Validate H (NewProofOfWork b d)" for d
    by (simp add: Validate_def NewProofOfWork_def prepareData_def Let_def)
  then have "AddBlock H it1 it2 bc (b\<lparr>Hash := h\<rparr>) = Some (Inr (link_block bc (b\<lparr>Hash := h\<rparr>) p))"
    using p fresh by (simp add: AddBlock_eq [OF assms(1-3)] block_difficulty_def)
  then show ?thesis
    by (simp add: GetBlock_def link_block_new newNode_def)
qed

theorem AddBlock_ignores_Hash_witness:
  "\<exists>bc''. AddBlock sample_host (\<lambda>m. m) (\<lambda>m. m) tree1 (block2\<lparr>Hash := ''forged''\<rparr>) = Some (Inr bc'') \<and>
    GetBlock bc'' ''forged'' = Some (block2\<lparr>Hash := ''forged''\<rparr>)"
  by (rule AddBlock_ignores_Hash [OF sample_inv(2) is_iter_id is_iter_id
        sample_adds(2) [OF is_iter_id is_iter_id sample_inv(2)]])
    (simp add: HasBlock_def sample_map)

text \<open>A block by B that creates the file A created two blocks before.\<close>

definition block5 :: Block where
  "block5 = sample_block ''B'' [sample_op Create ''B'' ''f'' ''z''] ''5'' ''6''"

definition block_b :: Block where "block_b = sample_block ''B'' [] ''2'' ''5''"
definition tree_b :: Blockchain where "tree_b = link_block tree2 block_b 2"

lemma tree_b_add:
  assumes "is_iter it1" "is_iter it2"
  shows "AddBlock H it1 it2 tree2 block_b = Some (Inr tree_b)"
  using assms by (simp add: AddBlock_eq [OF sample_inv(3)] HasBlock_def sample_map sample_pow
      sample_chains block_b_def sample_block_def tree_b_def)

lemma tree_b_facts:
  "map_of (bc_m tree_b) ''5'' = Some 3" "map_of (bc_m tree_b) ''6'' = None"
  "chain_blocks (bc_heap tree_b) (Some 3) = Some [block_b, block2, block1, NewGenesisBlock 0 ''g'']"
  by (simp_all add: tree_b_def link_block_def Let_def block_b_def sample_block_def sample_map
      chain_blocks_step tree_defs sample_defs)

text \<open>C38: The search for earlier creations only looks at operations of miners that take part in the
  batch. So a second creation of an existing file is accepted when another miner issues it: a tree
  built with \<^verbatim>\<open>AddBlock\<close> can hold two creations of one file on one chain.\<close>

theorem duplicate_create_accepted:
  "\<exists>bc. built H sample_cfg bc \<and> bc_config bc = sample_cfg \<and>
    (\<exists>bs. chain_blocks (bc_heap bc) (map_of (bc_m bc) ''6'') = Some bs \<and>
      filter (\<lambda>oper. Op oper = Create \<and> Filename oper = ''f'') (chain_ops bs) =
        [sample_op Create ''B'' ''f'' ''z'', sample_op Create ''A'' ''f'' ''x''])"
proof -
  have b: "built H sample_cfg tree_b"
    by (rule built_add [OF sample_built(3) is_iter_id is_iter_id tree_b_add [OF is_iter_id is_iter_id]])
  then have inv: "bc_inv tree_b" "bc_config tree_b = sample_cfg"
    using built_inv by (auto simp: ledger_inv_def)
  have ok: "acceptable sample_cfg (Operations block5) [block_b, block2, block1, NewGenesisBlock 0 ''g'']"
    by (simp add: acceptable_def balance_simps sample_defs block5_def block_b_def repeats_creation_def
        op_cost_def block_reward_def)
  have f: "Hash block5 = ''6''" "PreviousHash block5 = ''5''"
    by (simp_all add: block5_def sample_block_def)
  have add: "AddBlock H (\<lambda>m. m) (\<lambda>m. m) tree_b block5 = Some (Inr (link_block tree_b block5 3))"
    using ok by (simp add: AddBlock_eq [OF inv(1)] HasBlock_def inv(2) f tree_b_facts sample_pow)
  have "built H sample_cfg (link_block tree_b block5 3)"
    by (rule built_add [OF b is_iter_id is_iter_id add])
  moreover have "chain_blocks (bc_heap (link_block tree_b block5 3)) (Some (length (bc_heap tree_b))) =
      Some (block5 # [block_b, block2, block1, NewGenesisBlock 0 ''g''])"
    using chain_link_block_new [OF inv(1) map_of_live [OF tree_b_facts(1)]] tree_b_facts(3) by simp
  moreover have "filter (\<lambda>oper. Op oper = Create \<and> Filename oper = ''f'')
      (chain_ops (block5 # [block_b, block2, block1, NewGenesisBlock 0 ''g''])) =
      [sample_op Create ''B'' ''f'' ''z'', sample_op Create ''A'' ''f'' ''x'']"
    by (simp add: block5_def block_b_def sample_defs)
  ultimately show ?thesis
    using inv(2) f by (intro exI [of _ "link_block tree_b block5 3"]) simp
qed

end
