(* ===== verification/Bclib_View.thy ===== *)
theory Bclib_View
  imports Bclib_Ledger
begin

text \<open>
  The abstract ledger of \<open>Bclib_Ledger\<close>, a map from hashes to chains, for the trees that
  \<^verbatim>\<open>AddBlock\<close> builds: every chain ends with the genesis block, is closed under taking
  predecessors, and consists of blocks that could be added one after the other. Two such trees agree on
  the blocks before a common block.
\<close>

section \<open>Blocks that can be added one after the other\<close>

text \<open>The blocks \<open>cs\<close>, oldest first, can be added on top of the chain \<open>base\<close>, newest first.\<close>

fun addable :: "host \<Rightarrow> Settings \<Rightarrow> Block list \<Rightarrow> Block list \<Rightarrow> bool" where
  "addable H cfg base [] \<longleftrightarrow> True"
| "addable H cfg base (c # cs) \<longleftrightarrow>
     base \<noteq> [] \<and> PreviousHash c = Hash (hd base) \<and> acceptable cfg (Operations c) base \<and>
     Validate H (NewProofOfWork c (uint (block_difficulty cfg c))) \<and> addable H cfg (c # base) cs"

lemma addable_append:
  "addable H cfg base (cs @ ds) \<longleftrightarrow> addable H cfg base cs \<and> addable H cfg (rev cs @ base) ds"
  by (induction cs arbitrary: base) auto

lemma addable_nth:
  assumes "addable H cfg base cs" "i < length cs"
  shows "rev (take i cs) @ base \<noteq> []" "PreviousHash (cs ! i) = Hash (hd (rev (take i cs) @ base))"
    "acceptable cfg (Operations (cs ! i)) (rev (take i cs) @ base)"
    "Validate H (NewProofOfWork (cs ! i) (uint (block_difficulty cfg (cs ! i))))"
proof -
  have "addable H cfg base (take i cs @ cs ! i # drop (Suc i) cs)"
    using assms by (simp add: id_take_nth_drop [symmetric])
  then show "rev (take i cs) @ base \<noteq> []" "PreviousHash (cs ! i) = Hash (hd (rev (take i cs) @ base))"
    "acceptable cfg (Operations (cs ! i)) (rev (take i cs) @ base)"
    "Validate H (NewProofOfWork (cs ! i) (uint (block_difficulty cfg (cs ! i))))"
    by (simp_all add: addable_append)
qed

lemma addable_prev:
  assumes "addable H cfg base cs" "0 < i" "i < length cs"
  shows "PreviousHash (cs ! i) = Hash (cs ! (i - 1))"
proof -
  obtain j where "i = Suc j" using assms(2) by (cases i) auto
  then show ?thesis
    using addable_nth(2) [OF assms(1,3)] assms(3) by (simp add: take_Suc_conv_app_nth)
qed

lemma chain_view_lastNode [simp]: "chain_view (bc\<lparr>bc_lastNode := a\<rparr>) = chain_view bc"
  by (simp add: chain_view_def fun_eq_iff split: option.split)

lemma AddBlock_spec:
  assumes "bc_inv bc" "is_iter it1" "is_iter it2"
  shows "add_spec H (bc_config bc) (chain_view bc) b = Inl e \<Longrightarrow> AddBlock H it1 it2 bc b = Some (Inl e)"
    and "add_spec H (bc_config bc) (chain_view bc) b = Inr W \<Longrightarrow>
      \<exists>bc'. AddBlock H it1 it2 bc b = Some (Inr bc') \<and> chain_view bc' = W \<and> bc_inv bc'"
proof -
  obtain r where r: "AddBlock H it1 it2 bc b = Some r"
    "map_sum (\<lambda>e. e) chain_view r = add_spec H (bc_config bc) (chain_view bc) b"
    using AddBlock_chain_view [OF assms, of H b] by blast
  show "AddBlock H it1 it2 bc b = Some (Inl e)" if "add_spec H (bc_config bc) (chain_view bc) b = Inl e"
    using r that by (cases r) auto
  show "\<exists>bc'. AddBlock H it1 it2 bc b = Some (Inr bc') \<and> chain_view bc' = W \<and> bc_inv bc'"
    if "add_spec H (bc_config bc) (chain_view bc) b = Inr W"
    using r that AddBlock_keeps(1) [OF assms] by (cases r) auto
qed

section \<open>Chains of built trees\<close>

definition view_ok :: "host \<Rightarrow> Settings \<Rightarrow> Block \<Rightarrow> (string \<Rightarrow> Block list option) \<Rightarrow> bool" where
  "view_ok H cfg g V \<longleftrightarrow> Hash g = GenesisBlockHash cfg \<and> V (Hash g) = Some [g] \<and>
     (\<forall>h ch. V h = Some ch \<longrightarrow>
        (\<exists>cs. ch = rev cs @ [g] \<and> addable H cfg [g] cs) \<and> Hash (hd ch) = h \<and>
        (\<forall>x y ys. ch = x # y # ys \<longrightarrow> V (PreviousHash x) = Some (y # ys)) \<and>
        (\<forall>x. ch = [x] \<longrightarrow> h = Hash g))"

lemma view_okD:
  assumes "view_ok H cfg g V"
  shows "Hash g = GenesisBlockHash cfg" "V (Hash g) = Some [g]"
    and "V h = Some ch \<Longrightarrow> \<exists>cs. ch = rev cs @ [g] \<and> addable H cfg [g] cs"
    and "V h = Some ch \<Longrightarrow> Hash (hd ch) = h"
    and "V h = Some (x # y # ys) \<Longrightarrow> V (PreviousHash x) = Some (y # ys)"
    and "V h = Some [x] \<Longrightarrow> h = Hash g"
  using assms unfolding view_ok_def by blast+

lemma view_ok_add:
  assumes ok: "view_ok H cfg g V" and new: "V (Hash b) = None" and prev: "V (PreviousHash b) = Some bs"
    and b: "acceptable cfg (Operations b) bs" "Validate H (NewProofOfWork b (uint (block_difficulty cfg b)))"
  shows "view_ok H cfg g (V(Hash b \<mapsto> b # bs))"
proof -
  obtain cs where cs: "bs = rev cs @ [g]" "addable H cfg [g] cs" using view_okD(3) [OF ok prev] by blast
  have hd: "PreviousHash b = Hash (hd bs)" using view_okD(4) [OF ok prev] by simp
  have "bs \<noteq> []" using cs(1) by simp
  then have "addable H cfg [g] (cs @ [b])"
    using cs hd b by (simp add: addable_append)
  moreover have "b # bs = rev (cs @ [b]) @ [g]" using cs(1) by simp
  ultimately have new_chain: "\<exists>cs. b # bs = rev cs @ [g] \<and> addable H cfg [g] cs" by blast
  have old: "h \<noteq> Hash b" if "V h = Some ch" for h ch using that new by auto
  show ?thesis unfolding view_ok_def
  proof (intro conjI allI impI)
    show "Hash g = GenesisBlockHash cfg" "(V(Hash b \<mapsto> b # bs)) (Hash g) = Some [g]"
      using view_okD(1,2) [OF ok] old by auto
  next
    fix h ch assume ch: "(V(Hash b \<mapsto> b # bs)) h = Some ch"
    show "\<exists>cs. ch = rev cs @ [g] \<and> addable H cfg [g] cs"
      using ch new_chain view_okD(3) [OF ok, of h ch] by (cases "h = Hash b") auto
    show "Hash (hd ch) = h"
      using ch view_okD(4) [OF ok, of h ch] by (cases "h = Hash b") auto
    show "(V(Hash b \<mapsto> b # bs)) (PreviousHash x) = Some (y # ys)" if "ch = x # y # ys" for x y ys
    proof (cases "h = Hash b")
      case True
      then show ?thesis using ch that prev old [OF prev] by simp
    next
      case False
      then have "V (PreviousHash x) = Some (y # ys)" using ch that view_okD(5) [OF ok] by auto
      then show ?thesis using old by simp
    qed
    show "h = Hash g" if "ch = [x]" for x
      using ch that \<open>bs \<noteq> []\<close> view_okD(6) [OF ok, of h x] by (cases "h = Hash b") auto
  qed
qed

lemma built_view_ok:
  assumes "built H cfg bc" shows "\<exists>now. view_ok H cfg (NewGenesisBlock now (GenesisBlockHash cfg)) (chain_view bc)"
  using assms
proof (induction rule: built.induct)
  case (built_new now)
  let ?g = "NewGenesisBlock now (GenesisBlockHash cfg)"
  have "chain_view (NewBlockchain now cfg) = [GenesisBlockHash cfg \<mapsto> [?g]]"
    by (rule ext) (simp add: chain_view_def NewBlockchain_def newNode_def chain_blocks_step Let_def NewGenesisBlock_def)
  moreover have "Hash ?g = GenesisBlockHash cfg" by (simp add: NewGenesisBlock_def)
  ultimately have "view_ok H cfg ?g (chain_view (NewBlockchain now cfg))"
    by (auto simp: view_ok_def split: if_splits intro: exI [of _ "[]"])
  then show ?case by blast
next
  case (built_add bc it1 it2 b bc')
  have bc: "bc_inv bc" "bc_config bc = cfg" using built_inv [OF built_add.hyps(1)] by (auto simp: ledger_inv_def)
  obtain p bs where p: "map_of (bc_m bc) (Hash b) = None" "map_of (bc_m bc) (PreviousHash b) = Some p"
    "chain_blocks (bc_heap bc) (Some p) = Some bs" and ok: "acceptable cfg (Operations b) bs"
    "Validate H (NewProofOfWork b (uint (block_difficulty cfg b)))" and bc': "bc' = link_block bc b p"
    using AddBlock_InrE [OF bc(1) built_add.hyps(2-4)] bc(2) by metis
  have "chain_view bc (PreviousHash b) = Some bs" using p by (simp add: chain_view_def)
  moreover have "chain_view bc (Hash b) = None" using p(1) by (simp add: chain_view_def)
  ultimately show ?case
    using built_add.IH view_ok_add ok chain_view_link_block [OF bc(1) p(2,3)] bc' by metis
next
  case (built_query bc bc' ns)
  have "bc_inv bc" using built_inv [OF built_query.hyps(1)] by (auto simp: ledger_inv_def)
  from getLastNodes_tip [OF this] obtain lns where "getLastNodes bc = Some (bc\<lparr>bc_lastNode := tip bc\<rparr>, lns)" by blast
  with built_query.hyps(2) have "bc' = bc\<lparr>bc_lastNode := tip bc\<rparr>" by simp
  then show ?case using built_query.IH by simp
qed

lemma view_suffix:
  assumes "view_ok H cfg g V" "V h = Some (xs @ y # ys)" shows "V (Hash y) = Some (y # ys)"
  using assms(2)
proof (induction xs arbitrary: h)
  case Nil
  with view_okD(4) [OF assms(1)] show ?case by force
next
  case (Cons x xs)
  then obtain z zs where z: "xs @ y # ys = z # zs" by (cases xs) auto
  with Cons.prems have "V (PreviousHash x) = Some (xs @ y # ys)" using view_okD(5) [OF assms(1)] by simp
  then show ?case by (rule Cons.IH)
qed

lemma view_distinct:
  assumes "view_ok H cfg g V" "V h = Some ch" shows "distinct (map Hash ch)"
proof (rule ccontr)
  assume "\<not> distinct (map Hash ch)"
  then obtain us x vs ws where "map Hash ch = us @ [x] @ vs @ [x] @ ws" by (metis not_distinct_decomp)
  then obtain us' a vs' b ws' where "ch = us' @ a # vs' @ b # ws'" and "Hash a = Hash b"
    by (fastforce simp: map_eq_append_conv append_eq_map_conv map_eq_Cons_conv Cons_eq_map_conv)
  then show False
    using view_suffix [OF assms(1), of h us' a "vs' @ b # ws'"] view_suffix [OF assms(1), of h "us' @ a # vs'" b ws'] assms(2)
    by auto
qed

section \<open>Two trees\<close>

text \<open>Two trees agree when no hash but that of the genesis block stands for different blocks.\<close>

definition same_blocks :: "Blockchain \<Rightarrow> Blockchain \<Rightarrow> bool" where
  "same_blocks bc bc' \<longleftrightarrow>
     (\<forall>h b b'. h \<noteq> GenesisBlockHash (bc_config bc) \<longrightarrow> GetBlock bc h = Some b \<longrightarrow> GetBlock bc' h = Some b' \<longrightarrow> b = b')"

definition view_agree :: "string \<Rightarrow> (string \<Rightarrow> Block list option) \<Rightarrow> (string \<Rightarrow> Block list option) \<Rightarrow> bool" where
  "view_agree gh V V' \<longleftrightarrow> (\<forall>h ch ch'. h \<noteq> gh \<longrightarrow> V h = Some ch \<longrightarrow> V' h = Some ch' \<longrightarrow> hd ch = hd ch')"

lemma same_blocks_agree:
  assumes "bc_inv bc" "bc_inv bc'" "same_blocks bc bc'"
  shows "view_agree (GenesisBlockHash (bc_config bc)) (chain_view bc) (chain_view bc')"
  using assms(3) unfolding view_agree_def same_blocks_def GetBlock_view [OF assms(1)] GetBlock_view [OF assms(2)]
  by (metis option.simps(9))

lemma agree_chain:
  assumes ok: "view_ok H cfg g V" "view_ok H cfg g' V'" and ag: "view_agree (GenesisBlockHash cfg) V V'"
    and "V h = Some (xs @ [g])" "V' h \<noteq> None"
  shows "V' h = Some (xs @ [g'])"
  using assms(4,5)
proof (induction xs arbitrary: h)
  case Nil
  then show ?case using view_okD(1,2,6) [OF ok(1)] view_okD(1,2) [OF ok(2)] by fastforce
next
  case (Cons x xs)
  have h: "h \<noteq> GenesisBlockHash cfg" using Cons.prems(1) view_okD(1,2) [OF ok(1)] by auto
  obtain ch where ch: "V' h = Some ch" using Cons.prems(2) by blast
  obtain cs where "ch = rev cs @ [g']" using view_okD(3) [OF ok(2) ch] by blast
  then obtain y ys where y: "ch = y # ys" by (metis list.exhaust snoc_eq_iff_butlast)
  have "hd (x # xs @ [g]) = hd ch"
    using ag h Cons.prems(1) ch unfolding view_agree_def by (metis append_Cons)
  then have x: "x = y" using y by simp
  have "ys \<noteq> []" using view_okD(1,6) [OF ok(2)] h ch y by blast
  then have "V' (PreviousHash x) = Some ys" using view_okD(5) [OF ok(2)] ch x y by (cases ys) auto
  moreover have "V (PreviousHash x) = Some (xs @ [g])"
    using view_okD(5) [OF ok(1)] Cons.prems(1) by (cases "xs @ [g]") auto
  ultimately have "ys = xs @ [g']" using Cons.IH by fastforce
  then show ?case using ch x y by simp
qed

text \<open>Genesis blocks of different miners differ in their timestamps only, which no later check reads.\<close>

lemma acceptable_genesis:
  assumes "Operations g = Operations g'" "BlockMinerID g = BlockMinerID g'"
  shows "acceptable cfg ops (xs @ [g]) = acceptable cfg ops (xs @ [g'])"
proof -
  have "chain_ops (xs @ [g]) = chain_ops (xs @ [g'])" using assms(1) by (simp add: chain_ops_def)
  moreover have "balance cfg mid (xs @ [g]) = balance cfg mid (xs @ [g'])" for mid
    using assms by (induction xs) (simp_all add: balance_simps block_reward_def)
  ultimately show ?thesis by (simp add: acceptable_def)
qed

lemma addable_genesis:
  assumes "Hash g = Hash g'" "Operations g = Operations g'" "BlockMinerID g = BlockMinerID g'"
  shows "addable H cfg (xs @ [g]) cs = addable H cfg (xs @ [g']) cs"
proof (induction cs arbitrary: xs)
  case (Cons c cs)
  have "Hash (hd (xs @ [g])) = Hash (hd (xs @ [g']))" using assms(1) by (cases xs) auto
  then show ?case using Cons.IH [of "c # xs"] acceptable_genesis [OF assms(2,3)] by simp
qed simp

text \<open>The blocks of a chain that another tree does not know are the newest ones, and can be added to it.\<close>

lemma missing_blocks:
  assumes ok: "view_ok H cfg g V" "view_ok H cfg g' V'" and ag: "view_agree (GenesisBlockHash cfg) V V'"
    and same: "Operations g = Operations g'" "BlockMinerID g = BlockMinerID g'"
    and ch: "V h = Some ch"
  obtains news olds base where "ch = news @ olds" "\<And>x. x \<in> set news \<Longrightarrow> V' (Hash x) = None"
    "\<And>x. x \<in> set olds \<Longrightarrow> V' (Hash x) \<noteq> None" "olds \<noteq> []" "V' (Hash (hd base)) = Some base" "addable H cfg base (rev news)"
proof -
  obtain cs where cs: "ch = rev cs @ [g]" "addable H cfg [g] cs" using view_okD(3) [OF ok(1) ch] by blast
  have gg: "Hash g = Hash g'" using view_okD(1) [OF ok(1)] view_okD(1) [OF ok(2)] by simp
  define unknown where "unknown = (\<lambda>x :: Block. V' (Hash x) = None)"
  define news where "news = takeWhile unknown ch"
  have "\<not> unknown g" using view_okD(2) [OF ok(2)] gg by (simp add: unknown_def)
  then have "news = takeWhile unknown (rev cs)"
    by (auto simp: news_def cs(1) takeWhile_append) (metis set_rev takeWhile_eq_all_conv)
  then obtain xs where xs: "rev cs = news @ xs" by (metis takeWhile_dropWhile_id)
  then have olds: "ch = news @ xs @ [g]" using cs(1) by simp
  then have drop: "dropWhile unknown ch = xs @ [g]"
    using takeWhile_dropWhile_id [of unknown ch] unfolding news_def [symmetric] by (metis same_append_eq)
  obtain z zs where z: "xs @ [g] = z # zs" by (cases "xs @ [g]") auto
  have Vz: "V (Hash z) = Some (z # zs)" using view_suffix [OF ok(1)] ch olds z by simp
  have "\<not> unknown z" using hd_dropWhile [of unknown ch] drop z by simp
  then have base: "V' (Hash z) = Some (xs @ [g'])"
    using agree_chain [OF ok ag, of "Hash z" xs] Vz z by (simp add: unknown_def)
  have known: "V' (Hash x) \<noteq> None" if "x \<in> set (xs @ [g])" for x
  proof (cases "x \<in> set xs")
    case True
    then obtain us vs where "xs = us @ x # vs" by (meson split_list)
    then show ?thesis using view_suffix [OF ok(2), of "Hash z" us x "vs @ [g']"] base by simp
  next
    case False
    with that show ?thesis using view_okD(2) [OF ok(2)] gg by simp
  qed
  have "cs = rev xs @ rev news" using arg_cong [OF xs, of rev] by simp
  then have "addable H cfg (xs @ [g]) (rev news)" using cs(2) by (simp add: addable_append)
  then have "addable H cfg (xs @ [g']) (rev news)" using addable_genesis [OF gg same] by blast
  moreover have "Hash (hd (xs @ [g'])) = Hash z" using z gg by (cases xs) auto
  moreover have "V' (Hash x) = None" if "x \<in> set news" for x
    using that unfolding news_def by (auto simp: unknown_def dest: set_takeWhileD)
  ultimately show ?thesis
    using that [of news "xs @ [g]" "xs @ [g']"] olds known base by simp
qed

end
