(* ===== verification/Bclib_Files.thy ===== *)
theory Bclib_Files
  imports Bclib_Ledger
begin

text \<open>
  The file queries of \<^verbatim>\<open>bclib/blockchain_rfs.go\<close> as functions of the confirmed part of the
  longest chain: the records of a file, their number, the list of files and the confirmation of an
  operation.
\<close>

section \<open>Specification\<close>

definition main_chain :: "Blockchain \<Rightarrow> Block list" where
  "main_chain bc = the (chain_blocks (bc_heap bc) (Some (tip bc)))"

text \<open>The blocks that \<open>n\<close> further blocks confirm, newest first.\<close>

definition confirmed_chain :: "Blockchain \<Rightarrow> nat \<Rightarrow> Block list option" where
  "confirmed_chain bc n = (if n < length (main_chain bc) then Some (drop n (main_chain bc)) else None)"

definition is_record :: "string \<Rightarrow> Operation \<Rightarrow> bool" where
  "is_record fname oper \<longleftrightarrow> Filename oper = fname \<and> Op oper = Append"

text \<open>The records of a file on a chain: the oldest block first, the records of one block in the
  reverse of their order in the block.\<close>

definition records :: "string \<Rightarrow> Block list \<Rightarrow> Operation list" where
  "records fname bs = concat (map (\<lambda>b. rev (filter (is_record fname) (Operations b))) (rev bs))"

definition mentions :: "string \<Rightarrow> Block list \<Rightarrow> bool" where
  "mentions fname bs \<longleftrightarrow> (\<exists>oper \<in> set (chain_ops bs). Filename oper = fname)"

definition deletes :: "string \<Rightarrow> Block list \<Rightarrow> bool" where
  "deletes fname bs \<longleftrightarrow> (\<exists>oper \<in> set (chain_ops bs). Filename oper = fname \<and> Op oper = Delete)"

abbreviation queried :: "Blockchain \<Rightarrow> Blockchain" where
  "queried bc \<equiv> bc\<lparr>bc_lastNode := tip bc\<rparr>"

lemma main_chain_Some:
  assumes "bc_inv bc"
  shows "chain_blocks (bc_heap bc) (Some (tip bc)) = Some (main_chain bc)"
  using bc_inv_chain [OF assms tip_live [OF assms]] unfolding main_chain_def by force

lemma main_chain_nonempty: "bc_inv bc \<Longrightarrow> main_chain bc \<noteq> []"
  using main_chain_Some [of bc] by (auto simp: chain_blocks_step)

lemma chain_ops_concat: "fold (\<lambda>b. fold f (Operations b)) bs s = fold f (chain_ops bs) s"
  by (induction bs arbitrary: s) auto

lemma records_rev: "records fname bs = rev (filter (is_record fname) (chain_ops bs))"
  by (induction bs) (simp_all add: records_def)

lemma records_Cons:
  "records fname (b # bs) = records fname bs @ rev (filter (is_record fname) (Operations b))"
  by (simp add: records_def)

section \<open>The loops\<close>

lemma reverse_loop_nth:
  "i + j < n + i \<Longrightarrow> length xs = n \<Longrightarrow> length (reverse_loop xs i j) = n \<and>
   (\<forall>k < n. reverse_loop xs i j ! k = (if i \<le> k \<and> k \<le> j then xs ! (i + j - k) else xs ! k))"
proof (induction xs i j rule: reverse_loop.induct)
  case (1 xs i j)
  show ?case
  proof (cases "i < j")
    case True
    let ?ys = "xs[i := xs ! j, j := xs ! i]"
    have IH: "length (reverse_loop ?ys (i + 1) (j - 1)) = n \<and>
       (\<forall>k < n. reverse_loop ?ys (i + 1) (j - 1) ! k =
          (if i + 1 \<le> k \<and> k \<le> j - 1 then ?ys ! (i + 1 + (j - 1) - k) else ?ys ! k))"
      using "1.IH" [OF True] "1.prems" True by simp
    have "reverse_loop xs i j ! k = (if i \<le> k \<and> k \<le> j then xs ! (i + j - k) else xs ! k)" if "k < n" for k
    proof -
      consider "k = i" | "k = j" | "i < k \<and> k < j" | "k < i \<or> j < k" by linarith
      then show ?thesis
        using IH that True "1.prems" reverse_loop.simps [of xs i j]
        by cases (auto simp: nth_list_update)
    qed
    then show ?thesis using IH True reverse_loop.simps [of xs i j] by simp
  next
    case False
    have "xs ! (i + j - k) = xs ! k" if "i \<le> k" "k \<le> j" for k
      using that False by (metis add_diff_cancel_right' le_antisym linorder_not_less order_trans)
    then show ?thesis
      using False "1.prems" by (auto simp: reverse_loop.simps [of xs i j])
  qed
qed

lemma reverse_loop_rev: "reverse_loop xs 0 (length xs - 1) = rev xs"
proof (cases "xs = []")
  case False
  then show ?thesis
    using reverse_loop_nth [of 0 "length xs - 1" "length xs" xs]
    by (intro nth_equalityI) (auto simp: rev_nth)
qed (simp add: reverse_loop.simps)

lemma get_file_fold:
  "fold (get_file_block fname) bs (ops, seen, del) =
     (ops @ filter (is_record fname) (chain_ops bs), seen \<or> mentions fname bs, del \<or> deletes fname bs)"
proof -
  have "fold (\<lambda>oper (operations, seenFilename, deleted).
       if Filename oper = fname then
         (if Op oper = Append then operations @ [oper] else operations, True,
          if Op oper = Delete then True else deleted)
       else (operations, seenFilename, deleted)) os (ops, seen, del) =
     (ops @ filter (is_record fname) os, seen \<or> (\<exists>oper \<in> set os. Filename oper = fname),
      del \<or> (\<exists>oper \<in> set os. Filename oper = fname \<and> Op oper = Delete))" for os
    by (induction os arbitrary: ops seen del) (auto simp: is_record_def)
  then show ?thesis
    unfolding get_file_block_def chain_ops_concat mentions_def deletes_def .
qed

lemma num_recs_fold:
  "fold (num_recs_block fname) bs (n, seen) =
     (n + int (length (filter (is_record fname) (chain_ops bs))), seen \<or> mentions fname bs)"
proof -
  have "fold (\<lambda>oper (numRecs, seenFilename).
       if Filename oper = fname then (if Op oper = Append then numRecs + 1 else numRecs, True)
       else (numRecs, seenFilename)) os (n, seen) =
     (n + int (length (filter (is_record fname) os)), seen \<or> (\<exists>oper \<in> set os. Filename oper = fname))" for os
    by (induction os arbitrary: n seen) (auto simp: is_record_def)
  then show ?thesis
    unfolding num_recs_block_def chain_ops_concat mentions_def .
qed

lemma list_files_fold:
  "fold list_files_block bs fs = store_all Filename (\<lambda>_. ()) (chain_ops bs) fs"
  unfolding list_files_block_def chain_ops_concat ..

lemma getLastConfirmedNode_run:
  assumes "bc_inv bc"
  obtains "confirmed_chain bc n = None" "getLastConfirmedNode bc n = Some (queried bc, None)"
  | nd bs where "confirmed_chain bc n = Some bs" "getLastConfirmedNode bc n = Some (queried bc, Some nd)"
      "chain_blocks (bc_heap bc) (Some nd) = Some bs" 
proof -
  obtain lns where run: "getLastNodes bc = Some (queried bc, lns)" "lns ! 0 = tip bc" "lns \<noteq> []"
    using getLastNodes_tip [OF assms] by metis
  note loop = confirmed_loop_blocks [OF main_chain_Some [OF assms], of n]
  show ?thesis
  proof (cases "confirmed_loop (bc_heap bc) n (tip bc)")
    case None
    with loop run show ?thesis
      by (intro that(1)) (auto simp: confirmed_chain_def getLastConfirmedNode_def split: if_splits)
  next
    case (Some nd)
    with loop run show ?thesis
      by (intro that(2)) (auto simp: confirmed_chain_def getLastConfirmedNode_def split: if_splits)
  qed
qed

section \<open>Records of a file\<close>

abbreviation append_confirms :: "Blockchain \<Rightarrow> nat" where
  "append_confirms bc \<equiv> unat (ConfirmsPerFileAppend (bc_config bc))"

lemma GetFile_run:
  assumes "bc_inv bc"
  shows "GetFile bc fname = Some (queried bc,
    case confirmed_chain bc (append_confirms bc) of
      None \<Rightarrow> (\<lparr>Fname = [], FileOperations = [], Deleted = False\<rparr>, False)
    | Some bs \<Rightarrow> (\<lparr>Fname = fname, FileOperations = records fname bs, Deleted = deletes fname bs\<rparr>,
                  mentions fname bs))"
  using assms
  by (rule getLastConfirmedNode_run [where n = "append_confirms bc"])
    (simp_all add: GetFile_def walk_fold get_file_fold reverse_loop_rev records_rev del: One_nat_def)

lemma GetFile_fields:
  assumes "bc_inv bc" and "GetFile bc fname = Some (bc', file, ok)"
  shows "FileOperations file =
      (case confirmed_chain bc (append_confirms bc) of None \<Rightarrow> [] | Some bs \<Rightarrow> records fname bs)"
    and "ok = (case confirmed_chain bc (append_confirms bc) of None \<Rightarrow> False | Some bs \<Rightarrow> mentions fname bs)"
  using assms(2) unfolding GetFile_run [OF assms(1)]
  by (cases "confirmed_chain bc (append_confirms bc)"; auto)+

lemma NumRecs_run:
  assumes "bc_inv bc"
  shows "NumRecs bc fname = Some (queried bc,
    case confirmed_chain bc (append_confirms bc) of
      None \<Rightarrow> (-1, False)
    | Some bs \<Rightarrow> (int (length (records fname bs)), mentions fname bs))"
  using assms
  by (rule getLastConfirmedNode_run [where n = "append_confirms bc"])
    (simp_all add: NumRecs_def walk_fold num_recs_fold records_rev)

text \<open>C11: \<^verbatim>\<open>GetFile\<close> always returns. When the longest chain is not longer than the number
  of confirmations it reports that there is no file; otherwise its operations are the appends to
  the file in the confirmed blocks, the oldest block first, and it reports whether a confirmed
  operation deletes the file and whether one names it at all.\<close>

theorem GetFile_confirmed:
  assumes "bc_inv bc"
  shows "GetFile bc fname = Some (queried bc,
    case confirmed_chain bc (append_confirms bc) of
      None \<Rightarrow> (\<lparr>Fname = [], FileOperations = [], Deleted = False\<rparr>, False)
    | Some bs \<Rightarrow> (\<lparr>Fname = fname, FileOperations = records fname bs, Deleted = deletes fname bs\<rparr>,
                  mentions fname bs))"
  using assms by (rule GetFile_run)

definition tree5 :: Blockchain where
  "tree5 = link_block tree4 (sample_block ''A'' [] ''3'' ''7'') 3"

lemma tree5_add:
  assumes "is_iter it1" "is_iter it2"
  shows "AddBlock H it1 it2 tree4 (sample_block ''A'' [] ''3'' ''7'') = Some (Inr tree5)"
  using assms by (simp add: AddBlock_eq [OF sample_inv(5)] HasBlock_def sample_map sample_pow
      sample_chains sample_block_def tree5_def)

lemma tree5_built: "built H sample_cfg tree5"
  by (rule built_add [OF sample_built(5) is_iter_id is_iter_id tree5_add [OF is_iter_id is_iter_id]])

lemma tree5_inv: "bc_inv tree5"
  using built_inv [OF tree5_built] by (simp add: ledger_inv_def)

text \<open>A block on top of the tip becomes the only tip.\<close>

lemma depth_link_old:
  "bc_inv bc \<Longrightarrow> a \<in> live bc \<Longrightarrow> depth (link_block bc b p) a = depth bc a"
  by (simp add: depth_def chain_link_block)

lemma depth_link_new:
  assumes "bc_inv bc" "p \<in> live bc"
  shows "depth (link_block bc b p) (length (bc_heap bc)) = Suc (depth bc p)"
proof -
  obtain bs where "chain_blocks (bc_heap bc) (Some p) = Some (block_at (bc_heap bc) p # bs)"
    using bc_inv_chain_Cons [OF assms] .
  then show ?thesis
    using chain_link_block_new [OF assms, of b] by (simp add: depth_def)
qed

lemma tip_link:
  assumes inv: "bc_inv bc" and new: "map_of (bc_m bc) (Hash b) = None"
    and p: "map_of (bc_m bc) (PreviousHash b) = Some (tip bc)"
  shows "tip (link_block bc b (tip bc)) = length (bc_heap bc)"
    and "main_chain (link_block bc b (tip bc)) = b # main_chain bc"
proof -
  let ?bc = "link_block bc b (tip bc)"
  have inv': "bc_inv ?bc" using bc_inv_link_block [OF inv new p] .
  have tip: "tip bc \<in> live bc" "\<And>a. a \<in> live bc \<Longrightarrow> depth bc a \<le> depth bc (tip bc)"
    using getLastNodes_tip [OF inv] by (auto simp: deepest_def)
  have live: "live ?bc = insert (length (bc_heap bc)) (live bc)"
    by (rule live_link_block [OF new])
  have "tip ?bc \<in> deepest ?bc" using getLastNodes_tip [OF inv'] by metis
  then have "tip ?bc \<in> live ?bc" "depth ?bc (length (bc_heap bc)) \<le> depth ?bc (tip ?bc)"
    unfolding deepest_def live by auto
  then show t: "tip ?bc = length (bc_heap bc)"
    unfolding live depth_link_new [OF inv tip(1)]
    using depth_link_old [OF inv] tip(2) by (metis insertE not_less_eq_eq)
  show "main_chain ?bc = b # main_chain bc"
    using chain_link_block_new [OF inv tip(1), of b] main_chain_Some [OF inv] main_chain_Some [OF inv']
    unfolding t by simp
qed

lemma tree5_main: "main_chain tree5 = [sample_block ''A'' [] ''3'' ''7'', block3, block2, block1, NewGenesisBlock 0 ''g'']"
proof -
  have "main_chain tree4 = [block3, block2, block1, NewGenesisBlock 0 ''g'']"
    by (simp add: main_chain_def tip_sample sample_chains)
  then show ?thesis
    using tip_link(2) [OF sample_inv(5), of "sample_block ''A'' [] ''3'' ''7''"]
    by (simp add: tip_sample sample_map sample_block_def tree5_def)
qed

lemma tree5_cfg [simp]: "bc_config tree5 = sample_cfg"
  by (simp add: tree5_def)

lemma sample_files:
  "GetFile tree4 ''f'' = Some (queried tree4, \<lparr>Fname = ''f'', FileOperations = [], Deleted = False\<rparr>, True)"
  "GetFile tree5 ''f'' = Some (queried tree5,
     \<lparr>Fname = ''f'', FileOperations = [sample_op Append ''A'' ''f'' ''y''], Deleted = False\<rparr>, True)"
proof -
  have "main_chain tree4 = [block3, block2, block1, NewGenesisBlock 0 ''g'']"
    by (simp add: main_chain_def tip_sample sample_chains)
  then show "GetFile tree4 ''f'' = Some (queried tree4, \<lparr>Fname = ''f'', FileOperations = [], Deleted = False\<rparr>, True)"
    using GetFile_run [OF sample_inv(5), of "''f''"] by (simp add: confirmed_chain_def)
      (simp add: sample_defs records_def is_record_def deletes_def mentions_def)
  show "GetFile tree5 ''f'' = Some (queried tree5,
     \<lparr>Fname = ''f'', FileOperations = [sample_op Append ''A'' ''f'' ''y''], Deleted = False\<rparr>, True)"
    using GetFile_run [OF tree5_inv, of "''f''"]
    by (simp add: confirmed_chain_def tree5_main)
      (simp add: sample_defs records_def is_record_def deletes_def mentions_def)
qed

theorem GetFile_confirmed_witness:
  "GetFile tree5 ''f'' = Some (queried tree5,
     \<lparr>Fname = ''f'', FileOperations = [sample_op Append ''A'' ''f'' ''y''], Deleted = False\<rparr>, True)"
  using GetFile_confirmed [OF tree5_inv, of "''f''"]
  by (simp add: confirmed_chain_def tree5_main)
    (simp add: sample_defs records_def is_record_def deletes_def mentions_def)

text \<open>\<^verbatim>\<open>NumRecs\<close> agrees with \<^verbatim>\<open>GetFile\<close>: it returns the number of
  the operations that \<^verbatim>\<open>GetFile\<close> returns (or -1 when the chain is too short) and the same
  answer on whether the file exists.\<close>

theorem NumRecs_counts_GetFile:
  assumes "bc_inv bc"
  shows "\<exists>file ok. GetFile bc fname = Some (queried bc, file, ok) \<and>
    NumRecs bc fname = Some (queried bc,
      (if append_confirms bc < length (main_chain bc) then int (length (FileOperations file)) else -1), ok)"
  using NumRecs_run [OF assms, of fname] GetFile_run [OF assms, of fname]
  by (cases "append_confirms bc < length (main_chain bc)") (auto simp: confirmed_chain_def)

theorem NumRecs_counts_GetFile_witness: "NumRecs tree5 ''f'' = Some (queried tree5, 1, True)"
proof -
  note sample_files(2)
  moreover have "append_confirms tree5 < length (main_chain tree5)"
    unfolding tree5_cfg tree5_main by (simp add: sample_cfg_def)
  ultimately show ?thesis
    using NumRecs_counts_GetFile [OF tree5_inv, of "''f''"] by auto
qed

text \<open>C12: Files are append-only as long as the longest chain grows: when a block is added on top of
  the block that \<^verbatim>\<open>GetLastHash\<close> names, every file keeps its records at their positions,
  new records come after them, and no file disappears.\<close>

theorem GetFile_append_only:
  assumes "bc_inv bc" "is_iter it1" "is_iter it2" and add: "AddBlock H it1 it2 bc b = Some (Inr bc')"
    and prev: "GetLastHash bc = Some (bc0, PreviousHash b)"
    and got: "GetFile bc fname = Some (bc1, file, ok)" and got': "GetFile bc' fname = Some (bc2, file', ok')"
  shows "prefix (FileOperations file) (FileOperations file') \<and> (ok \<longrightarrow> ok')"
proof -
  obtain p where p: "map_of (bc_m bc) (Hash b) = None" "map_of (bc_m bc) (PreviousHash b) = Some p"
    and bc': "bc' = link_block bc b p"
    using AddBlock_InrE [OF assms(1-4)] by metis
  obtain lns where "getLastNodes bc = Some (queried bc, lns)" "lns ! 0 = tip bc"
    using getLastNodes_tip [OF assms(1)] by metis
  then have "PreviousHash b = Hash (block_at (bc_heap bc) (tip bc))"
    using prev by (simp add: GetLastHash_def)
  then have "p = tip bc"
    using p(2) bc_inv_map_of [OF assms(1)] tip_live [OF assms(1)] by (metis option.inject)
  then have main: "main_chain bc' = b # main_chain bc" and inv': "bc_inv bc'"
    and cfg: "append_confirms bc' = append_confirms bc"
    using tip_link [OF assms(1) p(1)] bc_inv_link_block [OF assms(1) p] p(2) bc' by auto
  let ?n = "append_confirms bc" and ?m = "main_chain bc"
  note f = GetFile_fields [OF assms(1) got] and f' = GetFile_fields [OF inv' got', unfolded cfg]
  show ?thesis
  proof (cases "?n < length ?m")
    case True
    obtain b' where "drop ?n (b # ?m) = b' # drop ?n ?m"
      using True Cons_nth_drop_Suc [of "?n - 1" ?m] by (cases ?n) (simp_all, metis)
    then have "confirmed_chain bc' ?n = Some (b' # drop ?n ?m)"
      using True by (simp add: confirmed_chain_def main)
    moreover have "confirmed_chain bc ?n = Some (drop ?n ?m)"
      using True by (simp add: confirmed_chain_def)
    ultimately show ?thesis
      using f f' by (simp add: mentions_def records_Cons) blast
  qed (use f in \<open>simp add: confirmed_chain_def\<close>)
qed

theorem GetFile_append_only_witness:
  "\<exists>file file'. GetFile tree4 ''f'' = Some (queried tree4, file, True) \<and>
    GetFile tree5 ''f'' = Some (queried tree5, file', True) \<and>
    prefix (FileOperations file) (FileOperations file') \<and> FileOperations file' \<noteq> []"
proof -
  note 4 = sample_files(1) and 5 = sample_files(2)
  obtain lns where "getLastNodes tree4 = Some (queried tree4, lns)" "lns ! 0 = tip tree4"
    using getLastNodes_tip [OF sample_inv(5)] by metis
  then have l: "GetLastHash tree4 = Some (queried tree4, PreviousHash (sample_block ''A'' [] ''3'' ''7''))"
    by (simp add: GetLastHash_def tip_sample) (simp add: tree_defs sample_defs)
  show ?thesis
    using GetFile_append_only [OF sample_inv(5) is_iter_id is_iter_id tree5_add [OF is_iter_id is_iter_id] l 4 5] 4 5
    by simp
qed

section \<open>The list of files\<close>

lemma ListFiles_run:
  assumes "bc_inv bc" "is_iter it"
  shows "\<exists>names. ListFiles it bc = Some (queried bc, names) \<and> distinct names \<and>
    set names =
      (case confirmed_chain bc (unat (ConfirmsPerFileCreate (bc_config bc))) of
         None \<Rightarrow> {}
       | Some bs \<Rightarrow> Filename ` set (chain_ops bs))"
  using assms(1)
proof (rule getLastConfirmedNode_run [where n = "unat (ConfirmsPerFileCreate (bc_config bc))"])
  fix nd bs
  assume run: "confirmed_chain bc (unat (ConfirmsPerFileCreate (bc_config bc))) = Some bs"
    "getLastConfirmedNode bc (unat (ConfirmsPerFileCreate (bc_config bc))) = Some (queried bc, Some nd)"
    "chain_blocks (bc_heap bc) (Some nd) = Some bs"
  let ?names = "map fst (it (store_all Filename (\<lambda>_. ()) (chain_ops bs) []))"
  have "ListFiles it bc = Some (queried bc, ?names)"
    using run by (simp add: ListFiles_def walk_fold list_files_fold)
  moreover have "distinct ?names"
    using iter_distinct_keys [OF assms(2)] distinct_store_all [of "[]"] by force
  moreover have "set ?names = Filename ` set (chain_ops bs)"
    using iter_set [OF assms(2)] by (simp add: keys_store_all)
  ultimately show ?thesis using run(1) by auto
qed (simp add: ListFiles_def)

text \<open>\<^verbatim>\<open>ListFiles\<close> returns, without repetition, the names that occur in the operations
  of the confirmed blocks. Files whose deletion is confirmed are among them.\<close>

theorem ListFiles_confirmed:
  assumes "bc_inv bc" "is_iter it"
  shows "\<exists>names. ListFiles it bc = Some (queried bc, names) \<and> distinct names \<and>
    set names =
      (case confirmed_chain bc (unat (ConfirmsPerFileCreate (bc_config bc))) of
         None \<Rightarrow> {}
       | Some bs \<Rightarrow> Filename ` set (chain_ops bs))"
  by (rule ListFiles_run [OF assms])

theorem ListFiles_confirmed_witness:
  "\<exists>names. ListFiles rev tree4 = Some (queried tree4, names) \<and> set names = {''f''}"
proof -
  have "main_chain tree4 = [block3, block2, block1, NewGenesisBlock 0 ''g'']"
    by (simp add: main_chain_def tip_sample sample_chains)
  then have "confirmed_chain tree4 (unat (ConfirmsPerFileCreate (bc_config tree4))) =
      Some [block2, block1, NewGenesisBlock 0 ''g'']"
    by (simp add: confirmed_chain_def sample_cfg_def)
  then show ?thesis
    using ListFiles_confirmed [OF sample_inv(5) is_iter_rev]
    by (simp add: block1_def block2_def sample_block_def sample_op_def NewGenesisBlock_def) blast
qed

section \<open>Confirmation of an operation\<close>

abbreviation same_id :: "Operation \<Rightarrow> Operation \<Rightarrow> bool" where
  "same_id oper o' \<equiv> OperationID o' = OperationID oper"

definition has_op :: "Operation \<Rightarrow> Block \<Rightarrow> bool" where
  "has_op oper b \<longleftrightarrow> (\<exists>o' \<in> set (Operations b). same_id oper o')"

text \<open>The number of blocks that follow the newest block with the operation.\<close>

definition confirmations :: "Operation \<Rightarrow> Block list \<Rightarrow> nat" where
  "confirmations oper bs = length (takeWhile (\<lambda>b. \<not> has_op oper b) bs)"

text \<open>The operations the search looks at: up to the operation itself.\<close>

definition scanned :: "Operation \<Rightarrow> Operation list \<Rightarrow> Operation list" where
  "scanned oper ops =
     takeWhile (\<lambda>o'. \<not> same_id oper o') ops @ take 1 (dropWhile (\<lambda>o'. \<not> same_id oper o') ops)"

definition rival :: "Operation \<Rightarrow> Operation list \<Rightarrow> bool" where
  "rival oper ops \<longleftrightarrow> Op oper = Create \<and>
     (\<exists>o' \<in> set ops. Filename o' = Filename oper \<and> MinerID o' \<noteq> MinerID oper)"

definition op_confirms :: "Settings \<Rightarrow> Operation \<Rightarrow> nat" where
  "op_confirms cfg oper =
     unat (if Op oper = Append then ConfirmsPerFileAppend cfg else ConfirmsPerFileCreate cfg)"

lemma check_ops_scan:
  "check_ops oper n i ops other =
     (if \<exists>o' \<in> set ops. same_id oper o' then Inr (n < i, True, other \<or> rival oper (scanned oper ops))
      else Inl (other \<or> rival oper ops))"
  by (induction ops arbitrary: other) (auto simp: rival_def scanned_def Let_def)

lemma scanned_append:
  "scanned oper (xs @ ys) =
     (if \<exists>o' \<in> set xs. same_id oper o' then scanned oper xs else xs @ scanned oper ys)"
  by (induction xs) (auto simp: scanned_def)

lemma rival_append: "rival oper (xs @ ys) \<longleftrightarrow> rival oper xs \<or> rival oper ys"
  by (auto simp: rival_def)

lemma check_loop_chain:
  assumes "chain h x as"
  shows "check_loop h oper n x i other =
    (let bs = map (block_at h) as
     in Some ((\<exists>b \<in> set bs. has_op oper b) \<and> n < i + confirmations oper bs,
              \<exists>b \<in> set bs. has_op oper b, other \<or> rival oper (scanned oper (chain_ops bs))))"
  using assms
proof (induction as arbitrary: x i other)
  case Nil
  then show ?case by (simp add: check_loop.simps rival_def scanned_def)
next
  case (Cons a as)
  then have x: "x = Some a" and IH: "check_loop h oper n (node_parent (h ! a)) i other =
    (let bs = map (block_at h) as
     in Some ((\<exists>b \<in> set bs. has_op oper b) \<and> n < i + confirmations oper bs,
              \<exists>b \<in> set bs. has_op oper b, other \<or> rival oper (scanned oper (chain_ops bs))))" for i other
    by simp_all
  show ?case
  proof (cases "has_op oper (block_at h a)")
    case True
    then show ?thesis
      by (simp add: x check_loop.simps [of _ _ _ "Some a"] check_ops_scan scanned_append
          confirmations_def flip: has_op_def)
  next
    case False
    then show ?thesis
      by (simp add: x check_loop.simps [of _ _ _ "Some a"] check_ops_scan scanned_append IH
          confirmations_def rival_append Let_def flip: has_op_def)
  qed
qed

lemma CheckOpConfirmed_run:
  assumes "bc_inv bc"
  shows "CheckOpConfirmed bc oper = Some (queried bc,
    (\<exists>b \<in> set (main_chain bc). has_op oper b) \<and>
      op_confirms (bc_config bc) oper < confirmations oper (main_chain bc),
    \<exists>b \<in> set (main_chain bc). has_op oper b,
    rival oper (scanned oper (chain_ops (main_chain bc))))"
proof -
  obtain lns where run: "getLastNodes bc = Some (queried bc, lns)" "lns ! 0 = tip bc"
    using getLastNodes_tip [OF assms] by metis
  obtain as where as: "chain (bc_heap bc) (Some (tip bc)) as" "main_chain bc = map (block_at (bc_heap bc)) as"
    using main_chain_Some [OF assms] by (auto simp: chain_blocks_Some)
  show ?thesis
    using run by (simp add: CheckOpConfirmed_def check_loop_chain [OF as(1)] as(2) op_confirms_def Let_def)
qed

text \<open>C22: \<^verbatim>\<open>CheckOpConfirmed\<close> always returns: \<^verbatim>\<open>exists\<close> if the longest chain has
  an operation with this identifier, \<^verbatim>\<open>confirmed\<close> if moreover strictly more blocks than the
  configured number follow the newest such block, and \<^verbatim>\<open>otherMiner\<close> if for a creation some
  operation scanned before that, of any kind, by another miner has the same file name.\<close>

theorem CheckOpConfirmed_correct:
  assumes "bc_inv bc"
  shows "CheckOpConfirmed bc oper = Some (queried bc,
    (\<exists>b \<in> set (main_chain bc). has_op oper b) \<and>
      op_confirms (bc_config bc) oper < confirmations oper (main_chain bc),
    \<exists>b \<in> set (main_chain bc). has_op oper b,
    rival oper (scanned oper (chain_ops (main_chain bc))))"
  using assms by (rule CheckOpConfirmed_run)

theorem CheckOpConfirmed_correct_witness:
  "CheckOpConfirmed tree5 (sample_op Create ''A'' ''f'' ''x'') = Some (queried tree5, True, True, False)"
  using CheckOpConfirmed_correct [OF tree5_inv, of "sample_op Create ''A'' ''f'' ''x''"]
  by (simp add: tree5_main)
    (simp add: sample_defs has_op_def op_confirms_def confirmations_def rival_def scanned_def)

lemma confirmed_drop:
  assumes "b \<in> set bs" "oper \<in> set (Operations b)" "n \<le> confirmations oper bs"
  shows "oper \<in> set (chain_ops (drop n bs))"
proof -
  have "has_op oper b" using assms(2) by (auto simp: has_op_def)
  moreover have "\<not> has_op oper c" if "c \<in> set (take n bs)" for c
  proof -
    have "take n bs = take n (takeWhile (\<lambda>b. \<not> has_op oper b) bs)"
      using assms(3) by (metis append_eq_conv_conj confirmations_def min.absorb1 take_take takeWhile_dropWhile_id)
    then have "set (take n bs) \<subseteq> set (takeWhile (\<lambda>b. \<not> has_op oper b) bs)"
      by (metis set_take_subset)
    then show ?thesis using that by (auto dest: set_takeWhileD)
  qed
  ultimately have "b \<in> set (drop n bs)"
    using assms(1) by (metis Un_iff append_take_drop_id set_append)
  then show ?thesis using assms(2) by (auto simp: chain_ops_def)
qed

lemma GetFile_lists:
  assumes "bc_inv bc" "Op oper = Append" and "b \<in> set (main_chain bc)" "oper \<in> set (Operations b)"
    and n: "append_confirms bc \<le> confirmations oper (main_chain bc)"
  shows "\<exists>bc2 file. GetFile bc (Filename oper) = Some (bc2, file, True) \<and> oper \<in> set (FileOperations file)"
proof -
  let ?n = "append_confirms bc" and ?m = "main_chain bc"
  have "\<exists>b \<in> set ?m. has_op oper b"
    using assms(3,4) by (auto simp: has_op_def)
  then have "takeWhile (\<lambda>b. \<not> has_op oper b) ?m \<noteq> ?m"
    by (metis (mono_tags, lifting) takeWhile_eq_all_conv)
  then have "confirmations oper ?m < length ?m"
    unfolding confirmations_def
    by (metis le_neq_implies_less length_takeWhile_le takeWhile_eq_take take_all_iff order_refl)
  then have cc: "confirmed_chain bc ?n = Some (drop ?n ?m)"
    using n by (simp add: confirmed_chain_def)
  have "oper \<in> set (chain_ops (drop ?n ?m))"
    using assms(3,4) n by (intro confirmed_drop) auto
  then have "mentions (Filename oper) (drop ?n ?m)" "oper \<in> set (records (Filename oper) (drop ?n ?m))"
    using assms(2) by (auto simp: mentions_def records_rev is_record_def)
  then show ?thesis by (simp add: GetFile_run [OF assms(1)] cc)
qed

text \<open>When \<^verbatim>\<open>CheckOpConfirmed\<close> confirms an append that is on the chain itself, then
  \<^verbatim>\<open>GetFile\<close> lists it: the answer \<^verbatim>\<open>confirmed\<close> is safe for the client that waits
  to read its record back.\<close>

theorem confirmed_append_is_listed:
  assumes "bc_inv bc" "Op oper = Append" and "b \<in> set (main_chain bc)" "oper \<in> set (Operations b)"
    and "CheckOpConfirmed bc oper = Some (bc1, True, found, other)"
  shows "\<exists>bc2 file. GetFile bc (Filename oper) = Some (bc2, file, True) \<and> oper \<in> set (FileOperations file)"
  using assms GetFile_lists [OF assms(1-4)] by (simp add: CheckOpConfirmed_run op_confirms_def)

definition tree6 :: Blockchain where
  "tree6 = link_block tree5 (sample_block ''A'' [] ''7'' ''8'') 5"

lemma tree6_facts:
  shows "bc_inv tree6" "bc_config tree6 = sample_cfg"
    "main_chain tree6 = sample_block ''A'' [] ''7'' ''8'' # main_chain tree5"
    and tree6_built: "built H sample_cfg tree6"
proof -
  have m: "map_of (bc_m tree5) ''8'' = None" "map_of (bc_m tree5) ''7'' = Some 5"
    by (simp_all add: tree5_def sample_map sample_block_def) (simp add: tree_defs sample_defs)
  have "tip tree5 = 5"
    using tip_link(1) [OF sample_inv(5), of "sample_block ''A'' [] ''3'' ''7''"]
    by (simp add: tip_sample sample_map sample_block_def tree5_def) (simp add: tree_defs sample_defs)
  then show "main_chain tree6 = sample_block ''A'' [] ''7'' ''8'' # main_chain tree5"
    using tip_link(2) [OF tree5_inv, of "sample_block ''A'' [] ''7'' ''8''"] m
    by (simp add: sample_block_def tree6_def)
  have "AddBlock H (\<lambda>m. m) (\<lambda>m. m) tree5 (sample_block ''A'' [] ''7'' ''8'') = Some (Inr tree6)" for H
    using m by (simp add: AddBlock_eq [OF tree5_inv] HasBlock_def sample_pow sample_block_def tree6_def)
  from built_add [OF tree5_built is_iter_id is_iter_id this]
  show built: "built H sample_cfg tree6" for H .
  from built_inv [OF this] show "bc_inv tree6" by (simp add: ledger_inv_def)
qed (simp add: tree6_def)

theorem confirmed_append_is_listed_witness:
  "\<exists>bc2 file. GetFile tree6 ''f'' = Some (bc2, file, True) \<and>
     sample_op Append ''A'' ''f'' ''y'' \<in> set (FileOperations file)"
proof -
  let ?oper = "sample_op Append ''A'' ''f'' ''y''"
  have "block3 \<in> set (main_chain tree6)" "?oper \<in> set (Operations block3)" "Op ?oper = Append"
    by (simp_all add: tree6_facts tree5_main block3_def sample_block_def sample_op_def)
  moreover have "CheckOpConfirmed tree6 ?oper = Some (queried tree6, True, True, False)"
    by (simp add: CheckOpConfirmed_run [OF tree6_facts(1)] tree6_facts(2,3) tree5_main)
      (simp add: sample_defs has_op_def op_confirms_def confirmations_def rival_def scanned_def)
  ultimately show ?thesis
    using confirmed_append_is_listed [OF tree6_facts(1), of ?oper block3 "queried tree6" True False]
    by (simp add: sample_op_def)
qed

text \<open>\<^verbatim>\<open>CheckOpConfirmed\<close> asks for one block more than the configured number: an append
  that is followed by exactly \<^verbatim>\<open>ConfirmsPerFileAppend\<close> blocks is not confirmed, although
  \<^verbatim>\<open>GetFile\<close> already lists it.\<close>

theorem exact_confirmations_not_enough:
  assumes "bc_inv bc" "Op oper = Append" and "b \<in> set (main_chain bc)" "oper \<in> set (Operations b)"
    and "confirmations oper (main_chain bc) = append_confirms bc"
  shows "(\<exists>bc1 other. CheckOpConfirmed bc oper = Some (bc1, False, True, other)) \<and>
    (\<exists>bc2 file. GetFile bc (Filename oper) = Some (bc2, file, True) \<and> oper \<in> set (FileOperations file))"
proof
  have "\<exists>b \<in> set (main_chain bc). has_op oper b"
    using assms(3,4) by (auto simp: has_op_def)
  then show "\<exists>bc1 other. CheckOpConfirmed bc oper = Some (bc1, False, True, other)"
    using assms(2,5) by (simp add: CheckOpConfirmed_run [OF assms(1)] op_confirms_def)
qed (use assms GetFile_lists in simp)

theorem exact_confirmations_not_enough_witness:
  "\<exists>bc1 other. CheckOpConfirmed tree5 (sample_op Append ''A'' ''f'' ''y'') = Some (bc1, False, True, other)"
proof -
  let ?oper = "sample_op Append ''A'' ''f'' ''y''"
  have "block3 \<in> set (main_chain tree5)" "?oper \<in> set (Operations block3)" "Op ?oper = Append"
    by (simp_all add: tree5_main block3_def sample_block_def sample_op_def)
  moreover have "confirmations ?oper (main_chain tree5) = append_confirms tree5"
    by (simp add: tree5_main) (simp add: sample_defs has_op_def confirmations_def)
  ultimately show ?thesis
    using exact_confirmations_not_enough [OF tree5_inv, of ?oper block3] by simp
qed

end
