(* ===== verification/Bclib_Replica.thy ===== *)
theory Bclib_Replica
  imports Bclib_View Bclib_Files
begin

text \<open>
  Trees of different miners that have the same blocks. The order in which blocks arrived decides about
  the addresses of the nodes, the order of children, the iteration order of the map and
  \<^verbatim>\<open>lastNode\<close>, and every miner creates a genesis block with its own timestamp; none of this
  has an influence on which blocks and operations a miner accepts.
\<close>

section \<open>Two views that differ in the genesis block\<close>

definition replica_views ::
  "Settings \<Rightarrow> Block \<Rightarrow> Block \<Rightarrow> (string \<Rightarrow> Block list option) \<Rightarrow> (string \<Rightarrow> Block list option) \<Rightarrow> bool" where
  "replica_views cfg g g' V V' \<longleftrightarrow>
     Hash g = GenesisBlockHash cfg \<and> Hash g' = GenesisBlockHash cfg \<and>
     Operations g = Operations g' \<and> BlockMinerID g = BlockMinerID g' \<and> V (GenesisBlockHash cfg) \<noteq> None \<and>
     (\<forall>h. (V h = None \<and> V' h = None) \<or>
          (\<exists>xs. V h = Some (xs @ [g]) \<and> V' h = Some (xs @ [g']) \<and> (xs \<noteq> [] \<or> h = GenesisBlockHash cfg)))"

lemma replica_viewsE:
  assumes "replica_views cfg g g' V V'"
  obtains "V h = None" "V' h = None"
  | xs where "V h = Some (xs @ [g])" "V' h = Some (xs @ [g'])" "xs \<noteq> [] \<or> h = GenesisBlockHash cfg"
  using assms unfolding replica_views_def by metis

lemma replicas_view:
  assumes bc: "built H cfg bc" "built H cfg bc'"
    and same: "\<And>h. h \<noteq> GenesisBlockHash cfg \<Longrightarrow> GetBlock bc h = GetBlock bc' h"
  obtains g g' where "replica_views cfg g g' (chain_view bc) (chain_view bc')"
proof -
  let ?g = "\<lambda>now. NewGenesisBlock now (GenesisBlockHash cfg)"
  obtain n n' where ok: "view_ok H cfg (?g n) (chain_view bc)" "view_ok H cfg (?g n') (chain_view bc')"
    using built_view_ok bc by metis
  have inv: "bc_inv bc" "bc_inv bc'" "bc_config bc = cfg"
    using built_inv bc by (auto simp: ledger_inv_def)
  have "same_blocks bc bc'" using same inv(3) by (simp add: same_blocks_def)
  then have ag: "view_agree (GenesisBlockHash cfg) (chain_view bc) (chain_view bc')"
    using same_blocks_agree [OF inv(1,2)] inv(3) by simp
  have both: "chain_view bc h = None \<longleftrightarrow> chain_view bc' h = None" for h
    using same [of h] view_okD(1,2) [OF ok(1)] view_okD(1,2) [OF ok(2)]
    unfolding GetBlock_view [OF inv(1)] GetBlock_view [OF inv(2)]
    by (cases "h = GenesisBlockHash cfg"; cases "chain_view bc h"; cases "chain_view bc' h") auto
  have "chain_view bc h = None \<and> chain_view bc' h = None \<or>
      (\<exists>xs. chain_view bc h = Some (xs @ [?g n]) \<and> chain_view bc' h = Some (xs @ [?g n']) \<and>
         (xs \<noteq> [] \<or> h = GenesisBlockHash cfg))" for h
  proof (cases "chain_view bc h")
    case (Some ch)
    then obtain cs where cs: "ch = rev cs @ [?g n]" using view_okD(3) [OF ok(1)] by blast
    moreover have "cs \<noteq> [] \<or> h = GenesisBlockHash cfg"
      using view_okD(1,6) [OF ok(1)] Some cs by (cases cs) auto
    moreover have "chain_view bc' h = Some (rev cs @ [?g n'])"
      using agree_chain [OF ok ag, of h "rev cs"] Some both [of h] cs by simp
    ultimately show ?thesis using Some by auto
  qed (use both in simp)
  then show ?thesis
    by (intro that [of "?g n" "?g n'"]) (use view_okD(1,2) [OF ok(1)] in \<open>simp add: replica_views_def NewGenesisBlock_def\<close>)
qed

lemma replica_views_add:
  assumes "replica_views cfg g g' V V'" "h \<noteq> GenesisBlockHash cfg"
  shows "replica_views cfg g g' (V(h \<mapsto> b # xs @ [g])) (V'(h \<mapsto> b # xs @ [g']))"
  using assms unfolding replica_views_def by (auto intro: exI [of _ "b # xs"])

lemma replica_views_GetBlock:
  assumes "bc_inv bc" "bc_inv bc'" "replica_views cfg g g' (chain_view bc) (chain_view bc')" "h \<noteq> GenesisBlockHash cfg"
  shows "GetBlock bc h = GetBlock bc' h"
  by (rule replica_viewsE [OF assms(3), of h]) (use assms in \<open>simp_all add: GetBlock_view\<close>)

section \<open>What both miners accept\<close>

lemma replica_add_spec:
  assumes "replica_views cfg g g' V V'"
  shows "(\<exists>e. add_spec H cfg V b = Inl e \<and> add_spec H cfg V' b = Inl e) \<or>
    (\<exists>W W'. add_spec H cfg V b = Inr W \<and> add_spec H cfg V' b = Inr W' \<and> replica_views cfg g g' W W')"
proof (cases "V (Hash b)")
  case None
  have acc: "acceptable cfg ops (xs @ [g]) = acceptable cfg ops (xs @ [g'])" for ops xs
    by (rule acceptable_genesis) (use assms in \<open>simp_all add: replica_views_def\<close>)
  have "V' (Hash b) = None" by (rule replica_viewsE [OF assms, of "Hash b"]) (use None in simp_all)
  moreover have "Hash b \<noteq> GenesisBlockHash cfg" using assms None by (auto simp: replica_views_def)
  ultimately show ?thesis
    using None replica_views_add [OF assms, of "Hash b" b]
    by (cases rule: replica_viewsE [OF assms, of "PreviousHash b"]) (simp_all add: add_spec_def acc)
next
  case (Some ch)
  then have "V' (Hash b) \<noteq> None" by (cases rule: replica_viewsE [OF assms, of "Hash b"]) auto
  with Some show ?thesis by (simp add: add_spec_def)
qed

section \<open>The longest chains\<close>

definition longest :: "(string \<Rightarrow> Block list option) \<Rightarrow> string set" where
  "longest V = {h. \<exists>ch. V h = Some ch \<and> (\<forall>h' ch'. V h' = Some ch' \<longrightarrow> length ch' \<le> length ch)}"

lemma replica_longest:
  assumes "replica_views cfg g g' V V'" shows "longest V = longest V'"
proof -
  have "map_option length (V h) = map_option length (V' h)" for h
    by (cases rule: replica_viewsE [OF assms, of h]) simp_all
  then have "(\<exists>ch. V h = Some ch \<and> P (length ch)) \<longleftrightarrow> (\<exists>ch. V' h = Some ch \<and> P (length ch))" for h P
    by (metis (no_types, lifting) map_option_eq_Some)
  note len = this
  have "(\<forall>h' ch'. V h' = Some ch' \<longrightarrow> length ch' \<le> n) \<longleftrightarrow> (\<forall>h' ch'. V' h' = Some ch' \<longrightarrow> length ch' \<le> n)" for n
    using len [of _ "\<lambda>k. \<not> k \<le> n"] by blast
  note bound = this
  show ?thesis unfolding longest_def bound using len [of _ "\<lambda>n. \<forall>h ch. V' h = Some ch \<longrightarrow> length ch \<le> n"] by blast
qed

lemma deepest_longest:
  assumes "bc_inv bc"
  shows "(\<lambda>a. Hash (block_at (bc_heap bc) a)) ` deepest bc = longest (chain_view bc)"
proof -
  let ?hash = "\<lambda>a. Hash (block_at (bc_heap bc) a)"
  have view: "\<exists>ch. chain_view bc (?hash a) = Some ch \<and> length ch = Suc (depth bc a)" if "a \<in> live bc" for a
  proof (rule bc_inv_chain_Cons [OF assms that])
    fix bs assume "chain_blocks (bc_heap bc) (Some a) = Some (block_at (bc_heap bc) a # bs)"
    moreover have "map_of (bc_m bc) (?hash a) = Some a" using bc_inv_map_of [OF assms] that by simp
    ultimately show ?thesis by (simp add: chain_view_def depth_def)
  qed
  have live: "\<exists>a \<in> live bc. h = ?hash a" if "chain_view bc h = Some ch" for h ch
    using that by (auto simp: chain_view_def bc_inv_map_of [OF assms] split: option.splits)
  have "(\<forall>h ch. chain_view bc h = Some ch \<longrightarrow> length ch \<le> Suc n) \<longleftrightarrow> (\<forall>b \<in> live bc. depth bc b \<le> n)" for n
  proof
    assume "\<forall>h ch. chain_view bc h = Some ch \<longrightarrow> length ch \<le> Suc n"
    then show "\<forall>b \<in> live bc. depth bc b \<le> n" using view by fastforce
  next
    assume "\<forall>b \<in> live bc. depth bc b \<le> n"
    then show "\<forall>h ch. chain_view bc h = Some ch \<longrightarrow> length ch \<le> Suc n" using view live by fastforce
  qed
  then have "?hash a \<in> longest (chain_view bc) \<longleftrightarrow> a \<in> deepest bc" if "a \<in> live bc" for a
    using view [OF that] that unfolding longest_def deepest_def by force
  moreover have "h \<in> ?hash ` live bc" if "h \<in> longest (chain_view bc)" for h
    using that live unfolding longest_def by blast
  ultimately show ?thesis unfolding deepest_def by blast
qed

lemma GetLastBlocks_view:
  assumes "bc_inv bc"
  shows "\<exists>bs. GetLastBlocks bc = Some (queried bc, bs) \<and> Hash ` set bs = longest (chain_view bc)"
    and "Hash (hd (main_chain bc)) \<in> longest (chain_view bc)" "chain_view bc (Hash (hd (main_chain bc))) = Some (main_chain bc)"
proof -
  let ?hash = "\<lambda>a. Hash (block_at (bc_heap bc) a)"
  obtain lns where lns: "getLastNodes bc = Some (queried bc, lns)" "lns ! 0 = tip bc" "lns \<noteq> []"
    "tip bc \<in> deepest bc" "set lns = deepest bc" using getLastNodes_tip [OF assms] by blast
  have "Hash ` set (map (block_at (bc_heap bc)) lns) = ?hash ` deepest bc"
    by (simp add: image_image lns(5))
  then show "\<exists>bs. GetLastBlocks bc = Some (queried bc, bs) \<and> Hash ` set bs = longest (chain_view bc)"
    using lns(1) deepest_longest [OF assms] by (simp add: GetLastBlocks_def)
  obtain bs where bs: "chain_blocks (bc_heap bc) (Some (tip bc)) = Some (block_at (bc_heap bc) (tip bc) # bs)"
    using bc_inv_chain_Cons [OF assms tip_live [OF assms]] by blast
  moreover have "map_of (bc_m bc) (?hash (tip bc)) = Some (tip bc)"
    using bc_inv_map_of [OF assms] tip_live [OF assms] by simp
  ultimately show "chain_view bc (Hash (hd (main_chain bc))) = Some (main_chain bc)"
    by (simp add: main_chain_def chain_view_def)
  show "Hash (hd (main_chain bc)) \<in> longest (chain_view bc)"
    using deepest_longest [OF assms] lns(4) bs by (auto simp: main_chain_def)
qed

section \<open>Replicas\<close>

lemma replicas_files:
  assumes inv: "bc_inv bc" "bc_inv bc'" and cfg: "bc_config bc = bc_config bc'"
    and views: "replica_views (bc_config bc) g g' (chain_view bc) (chain_view bc')"
    and one: "longest (chain_view bc) = {h}"
  shows "map_option snd (GetFile bc fname) = map_option snd (GetFile bc' fname)"
proof -
  have "longest (chain_view bc') = {h}" using replica_longest [OF views] one by simp
  then have heads: "Hash (hd (main_chain bc)) = h" "Hash (hd (main_chain bc')) = h"
    using GetLastBlocks_view(2) [OF inv(1)] GetLastBlocks_view(2) [OF inv(2)] one by auto
  obtain xs where xs: "main_chain bc = xs @ [g]" "main_chain bc' = xs @ [g']"
    using GetLastBlocks_view(3) [OF inv(1)] GetLastBlocks_view(3) [OF inv(2)] heads
    by (metis replica_viewsE [OF views, of h] option.distinct(1) option.inject)
  have "Operations g = Operations g'" using views by (simp add: replica_views_def)
  then have "records fname (ys @ [g]) = records fname (ys @ [g'])" "mentions fname (ys @ [g]) = mentions fname (ys @ [g'])"
    "deletes fname (ys @ [g]) = deletes fname (ys @ [g'])" for ys
    by (simp_all add: records_def mentions_def deletes_def chain_ops_def)
  then show ?thesis
    by (simp add: GetFile_run inv cfg confirmed_chain_def xs)
qed

lemma replicas_operations:
  assumes inv: "bc_inv bc" "bc_inv bc'" and cfg: "bc_config bc = bc_config bc'" and it: "is_iter it1" "is_iter it2" "is_iter jt1" "is_iter jt2"
    and views: "replica_views (bc_config bc) g g' (chain_view bc) (chain_view bc')"
  shows "map_option snd (ValidateOperations it1 it2 bc ops prev) = map_option snd (ValidateOperations jt1 jt2 bc' ops prev)"
proof (cases rule: replica_viewsE [OF views, of prev])
  case 1
  then show ?thesis by (simp add: chain_view_None inv ValidateOperations_missing)
next
  case (2 xs)
  obtain p p' where p: "map_of (bc_m bc) prev = Some p" "chain_blocks (bc_heap bc) (Some p) = Some (xs @ [g])"
    "map_of (bc_m bc') prev = Some p'" "chain_blocks (bc_heap bc') (Some p') = Some (xs @ [g'])"
    using 2 by (auto simp: chain_view_def split: option.splits)
  have "acceptable (bc_config bc) ops (xs @ [g]) = acceptable (bc_config bc) ops (xs @ [g'])"
    by (rule acceptable_genesis) (use views in \<open>simp_all add: replica_views_def\<close>)
  then show ?thesis
    using ValidateOperations_acceptable [OF it(1,2) p(1,2), of ops] ValidateOperations_acceptable [OF it(3,4) p(3,4), of ops] cfg
    by auto
qed

lemma replicas_AddBlock:
  assumes inv: "bc_inv bc" "bc_inv bc'" and cfg: "bc_config bc = bc_config bc'" and it: "is_iter it1" "is_iter it2" "is_iter jt1" "is_iter jt2"
    and views: "replica_views (bc_config bc) g g' (chain_view bc) (chain_view bc')"
  shows "(\<exists>e. AddBlock H it1 it2 bc b = Some (Inl e) \<and> AddBlock H jt1 jt2 bc' b = Some (Inl e)) \<or>
    (\<exists>bc1 bc1'. AddBlock H it1 it2 bc b = Some (Inr bc1) \<and> AddBlock H jt1 jt2 bc' b = Some (Inr bc1') \<and>
       (\<forall>h. h \<noteq> GenesisBlockHash (bc_config bc) \<longrightarrow> GetBlock bc1 h = GetBlock bc1' h))"
  using replica_add_spec [OF views, of H b]
proof (elim disjE exE conjE)
  fix e assume "add_spec H (bc_config bc) (chain_view bc) b = Inl e" "add_spec H (bc_config bc) (chain_view bc') b = Inl e"
  then show ?thesis
    using AddBlock_spec(1) [OF inv(1) it(1,2)] AddBlock_spec(1) [OF inv(2) it(3,4)] cfg by simp
next
  fix W W'
  assume W: "add_spec H (bc_config bc) (chain_view bc) b = Inr W" "add_spec H (bc_config bc) (chain_view bc') b = Inr W'"
    "replica_views (bc_config bc) g g' W W'"
  from AddBlock_spec(2) [OF inv(1) it(1,2) W(1)] obtain bc1
    where bc1: "AddBlock H it1 it2 bc b = Some (Inr bc1)" "chain_view bc1 = W" "bc_inv bc1" by blast
  from AddBlock_spec(2) [OF inv(2) it(3,4)] W(2) obtain bc1'
    where bc1': "AddBlock H jt1 jt2 bc' b = Some (Inr bc1')" "chain_view bc1' = W'" "bc_inv bc1'" unfolding cfg by blast
  show ?thesis
    using replica_views_GetBlock [OF bc1(3) bc1'(3)] W(3) bc1(1,2) bc1'(1,2) by simp
qed

text \<open>C6: Trees of two miners that have the same blocks besides the genesis block, received in whatever
  order, are equivalent: they validate the same operations, name the same last blocks, and accept the same
  blocks, or reject them with the same error, after which they have the same blocks again; when only
  one chain is longest they have the same files.\<close>

theorem replicas_agree:
  assumes "built H cfg bc" "built H cfg bc'" and "is_iter it1" "is_iter it2" "is_iter jt1" "is_iter jt2"
    and "\<forall>h. h \<noteq> GenesisBlockHash cfg \<longrightarrow> GetBlock bc h = GetBlock bc' h"
  shows "map_option snd (ValidateOperations it1 it2 bc ops prev) = map_option snd (ValidateOperations jt1 jt2 bc' ops prev) \<and>
    (\<exists>bs bs'. GetLastBlocks bc = Some (queried bc, bs) \<and> GetLastBlocks bc' = Some (queried bc', bs') \<and>
       Hash ` set bs = Hash ` set bs' \<and>
       ((\<exists>h. Hash ` set bs = {h}) \<longrightarrow> map_option snd (GetFile bc fname) = map_option snd (GetFile bc' fname))) \<and>
    ((\<exists>e. AddBlock H it1 it2 bc b = Some (Inl e) \<and> AddBlock H jt1 jt2 bc' b = Some (Inl e)) \<or>
     (\<exists>bc1 bc1'. AddBlock H it1 it2 bc b = Some (Inr bc1) \<and> AddBlock H jt1 jt2 bc' b = Some (Inr bc1') \<and>
        (\<forall>h. h \<noteq> GenesisBlockHash cfg \<longrightarrow> GetBlock bc1 h = GetBlock bc1' h)))"
proof -
  have inv: "bc_inv bc" "bc_inv bc'" and cfg: "bc_config bc = cfg" "bc_config bc' = cfg"
    using built_inv assms(1,2) by (auto simp: ledger_inv_def)
  obtain g g' where views: "replica_views cfg g g' (chain_view bc) (chain_view bc')"
    using replicas_view [OF assms(1,2)] assms(7) by blast
  obtain bs where bs: "GetLastBlocks bc = Some (queried bc, bs)" "Hash ` set bs = longest (chain_view bc)"
    using GetLastBlocks_view(1) [OF inv(1)] by blast
  obtain bs' where bs': "GetLastBlocks bc' = Some (queried bc', bs')" "Hash ` set bs' = longest (chain_view bc')"
    using GetLastBlocks_view(1) [OF inv(2)] by blast
  have "(\<exists>h. Hash ` set bs = {h}) \<longrightarrow> map_option snd (GetFile bc fname) = map_option snd (GetFile bc' fname)"
    using replicas_files [OF inv] views cfg bs(2) by auto
  then have files: "\<exists>bs bs'. GetLastBlocks bc = Some (queried bc, bs) \<and> GetLastBlocks bc' = Some (queried bc', bs') \<and>
       Hash ` set bs = Hash ` set bs' \<and>
       ((\<exists>h. Hash ` set bs = {h}) \<longrightarrow> map_option snd (GetFile bc fname) = map_option snd (GetFile bc' fname))"
    using bs bs' replica_longest [OF views] by auto
  show ?thesis
    using replicas_operations [OF inv _ assms(3-6)] views cfg files
      replicas_AddBlock [OF inv _ assms(3-6)] by simp
qed

text \<open>Another miner, started later, receives the competing block first.\<close>

definition late_tree :: Blockchain where
  "late_tree = link_block (link_block (link_block (link_block (NewBlockchain 7 sample_cfg) block1 0) block4 1) block2 1) block3 3"

lemma late_tree_built: "built sample_host sample_cfg late_tree"
proof -
  let ?t0 = "NewBlockchain 7 sample_cfg"
  let ?t1 = "link_block ?t0 block1 0"
  let ?t2 = "link_block ?t1 block4 1"
  let ?t3 = "link_block ?t2 block2 1"
  let ?g = "NewGenesisBlock 7 ''g''"
  have ok: "acceptable sample_cfg (Operations block1) [?g]" "acceptable sample_cfg (Operations block4) [block1, ?g]"
    "acceptable sample_cfg (Operations block2) [block1, ?g]" "acceptable sample_cfg (Operations block3) [block2, block1, ?g]"
    by (simp_all add: acceptable_def balance_simps sample_defs repeats_creation_def op_cost_def block_reward_def)
  have maps: "map_of (bc_m ?t0) = [''g'' \<mapsto> 0]" "map_of (bc_m ?t1) = [''g'' \<mapsto> 0, ''1'' \<mapsto> 1]"
    "map_of (bc_m ?t2) = [''g'' \<mapsto> 0, ''1'' \<mapsto> 1, ''4'' \<mapsto> 2]"
    "map_of (bc_m ?t3) = [''g'' \<mapsto> 0, ''1'' \<mapsto> 1, ''4'' \<mapsto> 2, ''2'' \<mapsto> 3]"
    by (auto simp: link_block_def Let_def sample_defs)
  have chains: "chain_blocks (bc_heap ?t0) (Some 0) = Some [?g]" "chain_blocks (bc_heap ?t1) (Some 1) = Some [block1, ?g]"
    "chain_blocks (bc_heap ?t2) (Some 1) = Some [block1, ?g]" "chain_blocks (bc_heap ?t3) (Some 3) = Some [block2, block1, ?g]"
    by (simp_all add: chain_blocks_step link_block_def Let_def sample_defs)
  have len: "length (bc_heap ?t0) = 1" by (simp add: NewBlockchain_def Let_def)
  have step: "built sample_host sample_cfg (link_block bc b p)"
    if "built sample_host sample_cfg bc" "map_of (bc_m bc) (Hash b) = None" "map_of (bc_m bc) (PreviousHash b) = Some p"
      "acceptable sample_cfg (Operations b) (the (chain_blocks (bc_heap bc) (Some p)))" for bc b p
  proof -
    have "bc_inv bc" "bc_config bc = sample_cfg" using built_inv [OF that(1)] by (auto simp: ledger_inv_def)
    then have "AddBlock sample_host rev rev bc b = Some (Inr (link_block bc b p))"
      using that(2-4) by (simp add: AddBlock_eq HasBlock_def sample_pow)
    then show ?thesis by (rule built_add [OF that(1) is_iter_rev is_iter_rev])
  qed
  show ?thesis
    unfolding late_tree_def by (intro step built_new) (simp_all add: maps chains ok len del: One_nat_def)
qed

theorem replicas_agree_witness:
  "bc_m late_tree \<noteq> bc_m tree4 \<and>
   map_option snd (GetFile tree4 ''f'') = map_option snd (GetFile late_tree ''f'') \<and>
   map_option snd (ValidateOperations (\<lambda>m. m) rev tree4 [sample_op Create ''B'' ''h'' ''z''] ''4'') =
     map_option snd (ValidateOperations rev rev late_tree [sample_op Create ''B'' ''h'' ''z''] ''4'')"
proof -
  have "bc_m late_tree \<noteq> bc_m tree4"
    by (simp add: late_tree_def tree_defs sample_defs)
  moreover have "\<forall>h. h \<noteq> GenesisBlockHash sample_cfg \<longrightarrow> GetBlock tree4 h = GetBlock late_tree h"
    by (simp add: GetBlock_def late_tree_def tree_defs sample_defs)
  note agree = replicas_agree [OF sample_built(5) late_tree_built is_iter_id is_iter_rev is_iter_rev is_iter_rev this]
  moreover have "\<exists>h. Hash ` set bs = {h}" if "GetLastBlocks tree4 = Some (queried tree4, bs)" for bs
    using that GetLastBlocks_view(1) [OF sample_inv(5)] deepest_longest [OF sample_inv(5)] sample_deepest by auto
  ultimately show ?thesis by meson
qed

end
