(* ===== verification/Bclib_Sync.thy ===== *)
theory Bclib_Sync
  imports Bclib_Files
begin

text \<open>
  Rebuilding a tree from the blocks of a peer (\<^verbatim>\<open>UnmarshallBlockchain\<close>) and merging blocks
  into a tree (\<^verbatim>\<open>MergeBlocks\<close>): the linking loop, termination on every input, the round
  trip with \<^verbatim>\<open>GetBlocks\<close>, and what a peer can make a miner accept.
\<close>

section \<open>The linking loop\<close>

text \<open>The parent that the loop gives to a node.\<close>

definition up :: "(string, addr) gomap \<Rightarrow> Node list \<Rightarrow> addr \<Rightarrow> addr option" where
  "up nm h a = (if PreviousHash (block_at h a) = [] then None
                else map_of nm (PreviousHash (block_at h a)))"

definition orphan :: "(string, addr) gomap \<Rightarrow> Node list \<Rightarrow> addr \<Rightarrow> bool" where
  "orphan nm h a \<longleftrightarrow> PreviousHash (block_at h a) \<noteq> [] \<and> map_of nm (PreviousHash (block_at h a)) = None"

definition root :: "Node list \<Rightarrow> addr \<Rightarrow> bool" where
  "root h a \<longleftrightarrow> PreviousHash (block_at h a) = []"

definition in_store :: "(string, addr) gomap \<Rightarrow> Node list \<Rightarrow> bool" where
  "in_store nm h \<longleftrightarrow> snd ` set nm \<subseteq> {..<length h}"

lemma in_store_map_of: "in_store nm h \<Longrightarrow> map_of nm k = Some a \<Longrightarrow> a < length h"
  by (force simp: in_store_def dest: map_of_SomeD)

lemma link_child_simps:
  assumes "n < length h" "p < length h"
  shows "length (link_child h n p) = length h"
    and "block_at (link_child h n p) a = block_at h a"
    and "a < length h \<Longrightarrow> node_parent (link_child h n p ! a) = (if a = n then Some p else node_parent (h ! a))"
    and "a < length h \<Longrightarrow> node_children (link_child h n p ! a) =
      node_children (h ! a) @ (if a = p then [n] else [])"
proof -
  show "block_at (link_child h n p) a = block_at h a"
    using assms by (cases "a = n"; cases "a = p") (simp_all add: link_child_def Let_def nth_list_update)
qed (use assms in \<open>auto simp: link_child_def Let_def nth_list_update\<close>)

lemma link_loop_Inl:
  assumes "in_store nm h" and "snd ` set es \<subseteq> {..<length h}"
  shows "link_loop nm es h g = Inl e \<longleftrightarrow> e = NoParentForNode \<and> (\<exists>n \<in> snd ` set es. orphan nm h n)"
  using assms
proof (induction es arbitrary: h g)
  case (Cons x es)
  obtain k n where x: "x = (k, n)" by fastforce
  show ?case
  proof (cases "up nm h n")
    case None
    then show ?thesis
      using Cons.IH [of h] Cons.prems by (auto simp: x up_def orphan_def split: option.splits if_splits)
  next
    case (Some p)
    then have p: "p < length h" "map_of nm (PreviousHash (block_at h n)) = Some p" "PreviousHash (block_at h n) \<noteq> []"
      using in_store_map_of [OF Cons.prems(1)] by (auto simp: up_def split: if_splits)
    have n: "n < length h" using Cons.prems(2) by (simp add: x)
    note sim = link_child_simps [OF n p(1)]
    have "orphan nm (link_child h n p) a = orphan nm h a" for a
      by (simp add: orphan_def sim(2))
    then show ?thesis
      using Cons.IH [of "link_child h n p"] Cons.prems p sim(1)
      by (auto simp: x in_store_def orphan_def)
  qed
qed simp

lemma link_loop_Inr:
  assumes "in_store nm h" and "snd ` set es \<subseteq> {..<length h}" and "link_loop nm es h g = Inr (h', g')"
  shows "length h' = length h"
    and "block_at h' a = block_at h a"
    and "a < length h \<Longrightarrow> node_parent (h' ! a) =
      (if a \<in> snd ` set es \<and> up nm h a \<noteq> None then up nm h a else node_parent (h ! a))"
    and "a < length h \<Longrightarrow> node_children (h' ! a) =
      node_children (h ! a) @ filter (\<lambda>n. up nm h n = Some a) (map snd es)"
    and "g' = (case filter (root h) (map snd es) of [] \<Rightarrow> g | n # ns \<Rightarrow> Some (last (n # ns)))"
proof -
  have "length h' = length h \<and> block_at h' a = block_at h a \<and>
    (a < length h \<longrightarrow> node_parent (h' ! a) =
      (if a \<in> snd ` set es \<and> up nm h a \<noteq> None then up nm h a else node_parent (h ! a)) \<and>
      node_children (h' ! a) =
      node_children (h ! a) @ filter (\<lambda>n. up nm h n = Some a) (map snd es)) \<and>
    g' = (case filter (root h) (map snd es) of [] \<Rightarrow> g | n # ns \<Rightarrow> Some (last (n # ns)))"
    using assms
  proof (induction es arbitrary: h g)
    case (Cons x es)
    obtain k n where x: "x = (k, n)" by fastforce
    have n: "n < length h" using Cons.prems(2) by (simp add: x)
    show ?case
    proof (cases "root h n")
      case True
      with Cons.prems have "link_loop nm es h (Some n) = Inr (h', g')"
        by (simp add: x root_def)
      moreover have "up nm h n = None" using True by (simp add: up_def root_def)
      ultimately show ?thesis
        using Cons.IH [of h "Some n"] Cons.prems True
        by (auto simp: x split: list.splits)
    next
      case False
      then obtain p where p: "map_of nm (PreviousHash (block_at h n)) = Some p"
          and run: "link_loop nm es (link_child h n p) g = Inr (h', g')"
        using Cons.prems(3) by (auto simp: x root_def split: option.splits)
      have up: "up nm h n = Some p" using p False by (simp add: up_def root_def)
      note sim = link_child_simps [OF n in_store_map_of [OF Cons.prems(1) p]]
      have inv: "up nm (link_child h n p) = up nm h" "root (link_child h n p) = root h"
        by (auto simp: fun_eq_iff up_def root_def sim(2))
      show ?thesis
        using Cons.IH [OF _ _ run] Cons.prems(1,2) up False unfolding inv sim(1,2)
        by (auto simp: x sim in_store_def)
    qed
  qed simp
  then show "length h' = length h" "block_at h' a = block_at h a"
    "a < length h \<Longrightarrow> node_parent (h' ! a) =
      (if a \<in> snd ` set es \<and> up nm h a \<noteq> None then up nm h a else node_parent (h ! a))"
    "a < length h \<Longrightarrow> node_children (h' ! a) =
      node_children (h ! a) @ filter (\<lambda>n. up nm h n = Some a) (map snd es)"
    "g' = (case filter (root h) (map snd es) of [] \<Rightarrow> g | n # ns \<Rightarrow> Some (last (n # ns)))"
    by blast+
qed

section \<open>The map of the blocks\<close>

text \<open>The block a hash stands for: the last one in the list.\<close>

definition latest :: "Block list \<Rightarrow> string \<Rightarrow> Block option" where
  "latest blocks = map_of (rev (map (\<lambda>b. (Hash b, b)) blocks))"

lemma map_of_node_map:
  "map_of (node_map i blocks nm) = map_of nm ++ map_of (rev (zip (map Hash blocks) [i..<i + length blocks]))"
proof (induction blocks arbitrary: i nm)
  case (Cons b blocks)
  have "[i..<i + length (b # blocks)] = i # [i + 1..<i + 1 + length blocks]"
    using upt_conv_Cons [of i "i + length (b # blocks)"] by simp
  then show ?case
    using Cons.IH [of "i + 1" "AList.update (Hash b) i nm"]
    by (simp add: update_conv' map_add_upd_left [symmetric] map_add_assoc [symmetric] fun_eq_iff map_add_def
        split: option.splits)
qed simp

lemma distinct_node_map: "distinct (gokeys nm) \<Longrightarrow> distinct (gokeys (node_map i blocks nm))"
  by (induction blocks arbitrary: i nm) (simp_all add: distinct_update)

lemma map_of_rev_zip_nth:
  "map_of (rev (zip ks [0..<length ks])) k = Some a \<Longrightarrow> a < length ks \<and> ks ! a = k"
  by (force dest!: map_of_SomeD simp: in_set_zip)

lemma rev_map_compose:
  "map_of (rev (map (\<lambda>b. (f b, b)) bs)) k = map_option (\<lambda>a. bs ! a) (map_of (rev (zip (map f bs) [0..<length bs])) k)"
proof -
  have "map (\<lambda>b. (f b, b)) bs = map (\<lambda>(k, a). (k, bs ! a)) (zip (map f bs) [0..<length bs])"
    by (rule nth_equalityI) simp_all
  then have "rev (map (\<lambda>b. (f b, b)) bs) = map (\<lambda>(k, a). (k, bs ! a)) (rev (zip (map f bs) [0..<length bs]))"
    by (simp add: rev_map)
  then show ?thesis by (simp add: map_of_map)
qed

abbreviation block_map :: "Block list \<Rightarrow> (string, addr) gomap" where
  "block_map blocks \<equiv> node_map 0 blocks []"

lemma block_map_latest: "latest blocks k = map_option (\<lambda>a. blocks ! a) (map_of (block_map blocks) k)"
  unfolding latest_def map_of_node_map by (simp add: rev_map_compose)

lemma block_map_nth:
  "map_of (block_map blocks) k = Some a \<Longrightarrow> a < length blocks \<and> Hash (blocks ! a) = k"
  unfolding map_of_node_map using map_of_rev_zip_nth [of "map Hash blocks" k a] by auto

lemma block_map_distinct [simp]: "distinct (gokeys (block_map blocks))"
  by (rule distinct_node_map) simp

lemma block_map_entry:
  assumes "(k, a) \<in> set (block_map blocks)"
  shows "map_of (block_map blocks) k = Some a" "a < length blocks" "Hash (blocks ! a) = k"
proof -
  show m: "map_of (block_map blocks) k = Some a" using assms by simp
  show "a < length blocks" "Hash (blocks ! a) = k" using block_map_nth [OF m] by simp_all
qed

lemma block_map_values: "distinct (map snd (block_map blocks))"
proof -
  have "map fst (block_map blocks) = map (\<lambda>a. Hash (blocks ! a)) (map snd (block_map blocks))"
    using block_map_entry(3) by auto
  then show ?thesis by (metis block_map_distinct distinct_map)
qed

lemma alloc_block [simp]: "a < length blocks \<Longrightarrow> alloc_nodes [] blocks ! a = newNode (blocks ! a) None"
  by (simp add: alloc_nodes_def)

lemma length_alloc [simp]: "length (alloc_nodes [] blocks) = length blocks"
  by (simp add: alloc_nodes_def)

lemma block_map_in_store: "in_store (block_map blocks) (alloc_nodes [] blocks)"
  using block_map_entry(2) by (fastforce simp: in_store_def)

section \<open>The rebuilt tree\<close>

text \<open>The store that linking makes out of a list of blocks.\<close>

definition relinked :: "(string, addr) iter \<Rightarrow> Block list \<Rightarrow> Node list \<Rightarrow> bool" where
  "relinked it blocks h \<longleftrightarrow> length h = length blocks \<and>
     (\<forall>a < length blocks. block_at h a = blocks ! a \<and>
        node_parent (h ! a) =
          (if a \<in> snd ` set (block_map blocks) then up (block_map blocks) h a else None) \<and>
        node_children (h ! a) =
          filter (\<lambda>n. up (block_map blocks) h n = Some a) (map snd (it (block_map blocks))))"

lemma up_cong: "block_at h a = block_at h' a \<Longrightarrow> up nm h a = up nm h' a"
  by (simp add: up_def)

lemma relinked_loop:
  assumes "is_iter it"
    and run: "link_loop (block_map blocks) (it (block_map blocks)) (alloc_nodes [] blocks) None = Inr (h, g)"
  shows "relinked it blocks h"
proof -
  let ?nm = "block_map blocks" and ?h = "alloc_nodes [] blocks"
  have es: "snd ` set (it ?nm) = snd ` set ?nm" "snd ` set (it ?nm) \<subseteq> {..<length ?h}"
    using iter_set [OF assms(1)] block_map_in_store unfolding in_store_def by auto
  note link = link_loop_Inr [OF block_map_in_store es(2) run]
  have "up ?nm h = up ?nm ?h"
    using link(2) by (auto simp: fun_eq_iff up_def)
  then show ?thesis
    unfolding relinked_def using link(1) link(2) link(3,4) es(1) by (auto simp: newNode_def)
qed

lemma relinkedD:
  assumes "relinked it blocks h"
  shows relinked_length: "length h = length blocks"
    and relinked_block: "a < length h \<Longrightarrow> block_at h a = blocks ! a"
    and relinked_up: "a < length h \<Longrightarrow> node_parent (h ! a) =
          (if a \<in> snd ` set (block_map blocks) then up (block_map blocks) h a else None)"
    and relinked_children: "a < length h \<Longrightarrow> node_children (h ! a) =
          filter (\<lambda>n. up (block_map blocks) h n = Some a) (map snd (it (block_map blocks)))"
  using assms unfolding relinked_def by simp_all

lemma relinked_parent:
  assumes "relinked it blocks h" and "a < length h" and "node_parent (h ! a) = Some p"
  shows "p < length h" and "p \<in> snd ` set (block_map blocks)"
proof -
  have m: "map_of (block_map blocks) (PreviousHash (block_at h a)) = Some p"
    using assms(3) unfolding relinked_up [OF assms(1,2)] up_def
    by (simp only: split: if_splits) simp_all
  from block_map_nth [OF m] assms(1) show "p < length h" by (simp add: relinked_def)
  from map_of_SomeD [OF m] show "p \<in> snd ` set (block_map blocks)" by (rule rev_image_eqI) simp
qed

lemma relinked_chain_bound:
  assumes "relinked it blocks h" and "chain h x as" and "\<forall>a. x = Some a \<longrightarrow> a < length h"
  shows "length as \<le> length h"
proof -
  have "set as \<subseteq> {..<length h}"
    using assms(2,3) by (induction as arbitrary: x) (auto dest: relinked_parent [OF assms(1)])
  then have "card (set as) \<le> length h"
    by (metis card_lessThan card_mono finite_lessThan)
  then show ?thesis using chain_distinct [OF assms(2)] by (simp add: distinct_card)
qed

lemma relinked_latest:
  assumes "relinked it blocks h"
  shows "map_option (block_at h) (map_of (block_map blocks) k) = latest blocks k"
  using block_map_nth [of blocks k] relinked_block [OF assms] relinked_length [OF assms]
  by (cases "map_of (block_map blocks) k") (simp_all add: block_map_latest)

text \<open>The search from a node without parent ends on every rebuilt store, even when other nodes
  form cycles: a node is a child of its parent only.\<close>

lemma relinked_search_ends:
  assumes it: "is_iter it" and re: "relinked it blocks h" and "g < length h" "node_parent (h ! g) = None"
  shows "\<exists>xs. visits h [0] [g] xs"
proof -
  let ?L = "{a. a < length h \<and> chain_blocks h (Some a) \<noteq> None}"
  let ?rank = "\<lambda>a. length h - length (the (chain_blocks h (Some a)))"
  have child: "c \<in> ?L \<and> ?rank c < ?rank n" if n: "n \<in> ?L" and c: "c \<in> set (node_children (h ! n))" for n c
  proof -
    have "up (block_map blocks) h c = Some n" and mem: "c \<in> snd ` set (block_map blocks)"
      using c n re iter_set [OF it] by (auto simp: relinked_def)
    moreover have cl: "c < length h"
      using mem block_map_entry(2) re by (auto simp: relinked_def)
    ultimately have p: "node_parent (h ! c) = Some n"
      using re by (simp add: relinked_def)
    obtain as where as: "chain h (Some n) as" "chain_blocks h (Some n) = Some (map (block_at h) as)"
      using n chain_blocks_Some [of h "Some n"] by blast
    have "chain h (Some c) (c # as)" using as(1) p by simp
    from relinked_chain_bound [OF re this] chain_blocks_chain [OF this] as(2) cl
    show ?thesis by simp
  qed
  show ?thesis
    using assms(3,4) by (intro visits_exist [where L = ?L and rank = ?rank] child) (auto simp: chain_blocks_step)
qed

lemma Unmarshall_run:
  assumes "is_iter it"
    and run: "link_loop (block_map blocks) (it (block_map blocks)) (alloc_nodes [] blocks) None = Inr (h, Some g)"
  shows "\<exists>ln. UnmarshallBlockchain it blocks = Some (Inr
    \<lparr>bc_genesis = g, bc_lastNode = ln, bc_m = block_map blocks, bc_config = zero_Settings, bc_heap = h\<rparr>)"
    and "g \<in> snd ` set (block_map blocks)" and "PreviousHash (block_at h g) = []"
proof -
  let ?nm = "block_map blocks" and ?h = "alloc_nodes [] blocks"
  have re: "relinked it blocks h" using relinked_loop [OF assms] .
  have es: "snd ` set (it ?nm) = snd ` set ?nm" "snd ` set (it ?nm) \<subseteq> {..<length ?h}"
    using iter_set [OF assms(1)] block_map_in_store unfolding in_store_def by auto
  note link = link_loop_Inr [OF block_map_in_store es(2) run]
  have "\<exists>ns. filter (root ?h) (map snd (it ?nm)) = ns \<and> ns \<noteq> [] \<and> g = last ns"
    using link(5) by (auto split: list.splits)
  then have "g \<in> set (filter (root ?h) (map snd (it ?nm)))"
    using last_in_set by blast
  then have mem: "g \<in> snd ` set ?nm" and rt: "root ?h g"
    using es(1) by auto
  then show "g \<in> snd ` set ?nm" "PreviousHash (block_at h g) = []"
    using link(2) by (auto simp: root_def)
  have gl: "g < length h"
    using mem block_map_entry(2) re by (auto simp: relinked_def)
  have "node_parent (h ! g) = None"
    using re gl rt link(2) by (simp add: relinked_def up_def root_def)
  then obtain xs where "visits h [0] [g] xs"
    using relinked_search_ends [OF assms(1) re gl] by blast
  from last_loop_visits [OF this, of "(0, g, [g])"] run
  show "\<exists>ln. UnmarshallBlockchain it blocks = Some (Inr
    \<lparr>bc_genesis = g, bc_lastNode = ln, bc_m = ?nm, bc_config = zero_Settings, bc_heap = h\<rparr>)"
    by (simp add: UnmarshallBlockchain_def getLastNodes_def Let_def split: prod.splits)
qed

lemma ran_latest: "b \<in> ran (latest blocks) \<longleftrightarrow> (\<exists>a \<in> snd ` set (block_map blocks). b = blocks ! a)"
proof -
  have "b \<in> ran (latest blocks) \<longleftrightarrow> (\<exists>k a. map_of (block_map blocks) k = Some a \<and> b = blocks ! a)"
    by (auto simp: ran_def block_map_latest)
  then show ?thesis by force
qed

lemma orphan_latest:
  "(\<exists>n \<in> snd ` set (block_map blocks). orphan (block_map blocks) (alloc_nodes [] blocks) n) \<longleftrightarrow>
   (\<exists>b \<in> ran (latest blocks). PreviousHash b \<noteq> [] \<and> latest blocks (PreviousHash b) = None)"
proof -
  have "orphan (block_map blocks) (alloc_nodes [] blocks) a \<longleftrightarrow>
      PreviousHash (blocks ! a) \<noteq> [] \<and> latest blocks (PreviousHash (blocks ! a)) = None"
    if "a \<in> snd ` set (block_map blocks)" for a
  proof -
    have "a < length blocks" using that block_map_entry(2) by force
    then show ?thesis by (simp add: orphan_def newNode_def block_map_latest)
  qed
  then show ?thesis unfolding Bex_def ran_latest by blast
qed

definition has_orphan :: "Block list \<Rightarrow> bool" where
  "has_orphan blocks \<longleftrightarrow>
     (\<exists>b \<in> ran (latest blocks). PreviousHash b \<noteq> [] \<and> latest blocks (PreviousHash b) = None)"

definition has_root :: "Block list \<Rightarrow> bool" where
  "has_root blocks \<longleftrightarrow> (\<exists>b \<in> ran (latest blocks). PreviousHash b = [])"

abbreviation relink :: "(string, addr) iter \<Rightarrow> Block list \<Rightarrow> bc_error + (Node list \<times> addr option)" where
  "relink it blocks \<equiv>
     link_loop (block_map blocks) (it (block_map blocks)) (alloc_nodes [] blocks) None"

lemma relink_Inl:
  assumes "is_iter it"
  shows "relink it blocks = Inl e \<longleftrightarrow> e = NoParentForNode \<and> has_orphan blocks"
proof -
  have es: "snd ` set (it (block_map blocks)) = snd ` set (block_map blocks)"
    using iter_set [OF assms] by simp
  then show ?thesis
    using link_loop_Inl [OF block_map_in_store, of "it (block_map blocks)" blocks None e]
      block_map_in_store [of blocks]
    unfolding orphan_latest has_orphan_def in_store_def es by blast
qed

lemma relink_root:
  assumes "is_iter it" and "relink it blocks = Inr (h, g)"
  shows "g \<noteq> None \<longleftrightarrow> has_root blocks"
proof -
  let ?nm = "block_map blocks" and ?h = "alloc_nodes [] blocks"
  have es: "snd ` set (it ?nm) = snd ` set ?nm" "snd ` set (it ?nm) \<subseteq> {..<length ?h}"
    using iter_set [OF assms(1)] block_map_in_store unfolding in_store_def by auto
  have "root ?h a \<longleftrightarrow> PreviousHash (blocks ! a) = []" if "a \<in> snd ` set ?nm" for a
    using that block_map_entry(2) by (fastforce simp: root_def newNode_def)
  then have "has_root blocks \<longleftrightarrow> (\<exists>a \<in> snd ` set ?nm. root ?h a)"
    unfolding has_root_def ran_latest Bex_def by blast
  also have "\<dots> \<longleftrightarrow> filter (root ?h) (map snd (it ?nm)) \<noteq> []"
    using es(1) by (fastforce simp: filter_empty_conv)
  also have "\<dots> \<longleftrightarrow> g \<noteq> None"
    using link_loop_Inr(5) [OF block_map_in_store es(2) assms(2)] by (simp split: list.splits)
  finally show ?thesis ..
qed

lemma relink_succeeds:
  assumes "is_iter it" "\<not> has_orphan blocks" "has_root blocks"
  obtains h g where "relink it blocks = Inr (h, Some g)"
  using relink_Inl [OF assms(1), of blocks] relink_root [OF assms(1), of blocks] assms(2,3)
  by (metis not_None_eq old.sum.exhaust surj_pair)

lemma Unmarshall_Inr:
  assumes "UnmarshallBlockchain it blocks = Some (Inr bc)"
  obtains h g where "relink it blocks = Inr (h, Some g)"
proof (cases "relink it blocks")
  case (Inr r)
  obtain h g where "r = (h, g)" by fastforce
  with Inr assms that show ?thesis
    by (cases g) (simp_all add: UnmarshallBlockchain_def Let_def)
qed (use assms in \<open>simp add: UnmarshallBlockchain_def Let_def\<close>)

lemma Unmarshall_tree:
  assumes "is_iter it" and run: "relink it blocks = Inr (h, Some g)"
  shows "\<exists>bc. UnmarshallBlockchain it blocks = Some (Inr bc) \<and> bc_config bc = zero_Settings \<and>
    (\<forall>k. GetBlock bc k = latest blocks k) \<and> PreviousHash (block_at (bc_heap bc) (bc_genesis bc)) = []"
proof -
  obtain ln where ln: "UnmarshallBlockchain it blocks = Some (Inr
      \<lparr>bc_genesis = g, bc_lastNode = ln, bc_m = block_map blocks, bc_config = zero_Settings, bc_heap = h\<rparr>)"
    using Unmarshall_run(1) [OF assms] by blast
  then show ?thesis
    using Unmarshall_run(3) [OF assms] relinked_latest [OF relinked_loop [OF assms]]
    by (simp add: ln GetBlock_def)
qed

text \<open>C23: \<^verbatim>\<open>UnmarshallBlockchain\<close> returns on every list of blocks, in every iteration order:
  an error if some block names a predecessor that is not in the list, otherwise an error if no
  block has an empty predecessor, and otherwise a tree with exactly the blocks of the list (the
  last one for each hash), with a block without predecessor as its genesis block and the zero
  configuration.\<close>

theorem UnmarshallBlockchain_outcome:
  assumes "is_iter it"
  shows "if has_orphan blocks then UnmarshallBlockchain it blocks = Some (Inl NoParentForNode)
    else if \<not> has_root blocks then UnmarshallBlockchain it blocks = Some (Inl NoGenesisBlock)
    else \<exists>bc. UnmarshallBlockchain it blocks = Some (Inr bc) \<and> bc_config bc = zero_Settings \<and>
      (\<forall>k. GetBlock bc k = latest blocks k) \<and> PreviousHash (block_at (bc_heap bc) (bc_genesis bc)) = []"
proof (cases "relink it blocks")
  case (Inl e)
  then have "UnmarshallBlockchain it blocks = Some (Inl e)"
    by (simp add: UnmarshallBlockchain_def Let_def)
  with Inl show ?thesis using relink_Inl [OF assms, of blocks e] by simp
next
  case (Inr r)
  obtain h g where r: "r = (h, g)" by fastforce
  have no: "\<not> has_orphan blocks"
    using relink_Inl [OF assms, of blocks NoParentForNode] Inr by simp
  show ?thesis
  proof (cases g)
    case None
    then have "UnmarshallBlockchain it blocks = Some (Inl NoGenesisBlock)"
      using Inr by (simp add: UnmarshallBlockchain_def r Let_def)
    then show ?thesis using no relink_root [OF assms Inr [unfolded r]] None by simp
  next
    case (Some g')
    then show ?thesis
      using no relink_root [OF assms Inr [unfolded r]] Unmarshall_tree [OF assms Inr [unfolded r Some]] by simp
  qed
qed

theorem UnmarshallBlockchain_outcome_witness:
  "UnmarshallBlockchain rev [block1] = Some (Inl NoParentForNode) \<and>
   UnmarshallBlockchain rev [] = Some (Inl NoGenesisBlock) \<and>
   (\<exists>bc. UnmarshallBlockchain rev [block1, NewGenesisBlock 0 ''g''] = Some (Inr bc) \<and>
      GetBlock bc ''1'' = Some block1)"
proof -
  have genesis: "PreviousHash (NewGenesisBlock 0 ''g'') = []" by (simp add: NewGenesisBlock_def)
  have "has_orphan [block1]" "\<not> has_orphan []" "\<not> has_root []"
    by (auto simp: latest_def has_orphan_def has_root_def)
  moreover have l: "latest [block1, NewGenesisBlock 0 ''g''] =
      [''1'' \<mapsto> block1, ''g'' \<mapsto> NewGenesisBlock 0 ''g'']"
    by (auto simp: latest_def NewGenesisBlock_def)
  moreover have "ran (latest [block1, NewGenesisBlock 0 ''g'']) = {block1, NewGenesisBlock 0 ''g''}"
    unfolding l by (simp add: insert_commute)
  then have "\<not> has_orphan [block1, NewGenesisBlock 0 ''g'']" "has_root [block1, NewGenesisBlock 0 ''g'']"
    unfolding has_orphan_def has_root_def by (simp_all add: l genesis)
  ultimately show ?thesis
    using UnmarshallBlockchain_outcome [OF is_iter_rev, of "[block1]"]
      UnmarshallBlockchain_outcome [OF is_iter_rev, of "[]"]
      UnmarshallBlockchain_outcome [OF is_iter_rev, of "[block1, NewGenesisBlock 0 ''g'']"]
    by auto
qed

section \<open>Round trip\<close>

text \<open>The tree can be rebuilt from its blocks when only the genesis block has an empty
  predecessor.\<close>

definition rooted :: "Blockchain \<Rightarrow> bool" where
  "rooted bc \<longleftrightarrow> PreviousHash (block_at (bc_heap bc) (bc_genesis bc)) = [] \<and> \<not> HasBlock bc []"

lemma latest_GetBlocks:
  assumes inv: "bc_inv bc" and it: "is_iter it"
  shows "latest (GetBlocks it bc) = GetBlock bc"
proof
  fix k
  let ?es = "it (bc_m bc)" and ?f = "block_at (bc_heap bc)"
  have key: "Hash (?f a) = k" if "(k, a) \<in> set ?es" for k a
    using that inv iter_set [OF it, of "bc_m bc"] by (auto simp: bc_inv_def map_inv_def)
  have dist: "distinct (map fst ?es)" and m: "map_of ?es = map_of (bc_m bc)"
    using inv iter_distinct_keys [OF it] map_of_iter [OF it] by (auto simp: bc_inv_def map_inv_def)
  have "map (\<lambda>b. (Hash b, b)) (GetBlocks it bc) = map (\<lambda>(k, a). (k, ?f a)) ?es"
    using key by (auto simp: GetBlocks_def)
  then have "latest (GetBlocks it bc) k = map_of (map (\<lambda>(k, a). (k, ?f a)) (rev ?es)) k"
    by (simp add: latest_def rev_map)
  also have "\<dots> = map_option ?f (map_of (rev ?es) k)"
    by (simp add: map_of_map)
  also have "map_of (rev ?es) = map_of (bc_m bc)"
  proof -
    have "distinct (map fst (rev ?es))" using dist by (simp add: rev_map [symmetric])
    then show ?thesis using dist m map_of_inject_set [of "rev ?es" ?es] by simp
  qed
  finally show "latest (GetBlocks it bc) k = GetBlock bc k"
    by (simp add: GetBlock_def)
qed

lemma rooted_prev:
  assumes "bc_inv bc" "rooted bc" "a \<in> live bc"
  shows "PreviousHash (block_at (bc_heap bc) a) = [] \<longleftrightarrow> a = bc_genesis bc"
proof (cases "a = bc_genesis bc")
  case False
  with assms(1,3) obtain p where "map_of (bc_m bc) (PreviousHash (block_at (bc_heap bc) a)) = Some p"
    unfolding bc_inv_def parent_inv_def by blast
  with assms(2) False show ?thesis by (auto simp: rooted_def HasBlock_def)
qed (use assms(2) in \<open>simp add: rooted_def\<close>)

lemma rooted_step:
  assumes inv: "bc_inv bc" "rooted bc" and k: "map_of (bc_m bc) k = Some a"
  shows "node_parent (bc_heap bc ! a) =
    (let b = block_at (bc_heap bc) a
     in if PreviousHash b = [] then None else map_of (bc_m bc) (PreviousHash b))"
  using rooted_prev [OF inv map_of_live [OF k]] inv(1) map_of_live [OF k]
  unfolding bc_inv_def parent_inv_def Let_def by metis

lemma relinked_same_chain:
  assumes inv: "bc_inv bc" "rooted bc" and re: "relinked it blocks h"
    and same: "latest blocks = GetBlock bc"
    and "map_of (bc_m bc) k = Some a" and "chain_blocks (bc_heap bc) (Some a) = Some bs"
  shows "\<exists>a'. map_of (block_map blocks) k = Some a' \<and> chain_blocks h (Some a') = Some bs"
  using assms(5,6)
proof (induction bs arbitrary: k a)
  case (Cons b bs)
  have b: "b = block_at (bc_heap bc) a" and rest: "chain_blocks (bc_heap bc) (node_parent (bc_heap bc ! a)) = Some bs"
    using Cons.prems(2) by (auto simp: chain_blocks_step [of _ a])
  have "latest blocks k = Some b"
    using same Cons.prems(1) b by (simp add: GetBlock_def)
  then obtain a' where a': "map_of (block_map blocks) k = Some a'" "blocks ! a' = b"
    by (auto simp: block_map_latest simp del: map_of_eq_Some_iff)
  have len: "a' < length h" and mem: "a' \<in> snd ` set (block_map blocks)"
    using block_map_nth [OF a'(1)] relinked_length [OF re] map_of_SomeD [OF a'(1)] by (auto intro: rev_image_eqI)
  have "chain_blocks h (node_parent (h ! a')) = Some bs"
  proof (cases "PreviousHash b = []")
    case True
    with rooted_step [OF inv Cons.prems(1)] rest b have "bs = []" by simp
    then show ?thesis using True a'(2) by (simp add: relinked_up [OF re len] relinked_block [OF re len] up_def)
  next
    case False
    with rooted_step [OF inv Cons.prems(1)] b have par: "node_parent (bc_heap bc ! a) = map_of (bc_m bc) (PreviousHash b)"
      by simp
    then obtain p where p: "map_of (bc_m bc) (PreviousHash b) = Some p"
      using False rooted_prev [OF inv map_of_live [OF Cons.prems(1)]] inv(1) map_of_live [OF Cons.prems(1)] b
      unfolding bc_inv_def parent_inv_def by metis
    obtain p' where "map_of (block_map blocks) (PreviousHash b) = Some p'" "chain_blocks h (Some p') = Some bs"
      using Cons.IH [OF p] rest par p by auto
    then show ?thesis
      using False a'(2) mem by (simp add: relinked_up [OF re len] relinked_block [OF re len] up_def)
  qed
  then show ?case
    using a' relinked_block [OF re len] by (simp add: chain_blocks_step [of h a'])
qed (simp add: chain_blocks_step)

lemma rebuilt_nodes:
  assumes inv: "bc_inv bc" "rooted bc" and re: "relinked it blocks h"
    and same: "latest blocks = GetBlock bc" and a: "a \<in> snd ` set (block_map blocks)"
  obtains k c where "map_of (block_map blocks) k = Some a" "map_of (bc_m bc) k = Some c"
    "block_at h a = block_at (bc_heap bc) c" "a < length h" "Hash (block_at h a) = k"
proof -
  obtain k where k: "(k, a) \<in> set (block_map blocks)" using a by auto
  note e = block_map_entry [OF k]
  have len: "a < length h" using e(2) relinked_length [OF re] by simp
  have "GetBlock bc k = Some (blocks ! a)"
    using e(1) by (simp add: same [symmetric] block_map_latest)
  then obtain c where "map_of (bc_m bc) k = Some c" "blocks ! a = block_at (bc_heap bc) c"
    by (auto simp: GetBlock_def)
  then show ?thesis
    using that e len relinked_block [OF re len] by simp
qed

lemma rebuilt_parent:
  assumes inv: "bc_inv bc" "rooted bc" and re: "relinked it blocks h"
    and same: "latest blocks = GetBlock bc"
    and g: "g \<in> snd ` set (block_map blocks)" "PreviousHash (block_at h g) = []"
    and a: "a \<in> snd ` set (block_map blocks)" "a \<noteq> g"
  shows "\<exists>p. node_parent (h ! a) = Some p \<and>
    map_of (block_map blocks) (PreviousHash (block_at h a)) = Some p"
proof -
  obtain k c where k: "map_of (block_map blocks) k = Some a" "map_of (bc_m bc) k = Some c"
    "block_at h a = block_at (bc_heap bc) c" "a < length h"
    using rebuilt_nodes [OF inv re same a(1)] by metis
  obtain k' c' where k': "map_of (block_map blocks) k' = Some g" "map_of (bc_m bc) k' = Some c'"
    "block_at h g = block_at (bc_heap bc) c'"
    using rebuilt_nodes [OF inv re same g(1)] by metis
  have "c \<noteq> c'"
    using k k' a(2) bc_inv_map_of [OF inv(1)] by (metis option.inject)
  moreover have "c' = bc_genesis bc"
    using rooted_prev [OF inv map_of_live [OF k'(2)]] g(2) k'(3) by simp
  ultimately obtain q where q: "map_of (bc_m bc) (PreviousHash (block_at (bc_heap bc) c)) = Some q"
      and ne: "PreviousHash (block_at (bc_heap bc) c) \<noteq> []"
    using rooted_prev [OF inv map_of_live [OF k(2)]] inv(1) map_of_live [OF k(2)]
    unfolding bc_inv_def parent_inv_def by metis
  then have "latest blocks (PreviousHash (block_at h a)) \<noteq> None"
    using k(3) by (simp add: same GetBlock_def)
  then obtain p where "map_of (block_map blocks) (PreviousHash (block_at h a)) = Some p"
    by (auto simp: block_map_latest)
  then show ?thesis
    using relinked_up [OF re k(4)] a(1) ne k(3) by (simp add: up_def)
qed

lemma rebuilt_inv:
  assumes it: "is_iter it" and inv: "bc_inv bc" "rooted bc" and re: "relinked it blocks h"
    and same: "latest blocks = GetBlock bc"
    and g: "g \<in> snd ` set (block_map blocks)" "PreviousHash (block_at h g) = []"
  shows "bc_inv \<lparr>bc_genesis = g, bc_lastNode = g, bc_m = block_map blocks, bc_config = cfg, bc_heap = h\<rparr>"
    (is "bc_inv ?bc")
proof -
  have live: "live ?bc = snd ` set (block_map blocks)" by (simp add: live_def)
  have len: "a < length h" if "a \<in> live ?bc" for a
    using that unfolding live by (rule rebuilt_nodes [OF inv re same])
  have "map_inv ?bc"
    using block_map_entry relinkedD(1,2) [OF re] by (auto simp: map_inv_def)
  moreover have "parent_inv ?bc"
  proof -
    have "node_parent (h ! g) = None"
      using g len [of g] relinked_up [OF re] by (simp add: live up_def)
    moreover have "chain_blocks h (Some a) \<noteq> None" if al: "a \<in> live ?bc" for a
    proof -
      obtain k c where k: "map_of (block_map blocks) k = Some a" "map_of (bc_m bc) k = Some c"
        using rebuilt_nodes [OF inv re same al [unfolded live]] by metis
      obtain bs where "chain_blocks (bc_heap bc) (Some c) = Some bs"
        using bc_inv_chain_Cons [OF inv(1) map_of_live [OF k(2)]] by blast
      from relinked_same_chain [OF inv re same k(2) this] k(1) show ?thesis by auto
    qed
    ultimately show ?thesis
      using g(1) rebuilt_parent [OF inv re same g] unfolding parent_inv_def live by simp
  qed
  moreover have "children_inv ?bc"
  proof -
    have "distinct (map snd (it (block_map blocks)))"
      using block_map_values iter_values [OF it] mset_eq_imp_distinct_iff by metis
    moreover have "snd ` set (it (block_map blocks)) = live ?bc"
      using iter_set [OF it] by (simp add: live)
    moreover have "node_parent (h ! a) = up (block_map blocks) h a" if "a \<in> live ?bc" for a
      using relinked_up [OF re len [OF that]] that by (simp add: live)
    ultimately have "distinct (node_children (h ! p)) \<and>
        set (node_children (h ! p)) = {a \<in> live ?bc. node_parent (h ! a) = Some p}" if "p \<in> live ?bc" for p
      unfolding relinked_children [OF re len [OF that]]
      by (simp only: distinct_filter set_filter list.set_map) auto
    then show ?thesis by (simp add: children_inv_def)
  qed
  ultimately show ?thesis by (simp add: bc_inv_def)
qed

text \<open>The blocks of a tree have their predecessors among them, and a root.\<close>

lemma GetBlocks_no_orphan:
  assumes inv: "bc_inv bc" "rooted bc" and same: "latest blocks = GetBlock bc"
  shows "\<not> has_orphan blocks"
proof
  assume "has_orphan blocks"
  then obtain k c where c: "map_of (bc_m bc) k = Some c" "PreviousHash (block_at (bc_heap bc) c) \<noteq> []"
    "map_of (bc_m bc) (PreviousHash (block_at (bc_heap bc) c)) = None"
    by (auto simp: has_orphan_def same ran_def GetBlock_def)
  then have "c \<noteq> bc_genesis bc" using inv(2) by (auto simp: rooted_def)
  with c map_of_live [OF c(1)] inv(1) show False
    unfolding bc_inv_def parent_inv_def by (metis option.distinct(1))
qed

lemma GetBlocks_has_root:
  assumes inv: "bc_inv bc" "rooted bc" and same: "latest blocks = GetBlock bc"
  shows "has_root blocks"
proof -
  have "GetBlock bc (Hash (block_at (bc_heap bc) (bc_genesis bc))) = Some (block_at (bc_heap bc) (bc_genesis bc))"
    using bc_inv_map_of [OF inv(1), of "Hash (block_at (bc_heap bc) (bc_genesis bc))" "bc_genesis bc"] inv(1)
    by (simp add: GetBlock_def bc_inv_def parent_inv_def)
  then show ?thesis
    using inv(2) unfolding has_root_def same rooted_def by (blast intro: ranI)
qed

lemma Unmarshall_rebuilds:
  assumes it: "is_iter it" "is_iter it'" and inv: "bc_inv bc" "rooted bc"
  obtains h g where "relinked it (GetBlocks it' bc) h" "latest (GetBlocks it' bc) = GetBlock bc"
    "PreviousHash (block_at h g) = []"
    "UnmarshallBlockchain it (GetBlocks it' bc) = Some (Inr (queried
      \<lparr>bc_genesis = g, bc_lastNode = g, bc_m = block_map (GetBlocks it' bc), bc_config = zero_Settings, bc_heap = h\<rparr>))"
    "bc_inv (queried \<lparr>bc_genesis = g, bc_lastNode = g, bc_m = block_map (GetBlocks it' bc), bc_config = zero_Settings, bc_heap = h\<rparr>)"
proof -
  let ?blocks = "GetBlocks it' bc"
  have same: "latest ?blocks = GetBlock bc" by (rule latest_GetBlocks [OF inv(1) it(2)])
  obtain h g where run: "relink it ?blocks = Inr (h, Some g)"
    using relink_succeeds [OF it(1)] GetBlocks_no_orphan [OF inv same] GetBlocks_has_root [OF inv same] by metis
  note re = relinked_loop [OF it(1) run] and g = Unmarshall_run(2,3) [OF it(1) run]
  let ?bc = "\<lparr>bc_genesis = g, bc_lastNode = g, bc_m = block_map ?blocks, bc_config = zero_Settings, bc_heap = h\<rparr>"
  have inv': "bc_inv ?bc" by (rule rebuilt_inv [OF it(1) inv re same g])
  obtain lns where "getLastNodes ?bc = Some (queried ?bc, lns)"
    using getLastNodes_tip [OF inv'] by metis
  then have "UnmarshallBlockchain it ?blocks = Some (Inr (queried ?bc))"
    using run by (simp add: UnmarshallBlockchain_def Let_def)
  with that re same g(2) bc_inv_lastNode [OF inv' tip_live [OF inv']] show ?thesis by blast
qed

lemma Unmarshall_GetBlocks:
  assumes it: "is_iter it" "is_iter it'" and inv: "bc_inv bc" "rooted bc"
  shows "\<exists>bc'. UnmarshallBlockchain it (GetBlocks it' bc) = Some (Inr bc') \<and> bc_inv bc' \<and> rooted bc' \<and>
    (\<forall>k. GetBlock bc' k = GetBlock bc k) \<and>
    (\<forall>k a. map_of (bc_m bc) k = Some a \<longrightarrow>
       (\<exists>a'. map_of (bc_m bc') k = Some a' \<and>
         chain_blocks (bc_heap bc') (Some a') = chain_blocks (bc_heap bc) (Some a)))"
proof (rule Unmarshall_rebuilds [OF assms])
  fix h g
  let ?blocks = "GetBlocks it' bc"
  let ?bc = "\<lparr>bc_genesis = g, bc_lastNode = g, bc_m = block_map ?blocks, bc_config = zero_Settings, bc_heap = h\<rparr>"
  assume re: "relinked it ?blocks h" and same: "latest ?blocks = GetBlock bc" and root: "PreviousHash (block_at h g) = []"
    and run: "UnmarshallBlockchain it ?blocks = Some (Inr (queried ?bc))" "bc_inv (queried ?bc)"
  have get: "GetBlock (queried ?bc) k = GetBlock bc k" for k
  proof -
    have "GetBlock (queried ?bc) k = map_option (block_at h) (map_of (block_map ?blocks) k)"
      by (simp add: GetBlock_def)
    then show ?thesis by (simp only: relinked_latest [OF re] same)
  qed
  have "\<exists>a'. map_of (bc_m (queried ?bc)) k = Some a' \<and>
      chain_blocks (bc_heap (queried ?bc)) (Some a') = chain_blocks (bc_heap bc) (Some a)"
    if k: "map_of (bc_m bc) k = Some a" for k a
  proof -
    obtain bs where bs: "chain_blocks (bc_heap bc) (Some a) = Some bs"
      using bc_inv_chain_Cons [OF inv(1) map_of_live [OF k]] by blast
    from relinked_same_chain [OF inv re same k bs] bs show ?thesis by simp
  qed
  moreover have "rooted (queried ?bc)"
    using get [of "[]"] inv(2) root by (auto simp: rooted_def HasBlock_def GetBlock_def)
  ultimately show ?thesis using run get by blast
qed

text \<open>A tree survives the trip over the network: \<^verbatim>\<open>UnmarshallBlockchain\<close> applied to
  what \<^verbatim>\<open>GetBlocks\<close> returns, in any iteration orders, succeeds with a well-formed tree
  that holds the same block for every hash, with the same chain back to the genesis block.\<close>

theorem Unmarshall_GetBlocks_roundtrip:
  assumes it: "is_iter it" "is_iter it'" and inv: "bc_inv bc" "rooted bc"
  shows "\<exists>bc'. UnmarshallBlockchain it (GetBlocks it' bc) = Some (Inr bc') \<and> bc_inv bc' \<and>
    (\<forall>k. GetBlock bc' k = GetBlock bc k) \<and>
    (\<forall>k a. map_of (bc_m bc) k = Some a \<longrightarrow>
       (\<exists>a'. map_of (bc_m bc') k = Some a' \<and>
         chain_blocks (bc_heap bc') (Some a') = chain_blocks (bc_heap bc) (Some a)))"
  using Unmarshall_GetBlocks [OF assms] by blast

theorem Unmarshall_GetBlocks_roundtrip_witness:
  "\<exists>bc'. UnmarshallBlockchain (\<lambda>m. m) (GetBlocks rev tree4) = Some (Inr bc') \<and> bc_inv bc' \<and>
    GetBlock bc' ''4'' = GetBlock tree4 ''4'' \<and>
    (\<exists>a'. map_of (bc_m bc') ''3'' = Some a' \<and>
      chain_blocks (bc_heap bc') (Some a') = Some [block3, block2, block1, NewGenesisBlock 0 ''g''])"
proof -
  have "rooted tree4"
    by (simp add: rooted_def HasBlock_def sample_map) (simp add: tree_defs sample_defs)
  moreover have "map_of (bc_m tree4) ''3'' = Some 3"
    "chain_blocks (bc_heap tree4) (Some 3) = Some [block3, block2, block1, NewGenesisBlock 0 ''g'']"
    by (simp_all add: sample_map sample_chains)
  ultimately show ?thesis
    using Unmarshall_GetBlocks_roundtrip [OF is_iter_id is_iter_rev sample_inv(5)] by metis
qed

section \<open>Blocks that name each other\<close>

lemma cyclic_walk:
  assumes "node_parent (h ! a) = Some c" "node_parent (h ! c) = Some a"
  shows "chain_blocks h (Some a) = None"
proof (cases "chain_blocks h (Some a)")
  case (Some bs)
  have "chain_blocks h (Some a) =
      map_option (Cons (block_at h a)) (map_option (Cons (block_at h c)) (chain_blocks h (Some a)))"
    using chain_blocks_step [of h a] chain_blocks_step [of h c] assms by metis
  with Some show ?thesis by simp
qed

text \<open>C37: \<^verbatim>\<open>UnmarshallBlockchain\<close> accepts blocks that name each other as predecessors, next to
  a genesis block. In the tree it returns, \<^verbatim>\<open>AddBlock\<close> never returns for an unknown block
  with a proof of work and with operations whose predecessor is one of them: the loop back to the
  genesis block does not end.\<close>

theorem cyclic_peer_blocks_hang_AddBlock:
  assumes "is_iter it" and bc: "UnmarshallBlockchain it blocks = Some (Inr bc)"
    and b1: "latest blocks x = Some b1" "PreviousHash b1 = y" "y \<noteq> []"
    and b2: "latest blocks y = Some b2" "PreviousHash b2 = x" "x \<noteq> []"
    and b: "latest blocks (Hash b) = None" "PreviousHash b = x" "Operations b \<noteq> []"
      "Validate H (NewProofOfWork b (uint (block_difficulty cfg b)))"
  shows "AddBlock H it1 it2 (SetConfig bc cfg) b = None"
proof -
  obtain h g where run: "relink it blocks = Inr (h, Some g)"
    using Unmarshall_Inr [OF bc] .
  obtain ln where ln: "bc = \<lparr>bc_genesis = g, bc_lastNode = ln, bc_m = block_map blocks, bc_config = zero_Settings, bc_heap = h\<rparr>"
    using Unmarshall_run(1) [OF assms(1) run] bc by auto
  note re = relinked_loop [OF assms(1) run]
  have node: "\<exists>a. map_of (block_map blocks) k = Some a \<and>
      node_parent (h ! a) = map_of (block_map blocks) (PreviousHash c)"
    if "latest blocks k = Some c" "PreviousHash c \<noteq> []" for k c
  proof -
    from that(1) obtain a where a: "map_of (block_map blocks) k = Some a" "c = blocks ! a"
      by (auto simp: block_map_latest simp del: map_of_eq_Some_iff)
    have "a < length h" "a \<in> snd ` set (block_map blocks)"
      using block_map_nth [OF a(1)] relinked_length [OF re] map_of_SomeD [OF a(1)] by (auto intro: rev_image_eqI)
    with relinked_up [OF re this(1)] relinked_block [OF re this(1)] a that(2) show ?thesis
      by (simp add: up_def)
  qed
  obtain a c where "map_of (block_map blocks) x = Some a" "node_parent (h ! a) = Some c"
      "node_parent (h ! c) = Some a"
    using node [OF b1(1)] node [OF b2(1)] b1 b2 by auto
  then have "ValidateOperations it1 it2 (SetConfig bc cfg) (Operations b) x = None"
    using b(3) cyclic_walk [of h a c]
    by (simp add: ValidateOperations_def SetConfig_def ln walk_fold split: prod.splits)
  moreover have "map_of (block_map blocks) (Hash b) = None"
    using b(1) by (simp add: block_map_latest)
  ultimately show ?thesis
    using b by (simp add: AddBlock_def validateBlock_def SetConfig_def ln)
qed

theorem cyclic_peer_blocks_hang_AddBlock_witness:
  "\<exists>bc. UnmarshallBlockchain (\<lambda>m. m) [NewGenesisBlock 0 ''g'', sample_block ''E'' [] ''2'' ''1'',
      sample_block ''E'' [] ''1'' ''2''] = Some (Inr bc) \<and>
    AddBlock sample_host (\<lambda>m. m) (\<lambda>m. m) (SetConfig bc sample_cfg) block3 = None"
proof -
  let ?c1 = "sample_block ''E'' [] ''2'' ''1''" and ?c2 = "sample_block ''E'' [] ''1'' ''2''"
  let ?blocks = "[NewGenesisBlock 0 ''g'', ?c1, ?c2]"
  have f: "PreviousHash (NewGenesisBlock 0 ''g'') = []" "Hash (NewGenesisBlock 0 ''g'') = ''g''"
    "PreviousHash ?c1 = ''2''" "PreviousHash ?c2 = ''1''" "Hash ?c1 = ''1''" "Hash ?c2 = ''2''"
    "Operations block3 \<noteq> []"
    by (simp_all add: NewGenesisBlock_def sample_block_def block3_def)
  have l: "latest ?blocks = [''g'' \<mapsto> NewGenesisBlock 0 ''g'', ''1'' \<mapsto> ?c1, ''2'' \<mapsto> ?c2]"
    by (auto simp: latest_def f)
  have "ran (latest ?blocks) = {NewGenesisBlock 0 ''g'', ?c1, ?c2}"
    unfolding l by (simp add: insert_commute)
  then have "\<not> has_orphan ?blocks" "has_root ?blocks"
    unfolding has_orphan_def has_root_def by (simp_all add: l f)
  then obtain bc where bc: "UnmarshallBlockchain (\<lambda>m. m) ?blocks = Some (Inr bc)"
    using relink_succeeds [OF is_iter_id] Unmarshall_tree [OF is_iter_id] by metis
  have "AddBlock sample_host (\<lambda>m. m) (\<lambda>m. m) (SetConfig bc sample_cfg) block3 = None"
    by (rule cyclic_peer_blocks_hang_AddBlock [OF is_iter_id bc, where x = "''2''" and y = "''1''"
          and ?b1.0 = ?c2 and ?b2.0 = ?c1])
      (simp_all add: l f sample_pow)
  with bc show ?thesis by blast
qed

section \<open>Merging\<close>

lemma fold_update_new:
  "distinct (map fst (acc @ es)) \<Longrightarrow> fold (\<lambda>(k, v). AList.update k v) es acc = acc @ es"
proof (induction es arbitrary: acc)
  case (Cons x es)
  then have "AList.update (fst x) (snd x) acc = acc @ [x]"
    by (subst update_new) auto
  with Cons show ?case by (simp add: case_prod_beta)
qed simp

lemma getLastNodes_heap: "getLastNodes bc = Some (bc', ns) \<Longrightarrow> bc_heap bc' = bc_heap bc"
  by (auto simp: getLastNodes_def split: bind_splits)

lemma MergeBlocks_Inr:
  assumes "MergeBlocks it1 it2 bc blocks = Some (Inr bc')"
  defines "nm \<equiv> fold (\<lambda>(k, node). AList.update k node) (it1 (bc_m bc)) (node_map (length (bc_heap bc)) blocks [])"
  shows "\<exists>g. link_loop nm (it2 nm) (alloc_nodes (bc_heap bc) blocks) None = Inr (bc_heap bc', Some g)"
proof (cases "link_loop nm (it2 nm) (alloc_nodes (bc_heap bc) blocks) None")
  case (Inr r)
  obtain h g where r: "r = (h, g)" by fastforce
  show ?thesis
  proof (cases g)
    case (Some g')
    with assms(1) Inr show ?thesis
      by (auto simp: MergeBlocks_def Let_def nm_def [symmetric] r dest!: getLastNodes_heap split: bind_splits)
  qed (use assms(1) Inr in \<open>simp add: MergeBlocks_def Let_def nm_def [symmetric] r\<close>)
qed (use assms(1) in \<open>simp add: MergeBlocks_def Let_def nm_def [symmetric]\<close>)

lemma map_inv_values: "map_inv bc \<Longrightarrow> distinct (map snd (bc_m bc))"
proof -
  assume inv: "map_inv bc"
  then have "gokeys (bc_m bc) = map (\<lambda>a. Hash (block_at (bc_heap bc) a)) (map snd (bc_m bc))"
    by (auto simp: map_inv_def)
  with inv show ?thesis unfolding map_inv_def by (metis distinct_map)
qed

lemma rooted_up:
  assumes inv: "bc_inv bc" "rooted bc" and m: "map_of nm = map_of (bc_m bc)" and a: "a \<in> live bc"
  shows "up nm (bc_heap bc) a = node_parent (bc_heap bc ! a)"
proof -
  have "map_of (bc_m bc) (Hash (block_at (bc_heap bc) a)) = Some a"
    using a bc_inv_map_of [OF inv(1), of "Hash (block_at (bc_heap bc) a)" a] by blast
  from rooted_step [OF inv this] show ?thesis by (simp add: up_def m Let_def)
qed

lemma children_by_up:
  assumes inv: "bc_inv bc" "rooted bc" and m: "map_of nm = map_of (bc_m bc)" and p: "p \<in> live bc"
    and as: "distinct as" "set as = live bc"
  shows "length (filter (\<lambda>n. up nm (bc_heap bc) n = Some p) as) = length (node_children (bc_heap bc ! p))"
proof -
  have "set (node_children (bc_heap bc ! p)) = {a \<in> live bc. node_parent (bc_heap bc ! a) = Some p}"
    and dist: "distinct (node_children (bc_heap bc ! p))"
    using inv(1) p by (simp_all add: bc_inv_def children_inv_def)
  then have "set (filter (\<lambda>n. up nm (bc_heap bc) n = Some p) as) = set (node_children (bc_heap bc ! p))"
    using rooted_up [OF inv m] as(2) by auto
  with as(1) dist show ?thesis by (metis distinct_card distinct_filter)
qed

text \<open>\<^verbatim>\<open>MergeBlocks\<close> links nodes that are already linked once more: merging nothing
  into a tree doubles the list of children of every node.\<close>

theorem MergeBlocks_doubles_children:
  assumes it: "is_iter it1" "is_iter it2" and inv: "bc_inv bc" "rooted bc"
    and run: "MergeBlocks it1 it2 bc [] = Some (Inr bc')" and p: "p \<in> live bc"
  shows "length (node_children (bc_heap bc' ! p)) = 2 * length (node_children (bc_heap bc ! p))"
proof -
  let ?h = "bc_heap bc"
  define es where "es = it2 (it1 (bc_m bc))"
  have mi: "map_inv bc" using inv(1) by (simp add: bc_inv_def)
  then have keys: "distinct (gokeys (bc_m bc))" by (simp add: map_inv_def)
  have m: "map_of (it1 (bc_m bc)) = map_of (bc_m bc)"
    using map_of_iter [OF it(1) keys] .
  have nm: "fold (\<lambda>(k, node). AList.update k node) (it1 (bc_m bc)) [] = it1 (bc_m bc)"
    using fold_update_new [of "[]" "it1 (bc_m bc)"] iter_distinct_keys [OF it(1)] keys by simp
  have set: "set es = set (bc_m bc)" "set (it1 (bc_m bc)) = set (bc_m bc)"
    unfolding es_def using iter_set it by metis+
  have "mset (map snd es) = mset (map snd (bc_m bc))"
    unfolding es_def using iter_values it by metis
  then have dist: "distinct (map snd es)"
    using map_inv_values [OF mi] mset_eq_imp_distinct_iff by metis
  obtain h g where link: "link_loop (it1 (bc_m bc)) es ?h None = Inr (h, g)" and heap: "bc_heap bc' = h"
    using MergeBlocks_Inr [OF run] by (auto simp: alloc_nodes_def nm es_def)
  have bound: "snd ` set (bc_m bc) \<subseteq> {..<length ?h}"
    using live_bound [OF inv(1)] by (simp add: live_def)
  have "node_children (h ! p) =
      node_children (?h ! p) @ filter (\<lambda>n. up (it1 (bc_m bc)) ?h n = Some p) (map snd es)"
    using link_loop_Inr(4) [OF _ _ link, of p] bound bc_inv_bound [OF inv(1) p]
    by (simp add: in_store_def set)
  moreover have "length (filter (\<lambda>n. up (it1 (bc_m bc)) ?h n = Some p) (map snd es)) = length (node_children (?h ! p))"
    using children_by_up [OF inv m p dist] set(1) by (simp add: live_def)
  ultimately show ?thesis by (simp add: heap)
qed

theorem MergeBlocks_doubles_children_witness:
  "\<exists>bc'. MergeBlocks (\<lambda>m. m) (\<lambda>m. m) tree1 [] = Some (Inr bc') \<and>
     length (node_children (bc_heap bc' ! 0)) = 2"
proof -
  have "rooted tree1"
    by (simp add: rooted_def HasBlock_def sample_map) (simp add: tree_defs sample_defs)
  moreover have "\<exists>bc'. MergeBlocks (\<lambda>m. m) (\<lambda>m. m) tree1 [] = Some (Inr bc')"
    by (simp add: MergeBlocks_def alloc_nodes_def tree_defs sample_defs link_child_def getLastNodes_def
        last_loop.simps)
  moreover have "0 \<in> live tree1" "length (node_children (bc_heap tree1 ! 0)) = 1"
    by (simp_all add: live_def tree_defs sample_defs)
  ultimately show ?thesis
    using MergeBlocks_doubles_children [OF is_iter_id is_iter_id sample_inv(2)] by fastforce
qed

end
