(* ===== verification/Bclib_Codec.thy ===== *)
theory Bclib_Codec
  imports Bclib_Sync
begin

text \<open>
  Encoding of blocks and operations (\<^verbatim>\<open>bclib/block.go\<close>, \<^verbatim>\<open>operation.go\<close>,
  \<^verbatim>\<open>Blockchain.Marshall\<close>). The encoder and decoder of \<^verbatim>\<open>encoding/gob\<close> are
  the record \<open>gob\<close>, an argument. Both return an error next to their result, \<^term>\<open>None\<close> for
  \<^verbatim>\<open>nil\<close>; what they promise together is \<open>gob_faithful\<close>.
\<close>

record gob =
  enc_Block :: "Block \<Rightarrow> bytes \<times> string option"
  dec_Block :: "bytes \<Rightarrow> Block \<times> string option"
  enc_Blocks :: "Block list \<Rightarrow> bytes \<times> string option"
  dec_Blocks :: "bytes \<Rightarrow> Block list \<times> string option"
  dec_Operation :: "bytes \<Rightarrow> Operation \<times> string option"

text \<open>A value that is encoded is decoded to the same value, without errors.\<close>

definition gob_faithful :: "host \<Rightarrow> gob \<Rightarrow> bool" where
  "gob_faithful H G \<longleftrightarrow>
     (\<forall>b. snd (enc_Block G b) = None \<and> dec_Block G (fst (enc_Block G b)) = (b, None)) \<and>
     (\<forall>bs. snd (enc_Blocks G bs) = None \<and> dec_Blocks G (fst (enc_Blocks G bs)) = (bs, None)) \<and>
     (\<forall>oper. dec_Operation G (gob_Operation H oper) = (oper, None))"

datatype decode_error = DecodeBlockError string | DecodeOperationError string

fun decode_Error :: "decode_error \<Rightarrow> string" where
  "decode_Error (DecodeBlockError e) = ''Decoding Block - ['' @ e @ '']''"
| "decode_Error (DecodeOperationError e) = ''Decoding Operation - ['' @ e @ '']''"

definition zero_Block :: Block where
  "zero_Block = \<lparr>HeaderTimestamp = 0, Operations = [], PreviousHash = [], BlockMinerID = [], Hash = [], Nonce = 0\<rparr>"

definition MarshallBlock :: "gob \<Rightarrow> Block \<Rightarrow> bytes \<times> string option" where
  "MarshallBlock G b = enc_Block G b"

definition UnmarshallBlock :: "gob \<Rightarrow> bytes \<Rightarrow> Block \<times> decode_error option" where
  "UnmarshallBlock G b =
     (let (msg, err) = dec_Block G b
      in case err of
           Some e \<Rightarrow> (zero_Block, Some (DecodeBlockError e))
         | None \<Rightarrow> (msg, None))"

definition MarshallBlocks :: "gob \<Rightarrow> Block list \<Rightarrow> bytes \<times> string option" where
  "MarshallBlocks G blocks = enc_Blocks G blocks"

definition UnmarshallBlocks :: "gob \<Rightarrow> bytes \<Rightarrow> Block list \<times> string option" where
  "UnmarshallBlocks G data = dec_Blocks G data"

definition Marshall :: "gob \<Rightarrow> (string, addr) iter \<Rightarrow> Blockchain \<Rightarrow> bytes \<times> string option" where
  "Marshall G it bc = MarshallBlocks G (GetBlocks it bc)"

text \<open>On an error \<^verbatim>\<open>UnmarshallOperation\<close> also returns what has been decoded so far.\<close>

definition UnmarshallOperation :: "gob \<Rightarrow> bytes \<Rightarrow> Operation \<times> decode_error option" where
  "UnmarshallOperation G b =
     (let (msg, err) = dec_Operation G b
      in (msg, map_option DecodeOperationError err))"

section \<open>Round trips\<close>

lemma decode_outcomes:
  "UnmarshallBlock G data = (if snd (dec_Block G data) = None then (fst (dec_Block G data), None)
     else (zero_Block, Some (DecodeBlockError (the (snd (dec_Block G data))))))"
  "snd (UnmarshallOperation G data) = map_option DecodeOperationError (snd (dec_Operation G data))"
  by (auto simp: UnmarshallBlock_def UnmarshallOperation_def split: prod.split option.split)

text \<open>C10: A tree survives the trip through bytes. When gob decodes what it encodes, then
  \<^verbatim>\<open>Marshall\<close> succeeds, \<^verbatim>\<open>UnmarshallBlocks\<close> and
  \<^verbatim>\<open>UnmarshallBlockchain\<close> rebuild a well-formed tree with the same block for every hash and
  the same chains, in all iteration orders; a single block and an operation come back as they were, so the
  identifier of a decoded operation can be recomputed.\<close>

theorem Marshall_roundtrip:
  assumes gob: "gob_faithful H G" and it: "is_iter it" "is_iter it'" and inv: "bc_inv bc" "rooted bc"
  shows "\<exists>data blocks bc'. Marshall G it' bc = (data, None) \<and> UnmarshallBlocks G data = (blocks, None) \<and>
      UnmarshallBlockchain it blocks = Some (Inr bc') \<and> bc_inv bc' \<and> (\<forall>h. chain_view bc' h = chain_view bc h) \<and>
      UnmarshallBlock G (fst (MarshallBlock G b)) = (b, None) \<and>
      UnmarshallOperation G (MarshallOperation H oper) = (oper, None)"
proof -
  let ?blocks = "GetBlocks it' bc"
  obtain bc' where bc': "UnmarshallBlockchain it ?blocks = Some (Inr bc')" "bc_inv bc'" "\<forall>k. GetBlock bc' k = GetBlock bc k"
    and ch: "\<forall>k a. map_of (bc_m bc) k = Some a \<longrightarrow> (\<exists>a'. map_of (bc_m bc') k = Some a' \<and>
         chain_blocks (bc_heap bc') (Some a') = chain_blocks (bc_heap bc) (Some a))"
    using Unmarshall_GetBlocks [OF it inv] by blast
  have "chain_view bc' h = chain_view bc h" for h
  proof (cases "map_of (bc_m bc) h")
    case None
    then have "map_of (bc_m bc') h = None" using bc'(3) by (auto simp: GetBlock_def dest: spec [of _ h])
    with None show ?thesis by (simp add: chain_view_def)
  next
    case (Some a)
    with ch show ?thesis by (fastforce simp: chain_view_def)
  qed
  moreover have "Marshall G it' bc = (fst (enc_Blocks G ?blocks), None)" "UnmarshallBlocks G (fst (enc_Blocks G ?blocks)) = (?blocks, None)"
    using gob unfolding gob_faithful_def Marshall_def MarshallBlocks_def UnmarshallBlocks_def by (metis prod.collapse, blast)
  moreover have "UnmarshallBlock G (fst (MarshallBlock G b)) = (b, None)" "UnmarshallOperation G (MarshallOperation H oper) = (oper, None)"
    using gob by (simp_all add: gob_faithful_def UnmarshallBlock_def MarshallBlock_def UnmarshallOperation_def MarshallOperation_def)
  ultimately show ?thesis using bc'(1,2) by blast
qed

section \<open>A concrete encoding\<close>

text \<open>Writers and readers of fields that return the rest of the input; numbers are unary.\<close>

type_synonym 'a writer = "'a \<Rightarrow> bytes"
type_synonym 'a reader = "bytes \<Rightarrow> ('a \<times> bytes) option"

definition reads_back :: "'a writer \<Rightarrow> 'a reader \<Rightarrow> bool" where
  "reads_back put get \<longleftrightarrow> (\<forall>x rest. get (put x @ rest) = Some (x, rest))"

definition put_nat :: "nat writer" where "put_nat n = replicate n (CHR ''1'') @ ''0''"

fun get_nat :: "nat reader" where
  "get_nat [] = None"
| "get_nat (c # s) = (if c = CHR ''1'' then map_option (\<lambda>(n, r). (Suc n, r)) (get_nat s) else Some (0, s))"

definition put_map :: "('b \<Rightarrow> 'a) \<Rightarrow> 'a writer \<Rightarrow> 'b writer" where "put_map f put x = put (f x)"
definition get_map :: "('a \<Rightarrow> 'b) \<Rightarrow> 'a reader \<Rightarrow> 'b reader" where
  "get_map g get s = map_option (\<lambda>(x, r). (g x, r)) (get s)"

definition put_pair :: "'a writer \<Rightarrow> 'b writer \<Rightarrow> ('a \<times> 'b) writer" where
  "put_pair p q x = p (fst x) @ q (snd x)"
definition get_pair :: "'a reader \<Rightarrow> 'b reader \<Rightarrow> ('a \<times> 'b) reader" where
  "get_pair g h s = (case g s of None \<Rightarrow> None | Some (x, r) \<Rightarrow> map_option (\<lambda>(y, r'). ((x, y), r')) (h r))"

definition put_list :: "'a writer \<Rightarrow> 'a list writer" where
  "put_list p xs = put_nat (length xs) @ concat (map p xs)"
fun get_many :: "'a reader \<Rightarrow> nat \<Rightarrow> 'a list reader" where
  "get_many g 0 s = Some ([], s)"
| "get_many g (Suc n) s = (case g s of None \<Rightarrow> None | Some (x, r) \<Rightarrow> map_option (\<lambda>(xs, r'). (x # xs, r')) (get_many g n r))"
definition get_list :: "'a reader \<Rightarrow> 'a list reader" where
  "get_list g s = (case get_nat s of None \<Rightarrow> None | Some (n, r) \<Rightarrow> get_many g n r)"

fun get_char :: "char reader" where
  "get_char [] = None"
| "get_char (c # s) = Some (c, s)"

lemma get_put_nat: "get_nat (put_nat n @ rest) = Some (n, rest)"
  by (induction n) (simp_all add: put_nat_def)

lemma reads_back_basic: "reads_back put_nat get_nat" "reads_back (\<lambda>c. [c]) get_char"
  by (simp_all add: reads_back_def get_put_nat)

lemma reads_back_map: "reads_back put get \<Longrightarrow> (\<And>x. g (f x) = x) \<Longrightarrow> reads_back (put_map f put) (get_map g get)"
  by (simp add: reads_back_def put_map_def get_map_def)

lemma reads_back_pair: "reads_back p g \<Longrightarrow> reads_back q h \<Longrightarrow> reads_back (put_pair p q) (get_pair g h)"
  by (simp add: reads_back_def put_pair_def get_pair_def)

lemma reads_back_list:
  assumes "reads_back p g" shows "reads_back (put_list p) (get_list g)"
proof -
  have "get_many g (length xs) (concat (map p xs) @ rest) = Some (xs, rest)" for xs rest
    using assms by (induction xs) (simp_all add: reads_back_def)
  then show ?thesis by (simp add: reads_back_def put_list_def get_list_def get_put_nat)
qed

definition int_nat :: "int \<Rightarrow> nat" where "int_nat i = (if 0 \<le> i then nat (2 * i) else nat (- 2 * i - 1))"
definition nat_int :: "nat \<Rightarrow> int" where "nat_int n = (if even n then int n div 2 else - ((int n + 1) div 2))"

lemma nat_int_nat: "nat_int (int_nat i) = i"
  by (simp add: nat_int_def int_nat_def even_nat_iff) presburger

fun OpType_int :: "OpType \<Rightarrow> nat \<times> int" where
  "OpType_int Create = (0, 0)" | "OpType_int Append = (1, 0)" | "OpType_int Delete = (2, 0)" | "OpType_int (UnknownOp i) = (3, i)"
definition int_OpType :: "nat \<times> int \<Rightarrow> OpType" where
  "int_OpType p = (if fst p = 0 then Create else if fst p = 1 then Append else if fst p = 2 then Delete else UnknownOp (snd p))"

lemma int_OpType_int: "int_OpType (OpType_int t) = t"
  by (cases t) (simp_all add: int_OpType_def)

abbreviation "put_int \<equiv> put_map int_nat put_nat"
abbreviation "get_int \<equiv> get_map nat_int get_nat"
abbreviation "put_str \<equiv> put_list (\<lambda>c. [c])"
abbreviation "get_str \<equiv> get_list get_char"
abbreviation put_time :: "int64 writer" where "put_time \<equiv> put_map unat put_nat"
abbreviation get_time :: "int64 reader" where "get_time \<equiv> get_map of_nat get_nat"

definition put_Operation :: "Operation writer" where
  "put_Operation = put_map (\<lambda>oper. (OpType_int (Op oper), Data oper, Filename oper, MinerID oper, OperationID oper, Timestamp oper))
     (put_pair (put_pair put_nat put_int) (put_pair put_str (put_pair put_str (put_pair put_str (put_pair put_str put_time)))))"
definition get_Operation :: "Operation reader" where
  "get_Operation = get_map (\<lambda>(t, d, f, m, i, now). \<lparr>Op = int_OpType t, Data = d, Filename = f, MinerID = m, OperationID = i, Timestamp = now\<rparr>)
     (get_pair (get_pair get_nat get_int) (get_pair get_str (get_pair get_str (get_pair get_str (get_pair get_str get_time)))))"

definition put_Block :: "Block writer" where
  "put_Block = put_map (\<lambda>b. (HeaderTimestamp b, Operations b, PreviousHash b, BlockMinerID b, Hash b, Nonce b))
     (put_pair put_time (put_pair (put_list put_Operation) (put_pair put_str (put_pair put_str (put_pair put_str put_int)))))"
definition get_Block :: "Block reader" where
  "get_Block = get_map (\<lambda>(now, ops, p, m, h, n). \<lparr>HeaderTimestamp = now, Operations = ops, PreviousHash = p, BlockMinerID = m, Hash = h, Nonce = n\<rparr>)
     (get_pair get_time (get_pair (get_list get_Operation) (get_pair get_str (get_pair get_str (get_pair get_str get_int)))))"

lemma reads_back_fields: "reads_back put_int get_int" "reads_back put_str get_str" "reads_back put_time get_time"
  by (intro reads_back_map reads_back_list reads_back_basic nat_int_nat; simp)+

lemma reads_back_Operation: "reads_back put_Operation get_Operation"
  unfolding put_Operation_def get_Operation_def
  by (intro reads_back_map reads_back_pair reads_back_fields reads_back_basic) (simp add: int_OpType_int)

lemma reads_back_Block: "reads_back put_Block get_Block"
  unfolding put_Block_def get_Block_def
  by (intro reads_back_map reads_back_pair reads_back_list reads_back_Operation reads_back_fields) simp

definition decode :: "'a reader \<Rightarrow> 'a \<Rightarrow> bytes \<Rightarrow> 'a \<times> string option" where
  "decode get zero data = (case get data of Some (x, _) \<Rightarrow> (x, None) | None \<Rightarrow> (zero, Some ''EOF''))"

definition sample_gob :: gob where
  "sample_gob = \<lparr>enc_Block = \<lambda>b. (put_Block b, None), dec_Block = decode get_Block zero_Block,
     enc_Blocks = \<lambda>bs. (put_list put_Block bs, None), dec_Blocks = decode (get_list get_Block) [],
     dec_Operation = decode get_Operation (sample_op Create [] [] [])\<rparr>"

definition coding_host :: host where
  "coding_host = \<lparr>md5_sum = (\<lambda>b. b), gob_Operation = put_Operation, gob_Operations = put_list put_Operation\<rparr>"

lemma decode_put: "reads_back put get \<Longrightarrow> decode get zero (put x) = (x, None)"
  unfolding reads_back_def decode_def by (metis append_Nil2 case_prod_conv option.simps(5))

lemma sample_gob_faithful: "gob_faithful coding_host sample_gob"
  by (simp add: gob_faithful_def sample_gob_def coding_host_def decode_put reads_back_Block reads_back_Operation reads_back_list)

theorem Marshall_roundtrip_witness:
  "\<exists>data blocks bc'. Marshall sample_gob rev tree4 = (data, None) \<and> UnmarshallBlocks sample_gob data = (blocks, None) \<and>
     UnmarshallBlockchain (\<lambda>m. m) blocks = Some (Inr bc') \<and> bc_inv bc' \<and>
     chain_view bc' ''3'' = Some [block3, block2, block1, NewGenesisBlock 0 ''g'']"
proof -
  have "rooted tree4"
    by (simp add: rooted_def HasBlock_def sample_map) (simp add: tree_defs sample_defs)
  from Marshall_roundtrip [OF sample_gob_faithful is_iter_id is_iter_rev sample_inv(5) this, of block1 "sample_op Create [] [] []"]
  obtain data blocks bc' where "Marshall sample_gob rev tree4 = (data, None)" "UnmarshallBlocks sample_gob data = (blocks, None)"
    "UnmarshallBlockchain (\<lambda>m. m) blocks = Some (Inr bc')" "bc_inv bc'" "chain_view bc' ''3'' = chain_view tree4 ''3''" by blast
  moreover have "chain_view tree4 ''3'' = Some [block3, block2, block1, NewGenesisBlock 0 ''g'']"
    by (simp add: chain_view_def sample_map sample_chains)
  ultimately show ?thesis by metis
qed

end
