(* ===== verification/Bclib_Interface.thy ===== *)
theory Bclib_Interface
  imports Bclib_Sync
begin

text \<open>
  The interface \<^verbatim>\<open>RFSLedger\<close> of \<^verbatim>\<open>bclib/blockchain_rfs.go\<close>, through which
  the RPC server and the mining worker use the ledger. An interface value is a record of methods
  over a state; a method returns the changed state and \<^term>\<open>None\<close> when it does not end. The
  laws that clients rely on are two locales; the block tree is an instance, the chain manager of
  \<^verbatim>\<open>p2p/blockchain_manager.go\<close> is another one.
\<close>

record 'l RFSLedger =
  ledger_GetLastHash :: "'l \<Rightarrow> ('l \<times> bytes) option"
  ledger_GetLastBlocks :: "'l \<Rightarrow> ('l \<times> Block list) option"
  ledger_ValidateOperations :: "'l \<Rightarrow> Operation list \<Rightarrow> bytes \<Rightarrow> (Operation list \<times> bool) option"
  ledger_ListFiles :: "'l \<Rightarrow> ('l \<times> string list) option"
  ledger_GetFile :: "'l \<Rightarrow> string \<Rightarrow> ('l \<times> FileOps \<times> bool) option"
  ledger_NumRecs :: "'l \<Rightarrow> string \<Rightarrow> ('l \<times> int \<times> bool) option"
  ledger_CheckOpConfirmed :: "'l \<Rightarrow> Operation \<Rightarrow> ('l \<times> bool \<times> bool \<times> bool) option"

text \<open>The method table of \<^verbatim>\<open>*Blockchain\<close>, for given iteration orders.\<close>

definition Blockchain_ledger ::
  "(string, Operation) iter \<Rightarrow> (string, Operation) iter \<Rightarrow> (string, unit) iter \<Rightarrow> Blockchain RFSLedger" where
  "Blockchain_ledger it1 it2 it3 =
     \<lparr>ledger_GetLastHash = GetLastHash, ledger_GetLastBlocks = GetLastBlocks,
      ledger_ValidateOperations = ValidateOperations it1 it2, ledger_ListFiles = ListFiles it3,
      ledger_GetFile = GetFile, ledger_NumRecs = NumRecs,
      ledger_CheckOpConfirmed = CheckOpConfirmed\<rparr>"

section \<open>Reading files\<close>

text \<open>What the RPC server relies on: \<open>inv\<close> is the invariant of the ledger and \<open>on_chain l oper\<close>
  says that the operation is part of the ledger's longest chain.\<close>

locale file_ledger =
  fixes L :: "'l RFSLedger" and inv :: "'l \<Rightarrow> bool" and on_chain :: "'l \<Rightarrow> Operation \<Rightarrow> bool"
  assumes GetFile_returns: "inv l \<Longrightarrow> \<exists>l' file ok. ledger_GetFile L l fname = Some (l', file, ok) \<and> inv l' \<and>
        (\<forall>oper. on_chain l' oper = on_chain l oper) \<and>
        (\<forall>fname'. map_option snd (ledger_GetFile L l' fname') = map_option snd (ledger_GetFile L l fname'))"
    and records_of_file: "inv l \<Longrightarrow> ledger_GetFile L l fname = Some (l', file, ok) \<Longrightarrow>
        oper \<in> set (FileOperations file) \<Longrightarrow>
        Op oper = Append \<and> Filename oper = fname \<and> on_chain l oper \<and> ok"
    and unique_records: "inv l \<Longrightarrow> ledger_GetFile L l fname = Some (l', file, ok) \<Longrightarrow>
        distinct (map OperationID (FileOperations file))"
    and NumRecs_agrees: "inv l \<Longrightarrow> ledger_GetFile L l fname = Some (l', file, True) \<Longrightarrow>
        map_option snd (ledger_NumRecs L l fname) = Some (int (length (FileOperations file)), True)"
    and CheckOpConfirmed_returns: "inv l \<Longrightarrow> \<exists>l' c e r. ledger_CheckOpConfirmed L l oper = Some (l', c, e, r) \<and> inv l'"
    and confirmed_listed: "inv l \<Longrightarrow> ledger_CheckOpConfirmed L l oper = Some (l1, True, e, r) \<Longrightarrow>
        Op oper = Append \<Longrightarrow> on_chain l oper \<Longrightarrow>
        \<exists>l2 file. ledger_GetFile L l (Filename oper) = Some (l2, file, True) \<and> oper \<in> set (FileOperations file)"
begin

lemma GetFile_again:
  assumes "inv l" "ledger_GetFile L l fname = Some (l', file, ok)"
  shows "inv l'" "map_option snd (ledger_GetFile L l' fname') = map_option snd (ledger_GetFile L l fname')"
  using GetFile_returns [OF assms(1), of fname] assms(2) by auto

text \<open>An operation identifier has at most one position in a file.\<close>

lemma position_unique:
  assumes "inv l" "ledger_GetFile L l fname = Some (l', file, ok)"
    and "i < length (FileOperations file)" "oper \<in> set (FileOperations file)"
    and "OperationID (FileOperations file ! i) = OperationID oper"
  shows "FileOperations file ! i = oper"
proof -
  have "inj_on OperationID (set (FileOperations file))"
    using unique_records [OF assms(1,2)] by (simp add: distinct_map)
  then show ?thesis using assms(3-5) by (metis inj_onD nth_mem)
qed

lemma absent_file_is_empty:
  assumes "inv l" "ledger_GetFile L l fname = Some (l', file, False)"
  shows "FileOperations file = []"
  using records_of_file [OF assms] by (metis all_not_in_conv set_empty2)

end

section \<open>Choosing operations to mine\<close>

text \<open>What the mining worker relies on: \<open>accepts l ops h\<close> says that a block with these
  operations can be added on the block with hash \<open>h\<close>.\<close>

locale mining_ledger =
  fixes L :: "'l RFSLedger" and inv :: "'l \<Rightarrow> bool" and accepts :: "'l \<Rightarrow> Operation list \<Rightarrow> bytes \<Rightarrow> bool"
  assumes last_returns: "inv l \<Longrightarrow> \<exists>l' bs. ledger_GetLastBlocks L l = Some (l', bs) \<and> bs \<noteq> [] \<and> inv l' \<and>
        ledger_GetLastHash L l = Some (l', Hash (hd bs)) \<and>
        ledger_GetLastBlocks L l' = Some (l', bs) \<and>
        (\<forall>ops h. ledger_ValidateOperations L l' ops h = ledger_ValidateOperations L l ops h) \<and>
        (\<forall>ops h. accepts l' ops h = accepts l ops h)"
    and validate_returns: "inv l \<Longrightarrow> \<exists>valid ok. ledger_ValidateOperations L l ops h = Some (valid, ok) \<and> set valid \<subseteq> set ops"
    and validate_accepts: "inv l \<Longrightarrow> distinct (map filter_key ops) \<Longrightarrow>
        ledger_ValidateOperations L l ops h = Some (valid, ok) \<Longrightarrow> accepts l valid h"
begin

lemma validate_total:
  assumes "inv l"
  obtains valid ok where "ledger_ValidateOperations L l ops h = Some (valid, ok)"
  using validate_returns [OF assms, of ops h] by blast

end

section \<open>The block tree as a ledger\<close>

definition chain_inv :: "Blockchain \<Rightarrow> bool" where
  "chain_inv bc \<longleftrightarrow> bc_inv bc \<and> all_chains unique_ops bc"

definition on_main_chain :: "Blockchain \<Rightarrow> Operation \<Rightarrow> bool" where
  "on_main_chain bc oper \<longleftrightarrow> oper \<in> set (chain_ops (main_chain bc))"

definition accepts_ops :: "Blockchain \<Rightarrow> Operation list \<Rightarrow> bytes \<Rightarrow> bool" where
  "accepts_ops bc ops h \<longleftrightarrow> ops = [] \<or>
     (\<exists>p bs. map_of (bc_m bc) h = Some p \<and> chain_blocks (bc_heap bc) (Some p) = Some bs \<and>
        acceptable (bc_config bc) ops bs)"

lemma getLastNodes_lastNode: "getLastNodes (bc\<lparr>bc_lastNode := a\<rparr>) = getLastNodes bc"
  by (cases "last_loop (bc_heap bc) [0] [bc_genesis bc] (0, bc_genesis bc, [bc_genesis bc])")
    (auto simp: getLastNodes_def)

lemma queried_simps [simp]:
  "tip (bc\<lparr>bc_lastNode := a\<rparr>) = tip bc"
  "main_chain (bc\<lparr>bc_lastNode := a\<rparr>) = main_chain bc"
  "confirmed_chain (bc\<lparr>bc_lastNode := a\<rparr>) n = confirmed_chain bc n"
  "accepts_ops (bc\<lparr>bc_lastNode := a\<rparr>) ops h = accepts_ops bc ops h"
  "on_main_chain (bc\<lparr>bc_lastNode := a\<rparr>) oper = on_main_chain bc oper"
proof -
  show t: "tip (bc\<lparr>bc_lastNode := a\<rparr>) = tip bc"
    by (simp add: tip_def getLastNodes_lastNode)
  show m: "main_chain (bc\<lparr>bc_lastNode := a\<rparr>) = main_chain bc"
    by (simp add: main_chain_def t)
  show "confirmed_chain (bc\<lparr>bc_lastNode := a\<rparr>) n = confirmed_chain bc n"
    "on_main_chain (bc\<lparr>bc_lastNode := a\<rparr>) oper = on_main_chain bc oper"
    by (simp_all add: confirmed_chain_def on_main_chain_def m)
qed (simp add: accepts_ops_def)

lemma chain_inv_queried: "chain_inv bc \<Longrightarrow> chain_inv (queried bc)"
  by (simp add: chain_inv_def all_chains_lastNode bc_inv_lastNode tip_live)

lemma ledger_chain_inv: "ledger_inv H cfg bc \<Longrightarrow> chain_inv bc"
  by (simp add: ledger_inv_def chain_inv_def)

lemma main_chain_unique:
  assumes "chain_inv bc"
  shows "distinct (map OperationID (chain_ops (main_chain bc)))"
proof -
  have "bc_inv bc" "all_chains unique_ops bc" using assms by (auto simp: chain_inv_def)
  then have "unique_ops (main_chain bc)"
    using tip_live by (auto simp: all_chains_def main_chain_def)
  then show ?thesis by (simp add: unique_ops_def)
qed

lemma records_sublist:
  assumes "confirmed_chain bc n = Some bs"
  shows "set (records fname bs) \<subseteq> set (chain_ops (main_chain bc))"
    and "chain_inv bc \<Longrightarrow> distinct (map OperationID (records fname bs))"
proof -
  have bs: "main_chain bc = take n (main_chain bc) @ bs"
    using assms by (auto simp: confirmed_chain_def split: if_splits)
  then have ops: "chain_ops (main_chain bc) = chain_ops (take n (main_chain bc)) @ chain_ops bs"
    by (metis chain_ops_def concat_append map_append)
  then show "set (records fname bs) \<subseteq> set (chain_ops (main_chain bc))"
    by (auto simp: records_rev)
  show "distinct (map OperationID (records fname bs))" if "chain_inv bc"
    using main_chain_unique [OF that] ops by (simp add: records_rev rev_map distinct_map_filter flip: rev_map)
qed

lemma Blockchain_confirmed_listed:
  assumes "chain_inv bc" "CheckOpConfirmed bc oper = Some (bc1, True, e, r)"
    and "Op oper = Append" "on_main_chain bc oper"
  shows "\<exists>bc2 file. GetFile bc (Filename oper) = Some (bc2, file, True) \<and> oper \<in> set (FileOperations file)"
proof -
  have inv: "bc_inv bc" using assms(1) by (simp add: chain_inv_def)
  obtain b where "b \<in> set (main_chain bc)" "oper \<in> set (Operations b)"
    using assms(4) by (auto simp: on_main_chain_def chain_ops_def)
  then show ?thesis
    using GetFile_lists [OF inv assms(3)] assms(2,3) by (simp add: CheckOpConfirmed_run [OF inv] op_confirms_def)
qed

lemma tree_validate:
  assumes "bc_inv bc" "is_iter it1" "is_iter it2"
  shows "\<exists>valid ok. ValidateOperations it1 it2 bc ops h = Some (valid, ok) \<and> set valid \<subseteq> set ops"
proof (cases "map_of (bc_m bc) h")
  case None
  then show ?thesis by (simp add: ValidateOperations_missing)
next
  case (Some p)
  obtain bs where bs: "chain_blocks (bc_heap bc) (Some p) = Some bs"
    using bc_inv_chain_Cons [OF assms(1) map_of_live [OF Some]] by blast
  show ?thesis
    using ValidateOperations_acceptable [OF assms(2,3) Some bs, of ops]
      ValidateOperations_part(1) [OF assms(2,3) Some bs] by metis
qed

lemma tree_validate_accepts:
  assumes "bc_inv bc" "is_iter it1" "is_iter it2" "distinct (map filter_key ops)"
    and run: "ValidateOperations it1 it2 bc ops h = Some (valid, ok)"
  shows "accepts_ops bc valid h"
proof (cases "map_of (bc_m bc) h")
  case None
  with run show ?thesis by (simp add: ValidateOperations_missing accepts_ops_def)
next
  case (Some p)
  obtain bs where bs: "chain_blocks (bc_heap bc) (Some p) = Some bs"
    using bc_inv_chain_Cons [OF assms(1) map_of_live [OF Some]] by blast
  have "acceptable (bc_config bc) valid bs"
    using ValidateOperations_part [OF assms(2,3) Some bs run] assms(4) by (rule valid_part_acceptable)
  then show ?thesis using Some bs by (simp add: accepts_ops_def)
qed

interpretation tree_files: file_ledger "Blockchain_ledger it1 it2 it3" chain_inv on_main_chain
  rewrites "ledger_GetFile (Blockchain_ledger it1 it2 it3) = GetFile"
    and "ledger_NumRecs (Blockchain_ledger it1 it2 it3) = NumRecs"
    and "ledger_CheckOpConfirmed (Blockchain_ledger it1 it2 it3) = CheckOpConfirmed"
  for it1 it2 :: "(string, Operation) iter" and it3 :: "(string, unit) iter"
proof -
  show rw: "ledger_GetFile (Blockchain_ledger it1 it2 it3) = GetFile"
    "ledger_NumRecs (Blockchain_ledger it1 it2 it3) = NumRecs"
    "ledger_CheckOpConfirmed (Blockchain_ledger it1 it2 it3) = CheckOpConfirmed"
    by (simp_all add: Blockchain_ledger_def)
  show "file_ledger (Blockchain_ledger it1 it2 it3) chain_inv on_main_chain"
  proof (unfold_locales, unfold rw)
    fix l fname
    assume "chain_inv l"
    then have inv: "bc_inv l" "bc_inv (queried l)" "chain_inv (queried l)"
      using chain_inv_queried by (auto simp: chain_inv_def)
    then show "\<exists>l' fl ok. GetFile l fname = Some (l', fl, ok) \<and> chain_inv l' \<and>
        (\<forall>oper. on_main_chain l' oper = on_main_chain l oper) \<and>
        (\<forall>fname'. map_option snd (GetFile l' fname') = map_option snd (GetFile l fname'))"
      by (auto simp: GetFile_run split: option.splits)
  next
    fix l fname l' fl ok oper
    assume a: "chain_inv l" "GetFile l fname = Some (l', fl, ok)" "oper \<in> set (FileOperations fl)"
    then have inv: "bc_inv l" by (simp add: chain_inv_def)
    obtain bs where bs: "confirmed_chain l (append_confirms l) = Some bs" "oper \<in> set (records fname bs)"
        "ok = mentions fname bs"
      using GetFile_fields [OF inv a(2)] a(3) by (auto split: option.splits)
    then have "on_main_chain l oper"
      using records_sublist(1) [OF bs(1), of fname] by (auto simp: on_main_chain_def)
    with bs show "Op oper = Append \<and> Filename oper = fname \<and> on_main_chain l oper \<and> ok"
      by (auto simp: on_main_chain_def records_rev is_record_def mentions_def)
  next
    fix l fname l' fl ok
    assume "chain_inv l" "GetFile l fname = Some (l', fl, ok)"
    moreover from this have inv: "bc_inv l" by (simp add: chain_inv_def)
    ultimately show "distinct (map OperationID (FileOperations fl))"
      using GetFile_fields(1) [OF inv] records_sublist(2) by (auto split: option.splits)
  next
    fix l fname l' fl
    assume a: "chain_inv l" "GetFile l fname = Some (l', fl, True)"
    then have inv: "bc_inv l" by (simp add: chain_inv_def)
    show "map_option snd (NumRecs l fname) = Some (int (length (FileOperations fl)), True)"
      using GetFile_fields [OF inv a(2)] by (auto simp: NumRecs_run [OF inv] split: option.splits)
  next
    fix l oper
    assume "chain_inv l"
    then show "\<exists>l' c e r. CheckOpConfirmed l oper = Some (l', c, e, r) \<and> chain_inv l'"
      using chain_inv_queried [of l] by (simp add: CheckOpConfirmed_run chain_inv_def)
  qed (rule Blockchain_confirmed_listed)
qed

text \<open>For the validation of operations the orders of the loops over Go maps matter. Every pair of
  iteration orders makes the tree a ledger for the worker.\<close>

locale map_orders =
  fixes it1 it2 :: "(string, Operation) iter"
  assumes order1: "is_iter it1" and order2: "is_iter it2"

sublocale map_orders \<subseteq> mining_ledger "Blockchain_ledger it1 it2 it3" chain_inv accepts_ops
  for it3
proof (unfold_locales, unfold Blockchain_ledger_def RFSLedger.simps)
  fix l
  assume ci: "chain_inv l"
  then have inv: "bc_inv l" by (simp add: chain_inv_def)
  obtain lns where run: "getLastNodes l = Some (queried l, lns)" "lns ! 0 = tip l" "lns \<noteq> []"
    using getLastNodes_tip [OF inv] by metis
  have "getLastNodes (queried l) = Some (queried l, lns)"
    using run by (simp add: getLastNodes_lastNode)
  moreover have "ValidateOperations it1 it2 (queried l) ops h = ValidateOperations it1 it2 l ops h" for ops h
  proof -
    have q: "bc_m (queried l) = bc_m l" "bc_config (queried l) = bc_config l" "bc_heap (queried l) = bc_heap l"
      by simp_all
    show ?thesis unfolding ValidateOperations_def q ..
  qed
  ultimately show "\<exists>l' bs. GetLastBlocks l = Some (l', bs) \<and> bs \<noteq> [] \<and> chain_inv l' \<and>
        GetLastHash l = Some (l', Hash (hd bs)) \<and> GetLastBlocks l' = Some (l', bs) \<and>
        (\<forall>ops h. ValidateOperations it1 it2 l' ops h = ValidateOperations it1 it2 l ops h) \<and>
        (\<forall>ops h. accepts_ops l' ops h = accepts_ops l ops h)"
    using run chain_inv_queried [OF ci]
    by (intro exI [of _ "queried l"] exI [of _ "map (block_at (bc_heap l)) lns"])
      (simp add: GetLastBlocks_def GetLastHash_def hd_map hd_conv_nth)
next
  fix l ops h
  assume "chain_inv l"
  then have inv: "bc_inv l" by (simp add: chain_inv_def)
  show "\<exists>valid ok. ValidateOperations it1 it2 l ops h = Some (valid, ok) \<and> set valid \<subseteq> set ops"
    using tree_validate [OF inv order1 order2] by blast
next
  fix l ops h valid ok
  assume "chain_inv l" "distinct (map filter_key ops)" "ValidateOperations it1 it2 l ops h = Some (valid, ok)"
  then show "accepts_ops l valid h"
    using tree_validate_accepts [OF _ order1 order2] by (simp add: chain_inv_def)
qed

context map_orders
begin

lemma is_mining_ledger: "mining_ledger (Blockchain_ledger it1 it2 it3) chain_inv accepts_ops"
  by unfold_locales

end

interpretation tree_mining: map_orders "\<lambda>m. m" rev
  by unfold_locales simp_all

end
