(* ===== verification/P2p_Rpc.thy ===== *)
theory P2p_Rpc
  imports Bclib_Interface
begin

text \<open>
  \<^verbatim>\<open>p2p/rpc.go\<close>: the RPC server for the clients of a miner. Its handlers use the ledger
  only through the interface \<^verbatim>\<open>RFSLedger\<close>, here the argument \<open>L\<close> and the ledger
  state \<open>l\<close> at the time of the call.

  \<^verbatim>\<open>CreateFile\<close> and \<^verbatim>\<open>AppendRecord\<close> block on the channel \<^verbatim>\<open>ready\<close>
  until another goroutine reports success or failure, so each is two definitions: the part before
  the wait (which returns the new server state and the operation sent on
  \<^verbatim>\<open>receivedOp\<close>) and the part after it. A handler that runs without waiting is one
  definition; locks only exclude concurrent access to the fields and are not part of the model.
\<close>

datatype rfs_error =
    DisconnectedError string
  | BadFilenameError string
  | FileDoesNotExistError string
  | FileExistsError string
  | FileMaxLenReachedError string
  | IndexPanic

record AppendRecordInfo =
  append_Data :: bytes
  append_Fname :: string

record ReadRecordInfo =
  RecNum :: int
  read_Fname :: string

record PendingOperation =
  operation :: Operation

record Server =
  srv_minerID :: string
  confirmedFiles :: "(string, unit) gomap"
  clientOps :: "(string, PendingOperation) gomap"
  isConnected :: bool

definition NewRPCServer :: "Settings \<Rightarrow> Server" where
  "NewRPCServer cfg =
     \<lparr>srv_minerID = SettingsMinerID cfg, confirmedFiles = [], clientOps = [], isConnected = False\<rparr>"

section \<open>Reading\<close>

text \<open>\<^verbatim>\<open>copy(record[:], data)\<close> into a zeroed array of 512 bytes.\<close>

definition copy_record :: "bytes \<Rightarrow> bytes" where
  "copy_record data = take 512 (data @ replicate 512 (CHR 0x00))"

text \<open>The polling loop; \<open>ls i\<close> is the state of the ledger when the loop polls for the
  \<open>i\<close>-th time.\<close>

partial_function (option) read_loop ::
  "'l RFSLedger \<Rightarrow> (nat \<Rightarrow> 'l) \<Rightarrow> ReadRecordInfo \<Rightarrow> nat \<Rightarrow> (rfs_error + bytes) option" where
  "read_loop L ls recInfo i =
     do {
       (l', fileOps, ok) \<leftarrow> ledger_GetFile L (ls i) (read_Fname recInfo);
       (if \<not> ok then Some (Inl (FileDoesNotExistError (read_Fname recInfo)))
        else if RecNum recInfo < int (length (FileOperations fileOps)) then
          (if RecNum recInfo < 0 then Some (Inl IndexPanic)
           else Some (Inr (copy_record (Data (FileOperations fileOps ! nat (RecNum recInfo))))))
        else read_loop L ls recInfo (i + 1))
     }"

definition ReadRecord ::
  "'l RFSLedger \<Rightarrow> Server \<Rightarrow> (nat \<Rightarrow> 'l) \<Rightarrow> ReadRecordInfo \<Rightarrow> (rfs_error + bytes) option" where
  "ReadRecord L s ls recInfo =
     (if \<not> isConnected s then Some (Inl (DisconnectedError (srv_minerID s)))
      else if map_of (confirmedFiles s) (read_Fname recInfo) = None then
        Some (Inl (FileDoesNotExistError (read_Fname recInfo)))
      else read_loop L ls recInfo 0)"

definition ListFiles_rpc :: "(string, unit) iter \<Rightarrow> Server \<Rightarrow> rfs_error + string list" where
  "ListFiles_rpc it s =
     (if \<not> isConnected s then Inl (DisconnectedError (srv_minerID s))
      else Inr (map fst (it (confirmedFiles s))))"

definition TotalRecs_rpc :: "'l RFSLedger \<Rightarrow> Server \<Rightarrow> 'l \<Rightarrow> string \<Rightarrow> (rfs_error + int) option" where
  "TotalRecs_rpc L s l fname =
     (if \<not> isConnected s then Some (Inl (DisconnectedError (srv_minerID s)))
      else if map_of (confirmedFiles s) fname = None then Some (Inl (FileDoesNotExistError fname))
      else
        do {
          (l', fileOps, ok) \<leftarrow> ledger_GetFile L l fname;
          Some (if \<not> ok then Inl (FileDoesNotExistError fname)
                else Inr (int (length (FileOperations fileOps))))
        })"

section \<open>Appending and creating\<close>

definition add_client_op :: "Server \<Rightarrow> Operation \<Rightarrow> Server" where
  "add_client_op s oper = s\<lparr>clientOps := AList.update (OperationID oper) \<lparr>operation = oper\<rparr> (clientOps s)\<rparr>"

definition AppendRecord_submit ::
  "host \<Rightarrow> int64 \<Rightarrow> 'l RFSLedger \<Rightarrow> Server \<Rightarrow> 'l \<Rightarrow> AppendRecordInfo
     \<Rightarrow> (rfs_error + Server \<times> Operation) option" where
  "AppendRecord_submit H now L s l recInfo =
     (if \<not> isConnected s then Some (Inl (DisconnectedError (srv_minerID s)))
      else if map_of (confirmedFiles s) (append_Fname recInfo) = None then
        Some (Inl (FileDoesNotExistError (append_Fname recInfo)))
      else
        do {
          (l', fileOps, ok) \<leftarrow> ledger_GetFile L l (append_Fname recInfo);
          Some
            (if ok \<and> length (FileOperations fileOps) > 65535 then
               Inl (FileMaxLenReachedError (append_Fname recInfo))
             else
               (let oper = NewOperation H now Append (srv_minerID s) (append_Fname recInfo) (append_Data recInfo)
                in Inr (add_client_op s oper, oper)))
        })"

text \<open>The loop that looks for the position of the record from the end; when it finds nothing the
  reply keeps its zero value.\<close>

fun find_index :: "Operation list \<Rightarrow> string \<Rightarrow> nat \<Rightarrow> int" where
  "find_index ops opid 0 = 0"
| "find_index ops opid (Suc i) =
     (if OperationID (ops ! i) = opid then int i else find_index ops opid i)"

definition AppendRecord_finish ::
  "'l RFSLedger \<Rightarrow> 'l \<Rightarrow> Operation \<Rightarrow> AppendRecordInfo \<Rightarrow> bool \<Rightarrow> (rfs_error + int) option" where
  "AppendRecord_finish L l oper recInfo success =
     (if \<not> success then Some (Inl (FileDoesNotExistError (append_Fname recInfo)))
      else
        do {
          (l', fileOps, ok) \<leftarrow> ledger_GetFile L l (append_Fname recInfo);
          Some
            (if \<not> ok then Inl (FileDoesNotExistError (append_Fname recInfo))
             else Inr (find_index (FileOperations fileOps) (OperationID oper)
                         (length (FileOperations fileOps))))
        })"

definition conflictPendingCreate :: "(string, PendingOperation) iter \<Rightarrow> Server \<Rightarrow> string \<Rightarrow> bool" where
  "conflictPendingCreate it s fname =
     fold (\<lambda>(k, pendingOp) conflicts.
       if Op (operation pendingOp) = Create then Filename (operation pendingOp) = fname
       else conflicts) (it (clientOps s)) False"

definition CreateFile_submit ::
  "host \<Rightarrow> int64 \<Rightarrow> (string, PendingOperation) iter \<Rightarrow> Server \<Rightarrow> string \<Rightarrow> rfs_error + Server \<times> Operation" where
  "CreateFile_submit H now it s filename =
     (if \<not> isConnected s then Inl (DisconnectedError (srv_minerID s))
      else if conflictPendingCreate it s filename then Inl (FileExistsError filename)
      else
        (let oper = NewOperation H now Create (srv_minerID s) filename []
         in Inr (add_client_op s oper, oper)))"

definition CreateFile_finish :: "string \<Rightarrow> bool \<Rightarrow> rfs_error + bool" where
  "CreateFile_finish filename success = (if \<not> success then Inl (FileExistsError filename) else Inr success)"

section \<open>Background updates\<close>

text \<open>One round of \<^verbatim>\<open>updateConfirmedFiles\<close>; \<^verbatim>\<open>startListening\<close> adds the same
  names to the initial, empty map.\<close>

definition updateConfirmedFiles :: "'l RFSLedger \<Rightarrow> Server \<Rightarrow> 'l \<Rightarrow> (Server \<times> 'l) option" where
  "updateConfirmedFiles L s l =
     do {
       (l', files) \<leftarrow> ledger_ListFiles L l;
       Some (s\<lparr>confirmedFiles := fold (\<lambda>fname. AList.update fname ()) files []\<rparr>, l')
     }"

text \<open>The loop of \<^verbatim>\<open>checkConfirmedOperations\<close> over the pending operations. It collects
  the answers sent on the channels \<^verbatim>\<open>Ready\<close> (whose operations are then removed) and the
  operations sent on \<^verbatim>\<open>receivedOp\<close> again.\<close>

fun check_pending ::
  "'l RFSLedger \<Rightarrow> PendingOperation list \<Rightarrow> 'l \<Rightarrow> (Operation \<times> bool) list \<Rightarrow> Operation list
     \<Rightarrow> ('l \<times> (Operation \<times> bool) list \<times> Operation list) option" where
  "check_pending L [] l removeOps resent = Some (l, removeOps, resent)"
| "check_pending L (p # ps) l removeOps resent =
     do {
       (l', confirmed, exists, otherMiner) \<leftarrow> ledger_CheckOpConfirmed L l (operation p);
       check_pending L ps l'
         (if confirmed \<and> \<not> otherMiner then removeOps @ [(operation p, True)]
          else if confirmed \<and> otherMiner then removeOps @ [(operation p, False)]
          else removeOps)
         (if \<not> exists then resent @ [operation p] else resent)
     }"

definition checkConfirmedOperations ::
  "(string, PendingOperation) iter \<Rightarrow> 'l RFSLedger \<Rightarrow> Server \<Rightarrow> 'l
     \<Rightarrow> (Server \<times> 'l \<times> (Operation \<times> bool) list \<times> Operation list) option" where
  "checkConfirmedOperations it L s l =
     do {
       (l', removeOps, resent) \<leftarrow> check_pending L (map snd (it (clientOps s))) l [] [];
       Some (s\<lparr>clientOps := fold (\<lambda>(oper, _). AList.delete (OperationID oper)) removeOps (clientOps s)\<rparr>,
             l', removeOps, resent)
     }"

definition updateConnectedStatus :: "Server \<Rightarrow> bool \<Rightarrow> Server" where
  "updateConnectedStatus s b = s\<lparr>isConnected := b\<rparr>"

section \<open>Positions of records\<close>

lemma find_index_found:
  assumes "i < n" "OperationID (ops ! i) = opid"
  shows "\<exists>j < n. find_index ops opid n = int j \<and> OperationID (ops ! j) = opid"
  using assms by (induction n) (auto simp: less_Suc_eq)

lemma read_loop_now:
  assumes "ledger_GetFile L (ls i) fname = Some (l', fileOps, True)" "k < length (FileOperations fileOps)"
  shows "read_loop L ls \<lparr>RecNum = int k, read_Fname = fname\<rparr> i =
    Some (Inr (copy_record (Data (FileOperations fileOps ! k))))"
  using assms by (subst read_loop.simps) simp

lemma read_loop_later:
  assumes "ledger_GetFile L (ls i) fname = Some (l', fileOps, True)" "length (FileOperations fileOps) \<le> k"
  shows "read_loop L ls \<lparr>RecNum = int k, read_Fname = fname\<rparr> i =
    read_loop L ls \<lparr>RecNum = int k, read_Fname = fname\<rparr> (i + 1)"
  using assms by (subst read_loop.simps) simp

lemma read_loop_waits:
  assumes "\<And>j. j < n \<Longrightarrow> \<exists>l' fileOps. ledger_GetFile L (ls (i + j)) fname = Some (l', fileOps, True) \<and>
      length (FileOperations fileOps) \<le> k"
  shows "read_loop L ls \<lparr>RecNum = int k, read_Fname = fname\<rparr> i =
    read_loop L ls \<lparr>RecNum = int k, read_Fname = fname\<rparr> (i + n)"
  using assms
proof (induction n)
  case (Suc n)
  from Suc.prems [of n] obtain l' fileOps where "ledger_GetFile L (ls (i + n)) fname = Some (l', fileOps, True)"
    "length (FileOperations fileOps) \<le> k" by auto
  from read_loop_later [where ls = ls and i = "i + n", OF this] Suc.IH Suc.prems show ?case by simp
qed simp

context file_ledger
begin

lemma append_finds_record:
  assumes "inv l" "ledger_CheckOpConfirmed L l oper = Some (l1, True, e, r)"
    and "Op oper = Append" "on_chain l oper" and "Filename oper = append_Fname recInfo"
  shows "\<exists>k l2 fileOps. AppendRecord_finish L l oper recInfo True = Some (Inr (int k)) \<and>
    ledger_GetFile L l (Filename oper) = Some (l2, fileOps, True) \<and>
    k < length (FileOperations fileOps) \<and> FileOperations fileOps ! k = oper"
proof -
  obtain l2 fileOps where f: "ledger_GetFile L l (Filename oper) = Some (l2, fileOps, True)"
      "oper \<in> set (FileOperations fileOps)"
    using confirmed_listed [OF assms(1-4)] by blast
  obtain i where "i < length (FileOperations fileOps)" "FileOperations fileOps ! i = oper"
    using f(2) by (auto simp: in_set_conv_nth)
  then obtain k where k: "k < length (FileOperations fileOps)"
      "find_index (FileOperations fileOps) (OperationID oper) (length (FileOperations fileOps)) = int k"
      "OperationID (FileOperations fileOps ! k) = OperationID oper"
    using find_index_found [of i] by blast
  moreover have "AppendRecord_finish L l oper recInfo True = Some (Inr (int k))"
    using f(1) assms(5) k(2) by (simp add: AppendRecord_finish_def)
  ultimately show ?thesis
    using f position_unique [OF assms(1) f(1) k(1) f(2) k(3)] by blast
qed

text \<open>A record that was appended can be read back at the position that the client got, now and
  from every later ledger in which the file has only grown.\<close>

lemma append_then_read:
  assumes "inv l" "ledger_CheckOpConfirmed L l oper = Some (l1, True, e, r)"
    and "Op oper = Append" "on_chain l oper" and "Filename oper = append_Fname recInfo"
    and later: "\<And>l2 fileOps. ledger_GetFile L l (Filename oper) = Some (l2, fileOps, True) \<Longrightarrow>
      \<exists>l3 fileOps'. ledger_GetFile L (ls 0) (Filename oper) = Some (l3, fileOps', True) \<and>
        prefix (FileOperations fileOps) (FileOperations fileOps')"
  shows "\<exists>k. AppendRecord_finish L l oper recInfo True = Some (Inr (int k)) \<and>
    read_loop L ls \<lparr>RecNum = int k, read_Fname = Filename oper\<rparr> 0 = Some (Inr (copy_record (Data oper)))"
proof -
  obtain k l2 fileOps where k: "AppendRecord_finish L l oper recInfo True = Some (Inr (int k))"
      "ledger_GetFile L l (Filename oper) = Some (l2, fileOps, True)"
      "k < length (FileOperations fileOps)" "FileOperations fileOps ! k = oper"
    using append_finds_record [OF assms(1-5)] by blast
  obtain l3 fileOps' where f: "ledger_GetFile L (ls 0) (Filename oper) = Some (l3, fileOps', True)"
      "prefix (FileOperations fileOps) (FileOperations fileOps')"
    using later [OF k(2)] by blast
  have "k < length (FileOperations fileOps')" "FileOperations fileOps' ! k = oper"
    using f(2) k(3,4) by (auto simp: prefix_def nth_append)
  then show ?thesis
    using k(1) read_loop_now [where ls = ls and i = 0, OF f(1)] by auto
qed

end

text \<open>What a client appended it can read back. When \<^verbatim>\<open>CheckOpConfirmed\<close> has confirmed
  an append that is on the longest chain, \<^verbatim>\<open>AppendRecord\<close> returns a position, and
  \<^verbatim>\<open>ReadRecord\<close> on this position returns the appended data, padded to 512 bytes; also
  later, as long as the file has only grown (as \<^verbatim>\<open>GetFile\<close> ensures while the longest
  chain grows).\<close>

theorem append_then_read_back:
  assumes "chain_inv bc" "CheckOpConfirmed bc oper = Some (bc1, True, e, r)"
    and "Op oper = Append" "on_main_chain bc oper" and "Filename oper = append_Fname recInfo"
    and "isConnected s" "map_of (confirmedFiles s) (Filename oper) \<noteq> None"
    and later: "\<And>bc2 fl. GetFile bc (Filename oper) = Some (bc2, fl, True) \<Longrightarrow>
      \<exists>bc3 fl'. GetFile (ls 0) (Filename oper) = Some (bc3, fl', True) \<and>
        prefix (FileOperations fl) (FileOperations fl')"
  shows "\<exists>k. AppendRecord_finish (Blockchain_ledger it1 it2 it3) bc oper recInfo True = Some (Inr (int k)) \<and>
    ReadRecord (Blockchain_ledger it1 it2 it3) s ls \<lparr>RecNum = int k, read_Fname = Filename oper\<rparr> =
      Some (Inr (copy_record (Data oper)))"
  using tree_files.append_then_read [where ls = ls and ?it1.0 = it1 and ?it2.0 = it2 and ?it3.0 = it3, OF assms(1-5) later] assms(6,7)
  by (auto simp: ReadRecord_def)

definition sample_server :: Server where
  "sample_server = \<lparr>srv_minerID = ''A'', confirmedFiles = [(''f'', ())], clientOps = [], isConnected = True\<rparr>"

lemma tree6_confirmed:
  "chain_inv tree6"
  "CheckOpConfirmed tree6 (sample_op Append ''A'' ''f'' ''y'') = Some (queried tree6, True, True, False)"
  "on_main_chain tree6 (sample_op Append ''A'' ''f'' ''y'')"
proof -
  show "chain_inv tree6"
    using built_inv [OF tree6_built] by (rule ledger_chain_inv)
  show "CheckOpConfirmed tree6 (sample_op Append ''A'' ''f'' ''y'') = Some (queried tree6, True, True, False)"
    by (simp add: CheckOpConfirmed_run [OF tree6_facts(1)] tree6_facts(2,3) tree5_main)
      (simp add: sample_defs has_op_def op_confirms_def confirmations_def rival_def scanned_def)
  show "on_main_chain tree6 (sample_op Append ''A'' ''f'' ''y'')"
    by (simp add: on_main_chain_def tree6_facts tree5_main block3_def sample_block_def)
qed

theorem append_then_read_back_witness:
  "\<exists>k. AppendRecord_finish (Blockchain_ledger rev rev rev) tree6 (sample_op Append ''A'' ''f'' ''y'')
       \<lparr>append_Data = sample_data, append_Fname = ''f''\<rparr> True = Some (Inr (int k)) \<and>
    ReadRecord (Blockchain_ledger rev rev rev) sample_server (\<lambda>_. tree6) \<lparr>RecNum = int k, read_Fname = ''f''\<rparr> =
      Some (Inr (copy_record sample_data))"
proof -
  let ?oper = "sample_op Append ''A'' ''f'' ''y''"
  have f: "Filename ?oper = ''f''" "Data ?oper = sample_data" "Op ?oper = Append"
    by (simp_all add: sample_op_def)
  have later: "\<exists>bc3 fl'. GetFile tree6 (Filename ?oper) = Some (bc3, fl', True) \<and>
      prefix (FileOperations fl) (FileOperations fl')"
    if "GetFile tree6 (Filename ?oper) = Some (bc2, fl, True)" for bc2 fl
    using that by blast
  have srv: "isConnected sample_server" "map_of (confirmedFiles sample_server) (Filename ?oper) \<noteq> None"
    by (simp_all add: sample_server_def f)
  have info: "Filename ?oper = append_Fname \<lparr>append_Data = sample_data, append_Fname = ''f''\<rparr>" by (simp add: f)
  show ?thesis
    using append_then_read_back [where ls = "\<lambda>_. tree6" and ?it1.0 = rev and ?it2.0 = rev and ?it3.0 = rev,
        OF tree6_confirmed(1,2) f(3) tree6_confirmed(3) info srv later]
    by (simp add: f)
qed

text \<open>C24: \<^verbatim>\<open>ReadRecord\<close> waits for a record that does not exist yet: if at the first
  polls the file exists but is too short and then it is long enough, the call returns the record.\<close>

theorem ReadRecord_waits_for_record:
  assumes "isConnected s" "map_of (confirmedFiles s) fname \<noteq> None"
    and short: "\<And>j. j < n \<Longrightarrow> \<exists>l' fileOps. ledger_GetFile L (ls j) fname = Some (l', fileOps, True) \<and>
      length (FileOperations fileOps) \<le> k"
    and here: "ledger_GetFile L (ls n) fname = Some (l', fileOps, True)" "k < length (FileOperations fileOps)"
  shows "ReadRecord L s ls \<lparr>RecNum = int k, read_Fname = fname\<rparr> =
    Some (Inr (copy_record (Data (FileOperations fileOps ! k))))"
proof -
  have "read_loop L ls \<lparr>RecNum = int k, read_Fname = fname\<rparr> 0 = read_loop L ls \<lparr>RecNum = int k, read_Fname = fname\<rparr> n"
    using read_loop_waits [of n L ls 0 fname k] short by simp
  then show ?thesis
    using assms(1,2) read_loop_now [where ls = ls and i = n, OF here] by (simp add: ReadRecord_def)
qed

theorem ReadRecord_waits_for_record_witness:
  "ReadRecord (Blockchain_ledger rev rev rev) sample_server (\<lambda>i. if i = 0 then tree4 else tree5)
     \<lparr>RecNum = int 0, read_Fname = ''f''\<rparr> = Some (Inr (copy_record sample_data))"
proof -
  have 4: "GetFile tree4 ''f'' = Some (queried tree4, \<lparr>Fname = ''f'', FileOperations = [], Deleted = False\<rparr>, True)"
    and 5: "GetFile tree5 ''f'' = Some (queried tree5,
     \<lparr>Fname = ''f'', FileOperations = [sample_op Append ''A'' ''f'' ''y''], Deleted = False\<rparr>, True)"
    using sample_files by simp_all
  show ?thesis
    using ReadRecord_waits_for_record [of sample_server "''f''" 1 "Blockchain_ledger rev rev rev"
        "\<lambda>i. if i = 0 then tree4 else tree5" 0] 4 5
    by (simp add: sample_server_def Blockchain_ledger_def sample_op_def)
qed

section \<open>Pending operations\<close>

text \<open>The pending operations are filed under their identifiers.\<close>

definition server_inv :: "Server \<Rightarrow> bool" where
  "server_inv s \<longleftrightarrow> distinct (gokeys (clientOps s)) \<and>
     (\<forall>(k, p) \<in> set (clientOps s). OperationID (operation p) = k)"

lemma server_inv_add: "server_inv s \<Longrightarrow> server_inv (add_client_op s oper)"
proof -
  assume inv: "server_inv s"
  have "(k, p) \<in> set (AList.update k' v m) \<Longrightarrow> (k, p) = (k', v) \<or> (k, p) \<in> set m" for k p k' v and m :: "(string, PendingOperation) gomap"
    by (induction m) (auto split: if_splits)
  with inv show ?thesis
    unfolding server_inv_def add_client_op_def by (fastforce simp: distinct_update)
qed

text \<open>What the ledger answers about an operation.\<close>

definition answer :: "Blockchain \<Rightarrow> Operation \<Rightarrow> bool \<times> bool \<times> bool" where
  "answer bc oper = snd (the (CheckOpConfirmed bc oper))"

definition settled :: "Blockchain \<Rightarrow> Operation \<Rightarrow> bool" where
  "settled bc oper \<longleftrightarrow> fst (answer bc oper)"

definition found :: "Blockchain \<Rightarrow> Operation \<Rightarrow> bool" where
  "found bc oper \<longleftrightarrow> fst (snd (answer bc oper))"

definition contested :: "Blockchain \<Rightarrow> Operation \<Rightarrow> bool" where
  "contested bc oper \<longleftrightarrow> snd (snd (answer bc oper))"

lemma CheckOpConfirmed_lastNode:
  "CheckOpConfirmed (bc\<lparr>bc_lastNode := a\<rparr>) oper = CheckOpConfirmed bc oper"
  by (simp add: CheckOpConfirmed_def getLastNodes_lastNode)

lemma CheckOpConfirmed_answer:
  assumes "bc_inv bc"
  shows "CheckOpConfirmed (bc\<lparr>bc_lastNode := a\<rparr>) oper =
    Some (queried bc, settled bc oper, found bc oper, contested bc oper)"
  unfolding CheckOpConfirmed_lastNode settled_def found_def contested_def answer_def
  by (simp add: CheckOpConfirmed_run [OF assms])

lemma check_pending_run:
  assumes "bc_inv bc"
  shows "\<exists>a'. check_pending (Blockchain_ledger it1 it2 it3) ps (bc\<lparr>bc_lastNode := a\<rparr>) removed resent =
    Some (bc\<lparr>bc_lastNode := a'\<rparr>,
      removed @ map (\<lambda>p. (operation p, \<not> contested bc (operation p))) (filter (\<lambda>p. settled bc (operation p)) ps),
      resent @ map operation (filter (\<lambda>p. \<not> found bc (operation p)) ps))"
proof (induction ps arbitrary: a removed resent)
  case (Cons p ps)
  have "ledger_CheckOpConfirmed (Blockchain_ledger it1 it2 it3) = CheckOpConfirmed"
    by (simp add: Blockchain_ledger_def)
  moreover define rm where "rm = (if settled bc (operation p) then removed @ [(operation p, \<not> contested bc (operation p))] else removed)"
  moreover define rs where "rs = (if found bc (operation p) then resent else resent @ [operation p])"
  ultimately have "check_pending (Blockchain_ledger it1 it2 it3) (p # ps) (bc\<lparr>bc_lastNode := a\<rparr>) removed resent =
      check_pending (Blockchain_ledger it1 it2 it3) ps (queried bc) rm rs"
    by (simp add: CheckOpConfirmed_answer [OF assms])
  then show ?case
    using Cons.IH [of "tip bc" rm rs] by (auto simp: rm_def rs_def)
qed auto

lemma map_of_filter_eq:
  "distinct (map fst m) \<Longrightarrow> map_of (filter (\<lambda>(k, v). P v) m) k =
    (case map_of m k of None \<Rightarrow> None | Some v \<Rightarrow> if P v then Some v else None)"
  by (induction m) (force split: option.splits simp: map_of_eq_None_iff)+

lemma fold_delete_fst:
  "fold (\<lambda>(oper, b). AList.delete (OperationID oper)) xs m = fold AList.delete (map (OperationID \<circ> fst) xs) m"
  by (induction xs arbitrary: m) auto

text \<open>C17: A round of \<^verbatim>\<open>checkConfirmedOperations\<close> answers exactly the waiting clients whose
  operation is confirmed, with failure if the ledger reports another miner's operation on the file;
  it removes exactly these operations from the pending ones, and sends every operation that is not
  on the chain to the miner again. The map of pending operations stays well-formed.\<close>

theorem checkConfirmedOperations_correct:
  assumes "bc_inv bc" "is_iter it" "server_inv s"
  shows "\<exists>s' bc' replies resent.
    checkConfirmedOperations it (Blockchain_ledger it1 it2 it3) s bc = Some (s', bc', replies, resent) \<and>
    server_inv s' \<and>
    (\<forall>k. map_of (clientOps s') k =
       (case map_of (clientOps s) k of
          None \<Rightarrow> None
        | Some p \<Rightarrow> if settled bc (operation p) then None else Some p)) \<and>
    set replies = {(operation p, \<not> contested bc (operation p)) | p. p \<in> snd ` set (clientOps s) \<and> settled bc (operation p)} \<and>
    set resent = {operation p | p. p \<in> snd ` set (clientOps s) \<and> \<not> found bc (operation p)}"
proof -
  let ?ps = "map snd (it (clientOps s))"
  let ?replies = "map (\<lambda>p. (operation p, \<not> contested bc (operation p))) (filter (\<lambda>p. settled bc (operation p)) ?ps)"
  let ?resent = "map operation (filter (\<lambda>p. \<not> found bc (operation p)) ?ps)"
  let ?m = "fold AList.delete (map (OperationID \<circ> fst) ?replies) (clientOps s)"
  have ps: "set ?ps = snd ` set (clientOps s)"
    using iter_set [OF assms(2)] by simp
  have keys: "distinct (gokeys (clientOps s))" and key: "\<And>k p. (k, p) \<in> set (clientOps s) \<Longrightarrow> OperationID (operation p) = k"
    using assms(3) by (auto simp: server_inv_def)
  have "set (map (OperationID \<circ> fst) ?replies) = (\<lambda>p. OperationID (operation p)) ` {p \<in> set ?ps. settled bc (operation p)}"
    by (auto simp: image_image)
  also have "\<dots> = {k. \<exists>p. (k, p) \<in> set (clientOps s) \<and> settled bc (operation p)}"
    unfolding ps using key by (auto simp: image_iff) (metis snd_conv)
  finally have dropped: "k \<in> set (map (OperationID \<circ> fst) ?replies) \<longleftrightarrow> settled bc (operation p)"
    if "(k, p) \<in> set (clientOps s)" for k p
    using that keys by (auto dest: eq_key_imp_eq_value)
  have m: "?m = filter (\<lambda>(k, p). \<not> settled bc (operation p)) (clientOps s)"
    unfolding fold_delete_filter
  proof (rule filter_cong [OF refl])
    fix e assume "e \<in> set (clientOps s)"
    then show "(fst e \<notin> set (map (OperationID \<circ> fst) ?replies)) = (case e of (k, p) \<Rightarrow> \<not> settled bc (operation p))"
      using dropped [of "fst e" "snd e"] unfolding case_prod_beta by (simp only: prod.collapse)
  qed
  obtain a where run: "check_pending (Blockchain_ledger it1 it2 it3) ?ps bc [] [] =
      Some (bc\<lparr>bc_lastNode := a\<rparr>, ?replies, ?resent)"
    using check_pending_run [OF assms(1), of it1 it2 it3 ?ps "bc_lastNode bc" "[]" "[]"] by auto
  let ?s = "s\<lparr>clientOps := ?m\<rparr>"
  have "checkConfirmedOperations it (Blockchain_ledger it1 it2 it3) s bc =
      Some (?s, bc\<lparr>bc_lastNode := a\<rparr>, ?replies, ?resent)"
    by (simp add: checkConfirmedOperations_def run fold_delete_fst)
  moreover have "server_inv ?s"
    using keys key unfolding m server_inv_def by (auto simp: distinct_map_filter)
  moreover have "map_of (clientOps ?s) k = (case map_of (clientOps s) k of
      None \<Rightarrow> None | Some p \<Rightarrow> if settled bc (operation p) then None else Some p)" for k
    using keys unfolding m by (auto simp: map_of_filter_eq split: option.split)
  moreover have "set ?replies = {(operation p, \<not> contested bc (operation p)) | p. p \<in> snd ` set (clientOps s) \<and> settled bc (operation p)}"
    "set ?resent = {operation p | p. p \<in> snd ` set (clientOps s) \<and> \<not> found bc (operation p)}"
    using ps by auto
  ultimately show ?thesis by blast
qed

theorem checkConfirmedOperations_correct_witness:
  "\<exists>s' bc' replies resent.
    checkConfirmedOperations rev (Blockchain_ledger rev rev rev)
      (add_client_op sample_server (sample_op Create ''A'' ''f'' ''x'')) tree5 = Some (s', bc', replies, resent) \<and>
    set replies = {(sample_op Create ''A'' ''f'' ''x'', True)} \<and> resent = [] \<and> map_of (clientOps s') ''x'' = None"
proof -
  let ?oper = "sample_op Create ''A'' ''f'' ''x''" and ?s = "add_client_op sample_server (sample_op Create ''A'' ''f'' ''x'')"
  have inv: "server_inv ?s"
    by (intro server_inv_add) (simp add: server_inv_def sample_server_def)
  have ops: "clientOps ?s = [(''x'', \<lparr>operation = ?oper\<rparr>)]"
    by (simp add: add_client_op_def sample_server_def sample_op_def)
  have "CheckOpConfirmed tree5 ?oper = Some (queried tree5, True, True, False)"
    by (simp add: CheckOpConfirmed_run [OF tree5_inv] tree5_main)
      (simp add: sample_defs has_op_def op_confirms_def confirmations_def rival_def scanned_def)
  then have "settled tree5 ?oper" "found tree5 ?oper" "\<not> contested tree5 ?oper"
    by (simp_all add: settled_def found_def contested_def answer_def)
  then show ?thesis
    using checkConfirmedOperations_correct [OF tree5_inv is_iter_rev inv, of rev rev rev] unfolding ops by auto
qed

text \<open>\<^verbatim>\<open>conflictPendingCreate\<close> keeps only the answer for the last creation it looks
  at. When creations of this file and of another one are pending, the conflict is reported in one
  iteration order of the map and missed in another one.\<close>

theorem conflictPendingCreate_misses:
  assumes "server_inv s" and mine: "(k, p) \<in> set (clientOps s)" "Op (operation p) = Create" "Filename (operation p) = fname"
    and other: "(k', p') \<in> set (clientOps s)" "Op (operation p') = Create" "Filename (operation p') \<noteq> fname"
  shows "(\<exists>it. is_iter it \<and> conflictPendingCreate it s fname) \<and>
    (\<exists>it. is_iter it \<and> \<not> conflictPendingCreate it s fname)"
proof -
  define to_end where "to_end x m = (if x \<in> set m then remove1 x m @ [x] else m)" for x and m :: "(string, PendingOperation) gomap"
  have it: "is_iter (to_end x)" for x
    by (auto simp: is_iter_def to_end_def)
  have last: "conflictPendingCreate (to_end (k, p)) s fname = (Filename (operation p) = fname)"
    if "(k, p) \<in> set (clientOps s)" "Op (operation p) = Create" for k p
    using that by (simp add: conflictPendingCreate_def to_end_def)
  show ?thesis
    using it last [OF mine(1,2)] last [OF other(1,2)] mine(3) other(3) by blast
qed

theorem conflictPendingCreate_misses_witness:
  "\<exists>it. is_iter it \<and> \<not> conflictPendingCreate it
     (add_client_op (add_client_op sample_server (sample_op Create ''A'' ''f'' ''x'')) (sample_op Create ''A'' ''g'' ''y'')) ''f''"
proof -
  let ?s = "add_client_op (add_client_op sample_server (sample_op Create ''A'' ''f'' ''x'')) (sample_op Create ''A'' ''g'' ''y'')"
  have inv: "server_inv ?s"
    by (intro server_inv_add) (simp add: server_inv_def sample_server_def)
  have "clientOps ?s = [(''x'', \<lparr>operation = sample_op Create ''A'' ''f'' ''x''\<rparr>), (''y'', \<lparr>operation = sample_op Create ''A'' ''g'' ''y''\<rparr>)]"
    by (simp add: add_client_op_def sample_server_def sample_op_def)
  then show ?thesis
    using conflictPendingCreate_misses [OF inv, of "''x''" "\<lparr>operation = sample_op Create ''A'' ''f'' ''x''\<rparr>" "''f''"
        "''y''" "\<lparr>operation = sample_op Create ''A'' ''g'' ''y''\<rparr>"]
    by (simp add: sample_op_def)
qed

end
