(* ===== verification/Rfslib.thy ===== *)
theory Rfslib
  imports P2p_Rpc
begin

text \<open>
  \<^verbatim>\<open>rfslib/rfslib.go\<close>: the client library. Record numbers are \<^verbatim>\<open>uint16\<close> in
  its interface and \<^verbatim>\<open>int\<close> on the wire. The call over \<^verbatim>\<open>net/rpc\<close> is the
  argument \<open>call\<close>: it returns the reply or an error. \<^verbatim>\<open>net/rpc\<close> transports only the
  text of an error, so a call never returns one of the typed errors of the interface.
\<close>

datatype client_error = Typed rfs_error | ServerError string

text \<open>The texts of the errors; a panic is not an error value.\<close>

fun rfs_Error :: "rfs_error \<Rightarrow> string" where
  "rfs_Error (DisconnectedError e) = ''RFS: Disconnected from the bclib ['' @ e @ '']''"
| "rfs_Error (BadFilenameError e) = ''RFS: Filename ['' @ e @ ''] has the wrong length''"
| "rfs_Error (FileDoesNotExistError e) = ''RFS: Cannot open file ['' @ e @ ''] in D mode as it does not exist locally''"
| "rfs_Error (FileExistsError e) = ''RFS: Cannot create file with filename ['' @ e @ ''] as it already exists''"
| "rfs_Error (FileMaxLenReachedError e) = ''RFS: File ['' @ e @ ''] has reached its maximum length''"
| "rfs_Error IndexPanic = []"

text \<open>\<^verbatim>\<open>net.ResolveTCPAddr\<close> and \<^verbatim>\<open>rpc.Dial\<close> are arguments.\<close>

definition Initialize ::
  "(string \<Rightarrow> string + 'a) \<Rightarrow> (string \<Rightarrow> string + 'c) \<Rightarrow> string \<Rightarrow> string \<Rightarrow> rfs_error + 'c" where
  "Initialize resolve dial localAddr minerAddr =
     (case resolve localAddr of
        Inl err \<Rightarrow> Inl (DisconnectedError localAddr)
      | Inr _ \<Rightarrow>
          (case resolve minerAddr of
             Inl err \<Rightarrow> Inl (DisconnectedError minerAddr)
           | Inr _ \<Rightarrow>
               (case dial minerAddr of
                  Inl err \<Rightarrow> Inl (DisconnectedError minerAddr)
                | Inr conn \<Rightarrow> Inr conn)))"

definition CreateFile_client :: "(string \<Rightarrow> string + bool) \<Rightarrow> string \<Rightarrow> client_error + unit" where
  "CreateFile_client call fname =
     (if length fname > 64 then Inl (Typed (BadFilenameError fname))
      else case call fname of
             Inl err \<Rightarrow> Inl (ServerError err)
           | Inr created \<Rightarrow> Inr ())"

definition ListFiles_client :: "(int \<Rightarrow> string + string list) \<Rightarrow> client_error + string list" where
  "ListFiles_client call =
     (case call 1 of Inl err \<Rightarrow> Inl (ServerError err) | Inr reply \<Rightarrow> Inr reply)"

definition TotalRecs_client :: "(string \<Rightarrow> string + int) \<Rightarrow> string \<Rightarrow> client_error + uint16" where
  "TotalRecs_client call fname =
     (case call fname of
        Inl err \<Rightarrow> Inl (ServerError err)
      | Inr reply \<Rightarrow> Inr (word_of_int reply))"

definition ReadRec_client ::
  "(ReadRecordInfo \<Rightarrow> string + bytes) \<Rightarrow> string \<Rightarrow> uint16 \<Rightarrow> client_error + bytes" where
  "ReadRec_client call fname recordNum =
     (case call \<lparr>RecNum = uint recordNum, read_Fname = fname\<rparr> of
        Inl err \<Rightarrow> Inl (ServerError err)
      | Inr reply \<Rightarrow> Inr reply)"

definition AppendRec_client ::
  "(AppendRecordInfo \<Rightarrow> string + int) \<Rightarrow> string \<Rightarrow> bytes \<Rightarrow> client_error + uint16" where
  "AppendRec_client call fname record =
     (case call \<lparr>append_Data = record, append_Fname = fname\<rparr> of
        Inl err \<Rightarrow> Inl (ServerError err)
      | Inr reply \<Rightarrow> Inr (word_of_int reply))"

text \<open>The call of a handler over the network, with its errors as texts.\<close>

definition over_rpc :: "(rfs_error \<Rightarrow> string) \<Rightarrow> rfs_error + 'r \<Rightarrow> string + 'r" where
  "over_rpc msg r = map_sum msg (\<lambda>x. x) r"

text \<open>The whole handlers of the server, with the answer that arrives on \<^verbatim>\<open>ready\<close> as the
  argument \<open>ready\<close> and the ledger at that time.\<close>

definition CreateFile_rpc ::
  "host \<Rightarrow> int64 \<Rightarrow> (string, PendingOperation) iter \<Rightarrow> (Operation \<Rightarrow> bool) \<Rightarrow> Server \<Rightarrow> string \<Rightarrow> rfs_error + bool" where
  "CreateFile_rpc H now it ready s filename =
     (case CreateFile_submit H now it s filename of
        Inl err \<Rightarrow> Inl err
      | Inr (s', oper) \<Rightarrow> CreateFile_finish filename (ready oper))"

definition AppendRecord_rpc ::
  "host \<Rightarrow> int64 \<Rightarrow> 'l RFSLedger \<Rightarrow> 'l \<Rightarrow> (Operation \<Rightarrow> bool \<times> 'l) \<Rightarrow> Server \<Rightarrow> AppendRecordInfo \<Rightarrow> (rfs_error + int) option" where
  "AppendRecord_rpc H now L l ready s recInfo =
     do {
       r \<leftarrow> AppendRecord_submit H now L s l recInfo;
       (case r of
          Inl err \<Rightarrow> Some (Inl err)
        | Inr (s', oper) \<Rightarrow> AppendRecord_finish L (snd (ready oper)) oper recInfo (fst (ready oper)))
     }"

section \<open>Appending and reading back\<close>

lemma GetFile_lastNode: "GetFile (bc\<lparr>bc_lastNode := a\<rparr>) fname = GetFile bc fname"
  by (simp add: GetFile_def getLastConfirmedNode_def getLastNodes_lastNode)

lemma AppendRecord_submit_oper:
  assumes "AppendRecord_submit H now L s l recInfo = Some (Inr (s', oper))"
  shows "Op oper = Append" "Filename oper = append_Fname recInfo" "Data oper = append_Data recInfo"
  using assms unfolding AppendRecord_submit_def NewOperation_def
  by (auto simp: Let_def bind_eq_Some_conv split: if_splits)

lemma append_reply:
  assumes "bc_inv bc" "Op oper = Append"
    and "checkConfirmedOperations it (Blockchain_ledger it1 it2 it3) s bc = Some (s', bc', replies, resent)"
    and "(oper, success) \<in> set replies"
  shows "success" "settled bc oper" "\<exists>a. bc' = bc\<lparr>bc_lastNode := a\<rparr>"
proof -
  obtain a where "check_pending (Blockchain_ledger it1 it2 it3) (map snd (it (clientOps s))) bc [] [] =
      Some (bc\<lparr>bc_lastNode := a\<rparr>,
        map (\<lambda>p. (operation p, \<not> contested bc (operation p))) (filter (\<lambda>p. settled bc (operation p)) (map snd (it (clientOps s)))),
        map operation (filter (\<lambda>p. \<not> found bc (operation p)) (map snd (it (clientOps s)))))"
    using check_pending_run [OF assms(1), of it1 it2 it3 _ "bc_lastNode bc" "[]" "[]"] by fastforce
  with assms(3,4) have "success = (\<not> contested bc oper)" "settled bc oper" "bc' = bc\<lparr>bc_lastNode := a\<rparr>"
    by (auto simp: checkConfirmedOperations_def)
  moreover have "\<not> contested bc oper"
    using assms(2) by (simp add: contested_def answer_def CheckOpConfirmed_run [OF assms(1)] rival_def)
  ultimately show "success" "settled bc oper" "\<exists>a. bc' = bc\<lparr>bc_lastNode := a\<rparr>" by blast+
qed

text \<open>C13: A record that a client appends can be read back through the library. The handler
  \<^verbatim>\<open>AppendRecord\<close> makes an operation of the record and waits; when a round of
  \<^verbatim>\<open>checkConfirmedOperations\<close> answers this operation, with whatever answer, and the operation
  itself is on the longest chain and the file has at most \<open>2 ^ 16\<close> records, then
  \<^verbatim>\<open>AppendRec\<close> returns a record number, and \<^verbatim>\<open>ReadRec\<close> with this number returns the
  512 bytes of the record, at this time and later as long as the file only grows: the bytes that the
  client passed are those of the operation, and the conversions between \<^verbatim>\<open>int\<close> and
  \<^verbatim>\<open>uint16\<close> lose nothing.\<close>

theorem AppendRec_ReadRec_roundtrip:
  assumes L: "L = Blockchain_ledger it1 it2 it3" and inv: "chain_inv bc"
    and submit: "AppendRecord_submit H now L s l \<lparr>append_Data = record, append_Fname = fname\<rparr> = Some (Inr (s', oper))"
    and round: "checkConfirmedOperations it L s1 bc = Some (s2, bc', replies, resent)" "(oper, success) \<in> set replies"
    and chain: "on_main_chain bc oper"
    and short: "GetFile bc fname = Some (bc1, fl, ok)" "length (FileOperations fl) \<le> 2 ^ 16"
    and later: "GetFile (ls 0) fname = Some (bc2, fl', True)" "prefix (FileOperations fl) (FileOperations fl')"
    and reader: "isConnected s3" "map_of (confirmedFiles s3) fname \<noteq> None"
    and full: "length record = 512"
  shows "\<exists>n.
    AppendRec_client (\<lambda>info. over_rpc msg (the (AppendRecord_rpc H now L l (\<lambda>_. (success, bc')) s info))) fname record = Inr n \<and>
    ReadRec_client (\<lambda>info. over_rpc msg (the (ReadRecord L s3 ls info))) fname n = Inr record"
proof -
  let ?info = "\<lparr>append_Data = record, append_Fname = fname\<rparr>"
  note oper = AppendRecord_submit_oper [OF submit, simplified]
  have bc: "bc_inv bc" using inv by (simp add: chain_inv_def)
  note reply = append_reply [OF bc oper(1) round(1) [unfolded L] round(2)]
  have conf: "CheckOpConfirmed bc oper = Some (queried bc, True, found bc oper, contested bc oper)"
    using CheckOpConfirmed_answer [OF bc, of "bc_lastNode bc" oper] reply(2) by simp
  obtain k where k: "AppendRecord_finish L bc oper ?info True = Some (Inr (int k))"
      "k < length (FileOperations fl)" "FileOperations fl ! k = oper"
    using tree_files.append_finds_record [where ?it1.0 = it1 and ?it2.0 = it2 and ?it3.0 = it3,
        OF inv conf oper(1) chain, of ?info] oper(2) L short(1) by auto
  have "AppendRecord_finish L bc' oper ?info success = Some (Inr (int k))"
    using k(1) reply(1,3) L by (auto simp: AppendRecord_finish_def Blockchain_ledger_def GetFile_lastNode)
  then have "AppendRecord_rpc H now L l (\<lambda>_. (success, bc')) s ?info = Some (Inr (int k))"
    using submit by (simp add: AppendRecord_rpc_def)
  moreover have "ledger_GetFile L (ls 0) fname = Some (bc2, fl', True)"
    "k < length (FileOperations fl')" "FileOperations fl' ! k = oper"
    using later k(2,3) L by (auto simp: Blockchain_ledger_def prefix_def nth_append)
  then have "ReadRecord L s3 ls \<lparr>RecNum = int k, read_Fname = fname\<rparr> = Some (Inr (copy_record record))"
    using read_loop_now [where ls = ls and i = 0, of L fname bc2 fl' k] reader oper(3) by (auto simp: ReadRecord_def)
  moreover have "copy_record record = record" using full by (simp add: copy_record_def)
  moreover have "uint (word_of_int (int k) :: uint16) = int k"
    using k(2) short(2) by (simp add: unsigned_of_nat take_bit_nat_eq_self)
  ultimately show ?thesis by (simp add: AppendRec_client_def ReadRec_client_def over_rpc_def)
qed

text \<open>The miner A appends the record of \<open>tree6\<close>, with a host that gives its operation the
  identifier \<open>y\<close>.\<close>

theorem AppendRec_ReadRec_roundtrip_witness:
  "let H = sample_host\<lparr>md5_sum := \<lambda>_. ''y''\<rparr>; L = Blockchain_ledger rev rev rev in
   \<exists>n. AppendRec_client (\<lambda>info. over_rpc (\<lambda>_. []) (the (AppendRecord_rpc H 0 L tree6 (\<lambda>_. (True, queried tree6)) sample_server info)))
         ''f'' sample_data = Inr n \<and>
       ReadRec_client (\<lambda>info. over_rpc (\<lambda>_. []) (the (ReadRecord L sample_server (\<lambda>_. tree6) info))) ''f'' n = Inr sample_data"
proof -
  let ?oper = "sample_op Append ''A'' ''f'' ''y''" and ?H = "sample_host\<lparr>md5_sum := \<lambda>_. ''y''\<rparr>"
  let ?L = "Blockchain_ledger rev rev rev" and ?s = "add_client_op sample_server (sample_op Append ''A'' ''f'' ''y'')"
  have fl: "GetFile tree6 ''f'' = Some (queried tree6, \<lparr>Fname = ''f'', FileOperations = [?oper], Deleted = False\<rparr>, True)"
    using GetFile_run [OF tree6_facts(1), of "''f''"]
    by (simp add: confirmed_chain_def tree6_facts tree5_main)
      (simp add: sample_defs records_def is_record_def deletes_def mentions_def)
  have submit: "AppendRecord_submit ?H 0 ?L sample_server tree6 \<lparr>append_Data = sample_data, append_Fname = ''f''\<rparr> = Some (Inr (?s, ?oper))"
    using fl by (simp add: AppendRecord_submit_def NewOperation_def Blockchain_ledger_def sample_server_def sample_op_def Let_def)
  have round: "checkConfirmedOperations rev ?L ?s tree6 = Some (?s\<lparr>clientOps := []\<rparr>, queried tree6, [(?oper, True)], [])"
    using tree6_confirmed(2)
    by (simp add: checkConfirmedOperations_def add_client_op_def sample_server_def Blockchain_ledger_def sample_op_def)
  have "\<exists>n. AppendRec_client (\<lambda>info. over_rpc (\<lambda>_. []) (the (AppendRecord_rpc ?H 0 ?L tree6 (\<lambda>_. (True, queried tree6)) sample_server info)))
         ''f'' sample_data = Inr n \<and>
       ReadRec_client (\<lambda>info. over_rpc (\<lambda>_. []) (the (ReadRecord ?L sample_server (\<lambda>_. tree6) info))) ''f'' n = Inr sample_data"
    by (rule AppendRec_ReadRec_roundtrip [OF refl tree6_confirmed(1) submit round _ tree6_confirmed(3) fl _ fl])
      (simp_all add: sample_server_def sample_data_def)
  then show ?thesis by (simp add: Let_def)
qed

section \<open>The number of records\<close>

text \<open>C40: The server accepts an append to a file with 65535 records; the file then has 65536 records,
  and for such a file the library's \<^verbatim>\<open>TotalRecs\<close> returns 0: the number of records wraps
  around at \<open>2 ^ 16\<close>.\<close>

theorem TotalRecs_wraps_around:
  assumes "isConnected s" "map_of (confirmedFiles s) fname \<noteq> None"
    and full: "ledger_GetFile L l fname = Some (l', fl, True)" "length (FileOperations fl) = 65535"
    and more: "ledger_GetFile L l2 fname = Some (l2', fl2, True)" "length (FileOperations fl2) = 65536"
  shows "(\<exists>s' oper. AppendRecord_submit H now L s l \<lparr>append_Data = record, append_Fname = fname\<rparr> = Some (Inr (s', oper))) \<and>
    (\<exists>r. TotalRecs_rpc L s l2 fname = Some r \<and> TotalRecs_client (\<lambda>_. over_rpc msg r) fname = Inr 0)"
proof
  show "\<exists>s' oper. AppendRecord_submit H now L s l \<lparr>append_Data = record, append_Fname = fname\<rparr> = Some (Inr (s', oper))"
    using assms(1,2) full by (auto simp: AppendRecord_submit_def Let_def)
  have "(word_of_int 65536 :: uint16) = 0"
    by (simp add: word_of_int_eq_0_iff)
  then show "\<exists>r. TotalRecs_rpc L s l2 fname = Some r \<and> TotalRecs_client (\<lambda>_. over_rpc msg r) fname = Inr 0"
    using assms(1,2) more by (auto simp: TotalRecs_rpc_def TotalRecs_client_def over_rpc_def)
qed

text \<open>A ledger that holds one file with a given number of records.\<close>

definition one_file_ledger :: "nat RFSLedger" where
  "one_file_ledger =
     \<lparr>ledger_GetLastHash = \<lambda>l. Some (l, []), ledger_GetLastBlocks = \<lambda>l. Some (l, []),
      ledger_ValidateOperations = \<lambda>l ops h. Some ([], False), ledger_ListFiles = \<lambda>l. Some (l, [''f'']),
      ledger_GetFile = \<lambda>l f. Some (l, \<lparr>Fname = f, FileOperations = replicate l (sample_op Append ''A'' f ''y''), Deleted = False\<rparr>, True),
      ledger_NumRecs = \<lambda>l f. Some (l, int l, True), ledger_CheckOpConfirmed = \<lambda>l oper. Some (l, False, False, False)\<rparr>"

theorem TotalRecs_wraps_around_witness:
  "(\<exists>s' oper. AppendRecord_submit sample_host 0 one_file_ledger sample_server 65535
      \<lparr>append_Data = [], append_Fname = ''f''\<rparr> = Some (Inr (s', oper))) \<and>
   (\<exists>r. TotalRecs_rpc one_file_ledger sample_server 65536 ''f'' = Some r \<and>
      TotalRecs_client (\<lambda>_. over_rpc (\<lambda>_. []) r) ''f'' = Inr 0)"
  by (rule TotalRecs_wraps_around [of sample_server "''f''" one_file_ledger 65535 65535
        "\<lparr>Fname = ''f'', FileOperations = replicate 65535 (sample_op Append ''A'' ''f'' ''y''), Deleted = False\<rparr>" 65536 65536
        "\<lparr>Fname = ''f'', FileOperations = replicate 65536 (sample_op Append ''A'' ''f'' ''y''), Deleted = False\<rparr>"])
    (simp_all add: sample_server_def one_file_ledger_def)

section \<open>Errors\<close>

lemma rfs_Error_inj:
  assumes "rfs_Error e = rfs_Error e'" "e \<noteq> IndexPanic" "e' \<noteq> IndexPanic"
  shows "e = e'"
  using assms by (cases e; cases e') auto

text \<open>C34: While a miner has no peers, every call of the library returns the error of the server that
  names the miner, except that \<^verbatim>\<open>CreateFile\<close> itself rejects a file name of more than 64 bytes;
  but only the text of the error, since \<^verbatim>\<open>net/rpc\<close> does not transport the type
  \<^verbatim>\<open>DisconnectedError\<close> that the interface documents. The text identifies the error, with the
  identifier of the miner and not its address, which a comment promises.\<close>

theorem disconnected_error_loses_type:
  assumes off: "\<not> isConnected s"
  defines "err \<equiv> ServerError (rfs_Error (DisconnectedError (srv_minerID s)))"
  shows "CreateFile_client (\<lambda>f. over_rpc rfs_Error (CreateFile_rpc H now it ready s f)) fname =
      Inl (if length fname > 64 then Typed (BadFilenameError fname) else err) \<and>
    ListFiles_client (\<lambda>_. over_rpc rfs_Error (ListFiles_rpc it' s)) = Inl err \<and>
    TotalRecs_client (\<lambda>f. over_rpc rfs_Error (the (TotalRecs_rpc L s l f))) fname = Inl err \<and>
    ReadRec_client (\<lambda>info. over_rpc rfs_Error (the (ReadRecord L s ls info))) fname n = Inl err \<and>
    AppendRec_client (\<lambda>info. over_rpc rfs_Error (the (AppendRecord_rpc H now L l ready' s info))) fname rec = Inl err \<and>
    (\<forall>e. err = ServerError (rfs_Error e) \<and> e \<noteq> IndexPanic \<longleftrightarrow> e = DisconnectedError (srv_minerID s))"
  using off rfs_Error_inj [of "DisconnectedError (srv_minerID s)"]
  by (auto simp: err_def CreateFile_client_def CreateFile_rpc_def CreateFile_submit_def ListFiles_client_def ListFiles_rpc_def
      TotalRecs_client_def TotalRecs_rpc_def ReadRec_client_def ReadRecord_def AppendRec_client_def AppendRecord_rpc_def
      AppendRecord_submit_def over_rpc_def simp del: rfs_Error.simps)

theorem disconnected_error_loses_type_witness:
  "TotalRecs_client (\<lambda>f. over_rpc rfs_Error (the (TotalRecs_rpc one_file_ledger (NewRPCServer sample_cfg) 3 f))) ''f'' =
     Inl (ServerError ''RFS: Disconnected from the bclib []'')"
proof -
  have "\<not> isConnected (NewRPCServer sample_cfg)" "srv_minerID (NewRPCServer sample_cfg) = []"
    by (simp_all add: NewRPCServer_def sample_cfg_def zero_Settings_def)
  then show ?thesis
    using disconnected_error_loses_type [of "NewRPCServer sample_cfg" sample_host 0 rev "\<lambda>_. True" "''f''" rev one_file_ledger 3 "\<lambda>_. 3" 0 "\<lambda>_. (True, 3)" "[]"]
    by simp
qed

text \<open>\<^verbatim>\<open>Initialize\<close> returns a client exactly when both addresses resolve and the miner can be
  dialed, and otherwise a \<^verbatim>\<open>DisconnectedError\<close> with the address that failed first.\<close>

theorem Initialize_outcome:
  "case Initialize resolve dial localAddr minerAddr of
     Inr conn \<Rightarrow> \<not> isl (resolve localAddr) \<and> \<not> isl (resolve minerAddr) \<and> dial minerAddr = Inr conn
   | Inl err \<Rightarrow> err = DisconnectedError (if isl (resolve localAddr) then localAddr else minerAddr) \<and>
       (isl (resolve localAddr) \<or> isl (resolve minerAddr) \<or> isl (dial minerAddr))"
  by (simp add: Initialize_def isl_def split: sum.split)

end
