(* ===== verification/Mining_Worker.thy ===== *)
theory Mining_Worker
  imports Bclib_Interface
begin

text \<open>
  \<^verbatim>\<open>mining/worker.go\<close>: the worker that mines a no-op block until a batch of operations
  arrives, and then an op block. \<^verbatim>\<open>StartMining\<close> waits for one of three events; what it does
  for each is a definition over the event. The ledger is used through its interface; other goroutines
  may change it between two calls, so the \<open>k\<close>-th call finds the method table \<open>Ls k\<close> (the
  iteration orders of that call) and the state \<open>ls k\<close>.
\<close>

record Worker =
  worker_MinerID :: string
  worker_PowPerNoOpBlock :: uint8
  worker_PowPerOpBlock :: uint8

definition NewWorker :: "string \<Rightarrow> uint8 \<Rightarrow> uint8 \<Rightarrow> Worker" where
  "NewWorker wid powPerNoOpBlock powPerOpBlock =
     \<lparr>worker_MinerID = wid, worker_PowPerNoOpBlock = powPerNoOpBlock,
      worker_PowPerOpBlock = powPerOpBlock\<rparr>"

text \<open>What the worker finds first: \<^verbatim>\<open>Stop\<close> was called, the no-op block is mined, or a
  batch of operations.\<close>

datatype worker_event = StopWorker | NoOpDone | Batch "Operation list"

text \<open>The block that \<^verbatim>\<open>mineNoOp\<close> sends; \<open>stop\<close> says when the channel
  \<^verbatim>\<open>stopNoOp\<close> is closed.\<close>

definition mineNoOp :: "host \<Rightarrow> int64 \<Rightarrow> Worker \<Rightarrow> bytes \<Rightarrow> (nat \<Rightarrow> bool) \<Rightarrow> Block" where
  "mineNoOp H now w previousHash stop =
     NewBlock H now [] previousHash (worker_MinerID w) (uint (worker_PowPerNoOpBlock w)) stop"

text \<open>The loop over the last blocks; \<open>V i\<close> is the \<open>i\<close>-th call of
  \<^verbatim>\<open>ValidateOperations\<close>.\<close>

fun select_loop ::
  "(nat \<Rightarrow> Operation list \<Rightarrow> bytes \<Rightarrow> (Operation list \<times> bool) option) \<Rightarrow> nat \<Rightarrow> Operation list
     \<Rightarrow> Block list \<Rightarrow> Operation list \<Rightarrow> bytes \<Rightarrow> (Operation list \<times> bytes) option" where
  "select_loop V i filteredOperations [] bestOps prevHash = Some (bestOps, prevHash)"
| "select_loop V i filteredOperations (block # lastBlocks) bestOps prevHash =
     do {
       (validatedOperations, ok) \<leftarrow> V i filteredOperations prevHash;
       (if length validatedOperations \<ge> length bestOps then
          select_loop V (i + 1) filteredOperations lastBlocks validatedOperations (Hash block)
        else
          select_loop V (i + 1) filteredOperations lastBlocks bestOps prevHash)
     }"

text \<open>The result: the op block that is sent, if any, and whether the no-op mining is stopped.\<close>

definition StartMining ::
  "host \<Rightarrow> int64 \<Rightarrow> (Operation list \<Rightarrow> Operation list) \<Rightarrow> Worker \<Rightarrow> (nat \<Rightarrow> 'l RFSLedger) \<Rightarrow> (nat \<Rightarrow> 'l)
     \<Rightarrow> worker_event \<Rightarrow> (Block option \<times> bool) option" where
  "StartMining H now srt w Ls ls event =
     (case event of
        StopWorker \<Rightarrow> Some (None, True)
      | NoOpDone \<Rightarrow> Some (None, False)
      | Batch ops \<Rightarrow>
          (let filteredOperations = FilterInvalidOperations srt ops
           in do {
                (l1, prevHash) \<leftarrow> ledger_GetLastHash (Ls 1) (ls 1);
                (l2, lastBlocks) \<leftarrow> ledger_GetLastBlocks (Ls 2) (ls 2);
                (bestOps, prevHash') \<leftarrow>
                  select_loop (\<lambda>i. ledger_ValidateOperations (Ls (3 + i)) (ls (3 + i))) 0
                    filteredOperations lastBlocks [] prevHash;
                Some (if length bestOps > 0 then
                        (Some (NewBlock H now bestOps prevHash' (worker_MinerID w)
                                 (uint (worker_PowPerOpBlock w)) (\<lambda>_. False)), True)
                      else (None, False))
              }))"

section \<open>What is mined\<close>

text \<open>When all last blocks have the same hash the loop validates on the block it mines on.\<close>

lemma select_loop_single:
  assumes "\<forall>b \<in> set bs. Hash b = h" and "\<And>i. \<exists>valid ok. V i ops h = Some (valid, ok) \<and> P valid" and "P best"
  shows "\<exists>best'. select_loop V i ops bs best h = Some (best', h) \<and> P best'"
  using assms(1,3)
proof (induction bs arbitrary: i best)
  case (Cons b bs)
  obtain valid ok where "V i ops h = Some (valid, ok)" "P valid" using assms(2) by blast
  then show ?case
    using Cons.IH [of valid "i + 1"] Cons.IH [of best "i + 1"] Cons.prems by simp
qed simp

context mining_ledger
begin

text \<open>On a ledger with one last block, the operations of the mined block are acceptable on the
  block it extends.\<close>

lemma worker_block_acceptable:
  assumes "inv l" "ledger_GetLastBlocks L l = Some (l', bs)" "\<forall>b \<in> set bs. Hash b = h" "sorts_ops srt"
    and "accepts l [] h"
  shows "\<exists>best. accepts l best h \<and> set best \<subseteq> set ops \<and>
    StartMining H now srt w (\<lambda>_. L) (\<lambda>_. l) (Batch ops) =
      Some (if best = [] then (None, False)
            else (Some (NewBlock H now best h (worker_MinerID w) (uint (worker_PowPerOpBlock w)) (\<lambda>_. False)), True))"
proof -
  obtain bs' l'' where last: "ledger_GetLastBlocks L l = Some (l'', bs')" "bs' \<noteq> []"
      "ledger_GetLastHash L l = Some (l'', Hash (hd bs'))"
    using last_returns [OF assms(1)] by blast
  then have h: "Hash (hd bs) = h" and bs: "bs' = bs"
    using assms(2,3) by auto
  let ?f = "FilterInvalidOperations srt ops"
  have d: "distinct (map filter_key ?f)"
    by (simp add: FilterInvalidOperations_firsts firsts_by_distinct)
  have sub: "set ?f \<subseteq> set ops"
    using list_emb_set [OF firsts_by_subseq [of filter_key "{}" "srt ops"]] sorts_ops_set [OF assms(4), of ops]
    unfolding FilterInvalidOperations_firsts by blast
  have "\<exists>valid ok. ledger_ValidateOperations L l ?f h = Some (valid, ok) \<and> accepts l valid h \<and> set valid \<subseteq> set ops"
    using validate_returns [OF assms(1), of ?f h] validate_accepts [OF assms(1) d] sub by (meson order_trans)
  then obtain best where "select_loop (\<lambda>i. ledger_ValidateOperations L l) 0 ?f bs [] h = Some (best, h)"
      "accepts l best h \<and> set best \<subseteq> set ops"
    using select_loop_single [OF assms(3), of "\<lambda>i. ledger_ValidateOperations L l" ?f
        "\<lambda>valid. accepts l valid h \<and> set valid \<subseteq> set ops" "[]" 0] assms(5) by auto
  then show ?thesis
    using last h bs assms(2) by (intro exI [of _ best]) (simp add: StartMining_def Let_def)
qed

end

text \<open>C18: The block that the worker mines for a batch has only operations of the batch, and
  \<^verbatim>\<open>AddBlock\<close> accepts it, under these conditions: the tree has one longest chain and does not
  change while the worker mines, the worker uses the difficulty of the tree's configuration, the search
  has found a proof of work, and the hash of the block is new. This holds for every iteration order.\<close>

theorem worker_block_accepted:
  assumes "chain_inv bc" "is_iter it1" "is_iter it2" "sorts_ops srt"
    and "GetLastBlocks bc = Some (bc', bs)" "\<forall>b \<in> set bs. Hash b = h"
    and "worker_PowPerOpBlock w = PowPerOpBlock (bc_config bc)"
    and run: "StartMining H now srt w (\<lambda>_. Blockchain_ledger it1 it2 it3) (\<lambda>_. bc) (Batch ops) = Some (Some b, stopped)"
    and pow: "Validate H (NewProofOfWork b (uint (worker_PowPerOpBlock w)))" and new: "\<not> HasBlock bc (Hash b)"
  shows "Operations b \<noteq> [] \<and> set (Operations b) \<subseteq> set ops \<and>
    (\<exists>bc''. AddBlock H it1 it2 bc b = Some (Inr bc'') \<and> GetBlock bc'' (Hash b) = Some b)"
proof -
  have inv: "bc_inv bc" using assms(1) by (simp add: chain_inv_def)
  obtain lns where "getLastNodes bc = Some (queried bc, lns)" "lns \<noteq> []" "set lns = deepest bc"
    using getLastNodes_tip [OF inv] by metis
  then have "bs = map (block_at (bc_heap bc)) lns" "lns \<noteq> []" "set lns \<subseteq> live bc"
    using assms(5) by (auto simp: GetLastBlocks_def deepest_def)
  then have "h \<in> (\<lambda>a. Hash (block_at (bc_heap bc) a)) ` live bc"
    using assms(6) by (cases lns) auto
  then obtain p where p: "map_of (bc_m bc) h = Some p"
    using bc_inv_map_of [OF inv] by blast
  have ml: "mining_ledger (Blockchain_ledger it1 it2 it3) chain_inv accepts_ops"
    by (rule map_orders.is_mining_ledger [OF map_orders.intro [OF assms(2,3)]])
  have last: "ledger_GetLastBlocks (Blockchain_ledger it1 it2 it3) bc = Some (bc', bs)" and none: "accepts_ops bc [] h"
    using assms(5) by (simp_all add: Blockchain_ledger_def accepts_ops_def)
  obtain best where best: "accepts_ops bc best h" "set best \<subseteq> set ops"
    and "StartMining H now srt w (\<lambda>_. Blockchain_ledger it1 it2 it3) (\<lambda>_. bc) (Batch ops) =
      Some (if best = [] then (None, False)
            else (Some (NewBlock H now best h (worker_MinerID w) (uint (worker_PowPerOpBlock w)) (\<lambda>_. False)), True))"
    using mining_ledger.worker_block_acceptable [OF ml assms(1) last assms(6,4) none, of ops H now w] by blast
  with run have b: "best \<noteq> []" "b = NewBlock H now best h (worker_MinerID w) (uint (worker_PowPerOpBlock w)) (\<lambda>_. False)"
    by (auto split: if_splits)
  then have f: "Operations b = best" "PreviousHash b = h" by simp_all
  have "acceptable (bc_config bc) best (the (chain_blocks (bc_heap bc) (Some p)))"
    using best(1) b(1) p by (auto simp: accepts_ops_def)
  then have "AddBlock H it1 it2 bc b = Some (Inr (link_block bc b p))"
    using p f pow new assms(7) b(1) by (simp add: AddBlock_eq [OF inv assms(2,3)] block_difficulty_def)
  then show ?thesis
    using f b(1) best(2) by (simp add: GetBlock_def link_block_new newNode_def)
qed

definition sample_create :: Operation where
  "sample_create = sample_op Create ''A'' ''f'' ''z''"

abbreviation id_ledger :: "Blockchain RFSLedger" where
  "id_ledger \<equiv> Blockchain_ledger (\<lambda>m. m) (\<lambda>m. m) (\<lambda>m. m)"

lemma sample_filter: "FilterInvalidOperations (sort_key op_time) [sample_create] = [sample_create]"
  by (simp add: FilterInvalidOperations_def sample_create_def sample_op_def)

lemma validate_sample_create:
  assumes "map_of (bc_m bc) h = Some p" "chain_blocks (bc_heap bc) (Some p) = Some bs" "bc_config bc = sample_cfg"
    and "acceptable sample_cfg [sample_create] bs"
  shows "ValidateOperations (\<lambda>m. m) (\<lambda>m. m) bc [sample_create] h = Some ([sample_create], True)"
proof -
  obtain valid where v: "ValidateOperations (\<lambda>m. m) (\<lambda>m. m) bc [sample_create] h = Some (valid, True)"
    using ValidateOperations_acceptable [OF is_iter_id is_iter_id assms(1,2)] assms(3,4) by metis
  note part = ValidateOperations_part [OF is_iter_id is_iter_id assms(1,2) v]
  obtain len: "length valid = 1"
    using v ValidateOperations_run [OF is_iter_id is_iter_id _ assms(1,2), of "[sample_create]"] by auto
  then obtain x where "valid = [x]" by (cases valid) auto
  with part(1) v show ?thesis by simp
qed

lemma sample_hash: "Hash (NewBlock sample_host 0 [sample_create] h ''A'' 0 (\<lambda>_. False)) = [CHR 0x0D]"
proof -
  have "char_of (13 :: nat) = CHR 0x0D" by code_simp
  then show ?thesis
    by (simp add: NewBlock_def Run_def run_loop.simps maxNonce_def NewProofOfWork_def prepareData_def IntToHex_def
        sample_host_def sample_create_def Let_def)
qed

lemma sample_last:
  "getLastNodes tree1 = Some (tree1\<lparr>bc_lastNode := 1\<rparr>, [1])"
  by (simp add: getLastNodes_def last_loop.simps tree_defs sample_defs)

theorem worker_block_accepted_witness:
  "\<exists>b bc''. StartMining sample_host 0 (sort_key op_time) (NewWorker ''A'' 0 0) (\<lambda>_. id_ledger) (\<lambda>_. tree1)
      (Batch [sample_create]) = Some (Some b, True) \<and>
    AddBlock sample_host (\<lambda>m. m) (\<lambda>m. m) tree1 b = Some (Inr bc'') \<and> GetBlock bc'' (Hash b) = Some b"
proof -
  let ?b = "NewBlock sample_host 0 [sample_create] ''1'' ''A'' 0 (\<lambda>_. False)"
  have ok: "acceptable sample_cfg [sample_create] [block1, NewGenesisBlock 0 ''g'']"
    by (simp add: acceptable_def balance_simps sample_create_def sample_defs repeats_creation_def op_cost_def block_reward_def)
  have v: "ValidateOperations (\<lambda>m. m) (\<lambda>m. m) tree1 [sample_create] ''1'' = Some ([sample_create], True)"
    by (rule validate_sample_create [OF _ sample_chains(2) _ ok]) (simp_all add: sample_map)
  have last: "GetLastBlocks tree1 = Some (tree1\<lparr>bc_lastNode := 1\<rparr>, [block1])"
    "GetLastHash tree1 = Some (tree1\<lparr>bc_lastNode := 1\<rparr>, ''1'')"
    by (simp_all add: GetLastBlocks_def GetLastHash_def sample_last) (simp_all add: tree_defs sample_defs)
  have run: "StartMining sample_host 0 (sort_key op_time) (NewWorker ''A'' 0 0) (\<lambda>_. id_ledger) (\<lambda>_. tree1)
      (Batch [sample_create]) = Some (Some ?b, True)"
    by (simp add: StartMining_def sample_filter Blockchain_ledger_def last v NewWorker_def)
  have inv: "chain_inv tree1"
    using built_inv [OF sample_built(2)] by (rule ledger_chain_inv)
  have pow: "Validate sample_host (NewProofOfWork ?b (uint (worker_PowPerOpBlock (NewWorker ''A'' 0 0))))"
    by (simp add: NewWorker_def Validate_def NewProofOfWork_def)
  have new: "\<not> HasBlock tree1 (Hash ?b)"
    by (simp add: HasBlock_def sample_map sample_hash)
  have "\<exists>bc''. AddBlock sample_host (\<lambda>m. m) (\<lambda>m. m) tree1 ?b = Some (Inr bc'') \<and> GetBlock bc'' (Hash ?b) = Some ?b"
    using worker_block_accepted [OF inv is_iter_id is_iter_id sorts_ops_sort_key last(1) _ _ run pow new, of "''1''"]
    by (simp add: NewWorker_def sample_cfg_def zero_Settings_def)
  with run show ?thesis by blast
qed

text \<open>Two longest chains: on one of them the file was created, on the other one not.\<close>

definition tree_fork :: Blockchain where "tree_fork = link_block tree2 block4 1"

lemma fork_facts:
  "built H sample_cfg tree_fork" "bc_config tree_fork = sample_cfg"
  "map_of (bc_m tree_fork) ''4'' = Some 3" "map_of (bc_m tree_fork) ''2'' = Some 2"
  "chain_blocks (bc_heap tree_fork) (Some 3) = Some [block4, block1, NewGenesisBlock 0 ''g'']"
  "chain_blocks (bc_heap tree_fork) (Some 2) = Some [block2, block1, NewGenesisBlock 0 ''g'']"
  "getLastNodes tree_fork = Some (tree_fork\<lparr>bc_lastNode := 3\<rparr>, [3, 2])"
  "block_at (bc_heap tree_fork) 2 = block2" "block_at (bc_heap tree_fork) 3 = block4"
proof -
  have "chain_blocks (bc_heap tree2) (Some 1) = Some [block1, NewGenesisBlock 0 ''g'']"
    by (simp add: chain_blocks_step tree_defs sample_defs)
  then have "AddBlock H (\<lambda>m. m) (\<lambda>m. m) tree2 block4 = Some (Inr tree_fork)"
    by (simp add: AddBlock_eq [OF sample_inv(3)] HasBlock_def sample_map sample_pow sample_ok tree_fork_def
        del: One_nat_def)
  from built_add [OF sample_built(3) is_iter_id is_iter_id this] show "built H sample_cfg tree_fork" .
  show "chain_blocks (bc_heap tree_fork) (Some 3) = Some [block4, block1, NewGenesisBlock 0 ''g'']"
    "chain_blocks (bc_heap tree_fork) (Some 2) = Some [block2, block1, NewGenesisBlock 0 ''g'']"
    by (simp_all add: tree_fork_def chain_blocks_step tree_defs sample_defs)
  show "getLastNodes tree_fork = Some (tree_fork\<lparr>bc_lastNode := 3\<rparr>, [3, 2])"
    by (simp add: getLastNodes_def last_loop.simps tree_fork_def tree_defs sample_defs)
  show "block_at (bc_heap tree_fork) 2 = block2" "block_at (bc_heap tree_fork) 3 = block4"
    by (simp_all add: tree_fork_def tree_defs sample_defs)
  show "map_of (bc_m tree_fork) ''4'' = Some 3" "map_of (bc_m tree_fork) ''2'' = Some 2"
    by (simp_all add: tree_fork_def tree_defs sample_defs)
qed (simp add: tree_fork_def)

text \<open>C39: With two longest chains the loop of the worker validates the operations on one last block
  and mines them on the other one. On this tree, reached with \<^verbatim>\<open>AddBlock\<close>, the worker
  mines a creation that is valid on the block with hash 4 on top of the block with hash 2, where the
  file exists already; \<^verbatim>\<open>AddBlock\<close> rejects the mined block.\<close>

theorem worker_mines_on_wrong_block:
  "built sample_host sample_cfg tree_fork \<and> accepts_ops tree_fork [sample_create] ''4'' \<and>
   (\<exists>b. StartMining sample_host 0 (sort_key op_time) (NewWorker ''A'' 0 0) (\<lambda>_. id_ledger) (\<lambda>_. tree_fork)
      (Batch [sample_create]) = Some (Some b, True) \<and>
    Operations b = [sample_create] \<and> PreviousHash b = ''2'' \<and>
    AddBlock sample_host (\<lambda>m. m) (\<lambda>m. m) tree_fork b = Some (Inl OperationValidationFailed))"
proof -
  let ?b = "NewBlock sample_host 0 [sample_create] ''2'' ''A'' 0 (\<lambda>_. False)"
  have ok: "acceptable sample_cfg [sample_create] [block4, block1, NewGenesisBlock 0 ''g'']"
    and bad: "\<not> acceptable sample_cfg [sample_create] [block2, block1, NewGenesisBlock 0 ''g'']"
    by (simp_all add: acceptable_def balance_simps sample_create_def sample_defs repeats_creation_def op_cost_def block_reward_def)
  have inv: "bc_inv tree_fork"
    using built_inv [OF fork_facts(1) [where H = sample_host]] by (simp add: ledger_inv_def)
  have v: "ValidateOperations (\<lambda>m. m) (\<lambda>m. m) tree_fork [sample_create] ''4'' = Some ([sample_create], True)"
    by (rule validate_sample_create [OF fork_facts(3,5,2) ok])
  have last: "GetLastBlocks tree_fork = Some (tree_fork\<lparr>bc_lastNode := 3\<rparr>, [block4, block2])"
    "GetLastHash tree_fork = Some (tree_fork\<lparr>bc_lastNode := 3\<rparr>, ''4'')"
    by (simp_all add: GetLastBlocks_def GetLastHash_def fork_facts)
  have "StartMining sample_host 0 (sort_key op_time) (NewWorker ''A'' 0 0) (\<lambda>_. id_ledger) (\<lambda>_. tree_fork)
      (Batch [sample_create]) = Some (Some ?b, True)"
    by (simp add: StartMining_def sample_filter Blockchain_ledger_def last v NewWorker_def)
  moreover have "AddBlock sample_host (\<lambda>m. m) (\<lambda>m. m) tree_fork ?b = Some (Inl OperationValidationFailed)"
    using bad by (simp add: AddBlock_eq [OF inv] HasBlock_def fork_facts sample_pow sample_hash)
      (simp add: tree_fork_def sample_map)
  ultimately show ?thesis
    using fork_facts ok by (auto simp: accepts_ops_def)
qed

end
