(* ===== verification/P2p_Manager.thy ===== *)
theory P2p_Manager
  imports Bclib_Interface Bclib_View
begin

text \<open>
  \<^verbatim>\<open>p2p/blockchain_manager.go\<close>: the chain manager owns the block tree. Its goroutine
  \<^verbatim>\<open>manageBlockchain\<close> serves one channel at a time; each case of its \<^verbatim>\<open>select\<close>
  is a definition here, and the goroutine together with its environment is a step relation. The
  record holds the tree, the configuration, the two buffered channels from which the goroutine
  receives and the two local variables of the goroutine. The methods of the interface
  \<^verbatim>\<open>RFSLedger\<close> forward to the tree under a lock.
\<close>

record ChainManager =
  mgr_blockchain :: Blockchain
  mgr_config :: Settings
  mgr_addBlock :: "Block list"
  mgr_receiveFloodedBlock :: "Block list"
  mgr_replayQueue :: "Block list"
  mgr_replayMap :: "(string, unit) gomap"

definition NewChainManager :: "Blockchain \<Rightarrow> Settings \<Rightarrow> ChainManager" where
  "NewChainManager bc cfg =
     \<lparr>mgr_blockchain = bc, mgr_config = cfg, mgr_addBlock = [], mgr_receiveFloodedBlock = [],
      mgr_replayQueue = [], mgr_replayMap = []\<rparr>"

text \<open>What the goroutine sends on unbuffered channels, in order; \<open>SyncDone\<close> closes the
  channel \<^verbatim>\<open>done\<close> of a request.\<close>

datatype mgr_output =
    DownloadBlock Block
  | NewBlockAdded
  | SendBlock Block
  | ContinueMining
  | SyncDone

text \<open>A case either returns to the loop, or blocks forever because the goroutine sends to a full
  channel that only it reads, or panics.\<close>

datatype mgr_result = Running ChainManager "mgr_output list" | BlockedForever | IndexOutOfRange

section \<open>The cases of the loop\<close>

definition mgr_sync :: "(string, addr) iter \<Rightarrow> ChainManager \<Rightarrow> Block list \<Rightarrow> mgr_result option" where
  "mgr_sync it m blocks =
     do {
       r \<leftarrow> UnmarshallBlockchain it blocks;
       Some (case r of
               Inl err \<Rightarrow> Running m []
             | Inr bc \<Rightarrow> Running (m\<lparr>mgr_blockchain := SetConfig bc (mgr_config m)\<rparr>) [SyncDone])
     }"

definition mgr_flooded :: "ChainManager \<Rightarrow> Block \<Rightarrow> mgr_result" where
  "mgr_flooded m block =
     (let hasBlock = HasBlock (mgr_blockchain m) (Hash block);
          canAdd = (\<not> hasBlock \<and> HasBlock (mgr_blockchain m) (PreviousHash block))
      in if canAdd then
           (if length (mgr_addBlock m) < 100 then
              Running (m\<lparr>mgr_addBlock := mgr_addBlock m @ [block]\<rparr>) []
            else BlockedForever)
         else if \<not> hasBlock then
           (let ok = (map_of (mgr_replayMap m) (PreviousHash block) \<noteq> None)
            in if ok then
                 (if length (mgr_receiveFloodedBlock m) < 1000 then
                    Running (m\<lparr>mgr_replayMap := AList.update (Hash block) () (mgr_replayMap m),
                               mgr_receiveFloodedBlock := mgr_receiveFloodedBlock m @ [block]\<rparr>) []
                  else BlockedForever)
               else
                 Running (m\<lparr>mgr_replayQueue := mgr_replayQueue m @ [block],
                            mgr_replayMap := AList.update (Hash block) () (mgr_replayMap m)\<rparr>)
                   (if length (mgr_replayQueue m) = 0 \<and> \<not> ok then [DownloadBlock block] else []))
         else Running m [])"

text \<open>The argument \<^verbatim>\<open>replayQueue[0]\<close> of the log message panics on an empty queue.\<close>

definition mgr_downloaded :: "ChainManager \<Rightarrow> Block list \<Rightarrow> mgr_result" where
  "mgr_downloaded m blocks =
     (if length (mgr_replayQueue m) = 0 then IndexOutOfRange
      else
        (let replaySlice = blocks @ mgr_replayQueue m
         in if length (mgr_receiveFloodedBlock m) + length replaySlice \<le> 1000 then
              Running (m\<lparr>mgr_replayMap := fold (\<lambda>block. AList.update (Hash block) ()) blocks (mgr_replayMap m),
                         mgr_receiveFloodedBlock := mgr_receiveFloodedBlock m @ replaySlice,
                         mgr_replayQueue := []\<rparr>) []
            else BlockedForever))"

text \<open>After a successful \<^verbatim>\<open>AddBlock\<close> the log message calls
  \<^verbatim>\<open>GetLastHash\<close>, which moves \<^verbatim>\<open>lastNode\<close>.\<close>

definition mgr_add ::
  "host \<Rightarrow> (string, Operation) iter \<Rightarrow> (string, Operation) iter \<Rightarrow> ChainManager \<Rightarrow> Block \<Rightarrow> mgr_result option" where
  "mgr_add H it1 it2 m block =
     do {
       r \<leftarrow> AddBlock H it1 it2 (mgr_blockchain m) block;
       (case r of
          Inl err \<Rightarrow> Some (Running m [ContinueMining])
        | Inr bc \<Rightarrow>
            do {
              (bc', hash) \<leftarrow> GetLastHash bc;
              Some (Running (m\<lparr>mgr_blockchain := bc'\<rparr>) [NewBlockAdded, SendBlock block, ContinueMining])
            })
     }"

section \<open>The ledger interface\<close>

definition under_lock :: "ChainManager \<Rightarrow> (Blockchain \<times> 'r) option \<Rightarrow> (ChainManager \<times> 'r) option" where
  "under_lock m r = map_option (\<lambda>(bc, x). (m\<lparr>mgr_blockchain := bc\<rparr>, x)) r"

definition ChainManager_ledger ::
  "(string, Operation) iter \<Rightarrow> (string, Operation) iter \<Rightarrow> (string, unit) iter \<Rightarrow> ChainManager RFSLedger" where
  "ChainManager_ledger it1 it2 it3 =
     \<lparr>ledger_GetLastHash = \<lambda>m. under_lock m (GetLastHash (mgr_blockchain m)),
      ledger_GetLastBlocks = \<lambda>m. under_lock m (GetLastBlocks (mgr_blockchain m)),
      ledger_ValidateOperations = \<lambda>m. ValidateOperations it1 it2 (mgr_blockchain m),
      ledger_ListFiles = \<lambda>m. under_lock m (ListFiles it3 (mgr_blockchain m)),
      ledger_GetFile = \<lambda>m fname. under_lock m (GetFile (mgr_blockchain m) fname),
      ledger_NumRecs = \<lambda>m fname. under_lock m (NumRecs (mgr_blockchain m) fname),
      ledger_CheckOpConfirmed = \<lambda>m oper. under_lock m (CheckOpConfirmed (mgr_blockchain m) oper)\<rparr>"

text \<open>The loop that reverses the blocks in place.\<close>

function mgr_reverse :: "'a list \<Rightarrow> nat \<Rightarrow> 'a list" where
  "mgr_reverse blocks i =
     (if i < length blocks div 2 then
        (let j = length blocks - i - 1
         in mgr_reverse (blocks[i := blocks ! j, j := blocks ! i]) (i + 1))
      else blocks)"
  by pat_completeness auto
termination
  by (relation "measure (\<lambda>(blocks, i). length blocks div 2 - i)") auto

declare mgr_reverse.simps [simp del]

definition mgr_GetPreviousBlocks :: "ChainManager \<Rightarrow> bytes \<Rightarrow> nat \<Rightarrow> Block list" where
  "mgr_GetPreviousBlocks m hash numBlocks =
     mgr_reverse (GetPreviousBlocks (mgr_blockchain m) hash numBlocks) 0"

section \<open>The goroutine and its environment\<close>

text \<open>Other goroutines put flooded and mined blocks into the buffered channels, and send downloaded
  blocks and requests for synchronization.\<close>

datatype mgr_event =
    PeerBlock Block
  | MinedBlock Block
  | TakeFlooded
  | TakeAdd
  | Downloaded "Block list"
  | Synchronize "Block list"

inductive mgr_step :: "host \<Rightarrow> ChainManager \<Rightarrow> mgr_event \<Rightarrow> mgr_result \<Rightarrow> bool" for H where
  step_peer: "length (mgr_receiveFloodedBlock m) < 1000 \<Longrightarrow>
    mgr_step H m (PeerBlock b) (Running (m\<lparr>mgr_receiveFloodedBlock := mgr_receiveFloodedBlock m @ [b]\<rparr>) [])"
| step_mined: "length (mgr_addBlock m) < 100 \<Longrightarrow>
    mgr_step H m (MinedBlock b) (Running (m\<lparr>mgr_addBlock := mgr_addBlock m @ [b]\<rparr>) [])"
| step_flooded: "mgr_receiveFloodedBlock m = b # bs \<Longrightarrow>
    mgr_step H m TakeFlooded (mgr_flooded (m\<lparr>mgr_receiveFloodedBlock := bs\<rparr>) b)"
| step_add: "mgr_addBlock m = b # bs \<Longrightarrow> is_iter it1 \<Longrightarrow> is_iter it2 \<Longrightarrow>
    mgr_add H it1 it2 (m\<lparr>mgr_addBlock := bs\<rparr>) b = Some r \<Longrightarrow> mgr_step H m TakeAdd r"
| step_downloaded: "mgr_step H m (Downloaded bs) (mgr_downloaded m bs)"
| step_sync: "is_iter it \<Longrightarrow> mgr_sync it m bs = Some r \<Longrightarrow> mgr_step H m (Synchronize bs) r"

inductive_simps mgr_step_TakeFlooded: "mgr_step H m TakeFlooded r"
inductive_cases mgr_step_TakeAddE: "mgr_step H m TakeAdd r"
inductive_simps mgr_step_Downloaded: "mgr_step H m (Downloaded bs) r"

text \<open>The states a manager reaches from its genesis block without synchronization.\<close>

inductive mgr_reached :: "host \<Rightarrow> Settings \<Rightarrow> ChainManager \<Rightarrow> bool" for H cfg where
  reached_start: "mgr_reached H cfg (NewChainManager (NewBlockchain now cfg) cfg)"
| reached_step: "mgr_reached H cfg m \<Longrightarrow> mgr_step H m e (Running m' outs) \<Longrightarrow>
    (\<And>bs. e \<noteq> Synchronize bs) \<Longrightarrow> mgr_reached H cfg m'"

lemma mgr_add_cases:
  assumes "bc_inv (mgr_blockchain m)" "is_iter it1" "is_iter it2"
  obtains e where "AddBlock H it1 it2 (mgr_blockchain m) b = Some (Inl e)"
      "mgr_add H it1 it2 m b = Some (Running m [ContinueMining])"
  | bc bc' ns where "AddBlock H it1 it2 (mgr_blockchain m) b = Some (Inr bc)" "getLastNodes bc = Some (bc', ns)"
      "mgr_add H it1 it2 m b = Some (Running (m\<lparr>mgr_blockchain := bc'\<rparr>) [NewBlockAdded, SendBlock b, ContinueMining])"
proof -
  obtain r where r: "AddBlock H it1 it2 (mgr_blockchain m) b = Some r"
    using AddBlock_eq [OF assms] by blast
  show ?thesis
  proof (cases r)
    case (Inl e)
    with r that(1) show ?thesis by (simp add: mgr_add_def)
  next
    case (Inr bc)
    obtain p where "map_of (bc_m (mgr_blockchain m)) (Hash b) = None"
        "map_of (bc_m (mgr_blockchain m)) (PreviousHash b) = Some p" "bc = link_block (mgr_blockchain m) b p"
      using AddBlock_InrE [OF assms r [unfolded Inr]] by metis
    then have "bc_inv bc" using bc_inv_link_block [OF assms(1)] by simp
    then obtain lns where "getLastNodes bc = Some (queried bc, lns)"
      using getLastNodes_tip by metis
    with r Inr that(2) show ?thesis by (simp add: mgr_add_def GetLastHash_def)
  qed
qed

definition replay_inv :: "ChainManager \<Rightarrow> bool" where
  "replay_inv m \<longleftrightarrow> (\<forall>b \<in> set (mgr_replayQueue m). Hash b \<in> fst ` set (mgr_replayMap m))"

definition mgr_inv :: "host \<Rightarrow> Settings \<Rightarrow> ChainManager \<Rightarrow> bool" where
  "mgr_inv H cfg m \<longleftrightarrow> built H cfg (mgr_blockchain m) \<and> mgr_config m = cfg \<and> replay_inv m \<and>
     length (mgr_addBlock m) \<le> 100 \<and> length (mgr_receiveFloodedBlock m) \<le> 1000"

lemma mgr_flooded_inv:
  assumes "mgr_inv H cfg m" "length (mgr_receiveFloodedBlock m) < 1000" "mgr_flooded m b = Running m' outs"
  shows "mgr_inv H cfg m'"
  using assms by (auto simp: mgr_flooded_def mgr_inv_def replay_inv_def Let_def split: if_splits)

lemma mgr_downloaded_inv:
  assumes "mgr_inv H cfg m" "mgr_downloaded m bs = Running m' outs"
  shows "mgr_inv H cfg m'"
  using assms by (auto simp: mgr_downloaded_def mgr_inv_def replay_inv_def Let_def split: if_splits)

lemma mgr_add_inv:
  assumes inv: "mgr_inv H cfg m" and it: "is_iter it1" "is_iter it2"
    and run: "mgr_add H it1 it2 m b = Some (Running m' outs)"
  shows "mgr_inv H cfg m'"
proof -
  have b: "built H cfg (mgr_blockchain m)" using inv by (simp add: mgr_inv_def)
  then have "bc_inv (mgr_blockchain m)" using built_inv ledger_inv_def by blast
  then show ?thesis
  proof (rule mgr_add_cases [OF _ it])
    fix e assume "mgr_add H it1 it2 m b = Some (Running m [ContinueMining])"
    with run inv show ?thesis by simp
  next
    fix bc bc' ns
    assume "AddBlock H it1 it2 (mgr_blockchain m) b = Some (Inr bc)" "getLastNodes bc = Some (bc', ns)"
      and "mgr_add H it1 it2 m b = Some (Running (m\<lparr>mgr_blockchain := bc'\<rparr>) [NewBlockAdded, SendBlock b, ContinueMining])"
    moreover from this have "built H cfg bc'"
      using built_query [OF built_add [OF b it]] by blast
    ultimately show ?thesis
      using run inv by (auto simp: mgr_inv_def replay_inv_def)
  qed
qed

lemma mgr_reached_inv: "mgr_reached H cfg m \<Longrightarrow> mgr_inv H cfg m"
proof (induction rule: mgr_reached.induct)
  case (reached_start now)
  then show ?case
    by (simp add: mgr_inv_def NewChainManager_def replay_inv_def built_new)
next
  case (reached_step m e m' outs)
  note inv = reached_step.IH
  from reached_step.hyps(2) show ?case
  proof (cases rule: mgr_step.cases)
    case (step_flooded b bs)
    have "mgr_flooded (m\<lparr>mgr_receiveFloodedBlock := bs\<rparr>) b = Running m' outs"
      using step_flooded by simp
    moreover have "mgr_inv H cfg (m\<lparr>mgr_receiveFloodedBlock := bs\<rparr>)"
      "length (mgr_receiveFloodedBlock (m\<lparr>mgr_receiveFloodedBlock := bs\<rparr>)) < 1000"
      using inv step_flooded by (simp_all add: mgr_inv_def replay_inv_def)
    ultimately show ?thesis using mgr_flooded_inv by blast
  next
    case (step_add b bs it1 it2)
    have "mgr_inv H cfg (m\<lparr>mgr_addBlock := bs\<rparr>)"
      using inv step_add by (simp add: mgr_inv_def replay_inv_def)
    with step_add show ?thesis using mgr_add_inv by blast
  next
    case (step_downloaded bs)
    then show ?thesis using inv mgr_downloaded_inv by metis
  next
    case (step_sync it bs)
    then show ?thesis using reached_step.hyps(3) by blast
  qed (use inv in \<open>auto simp: mgr_inv_def replay_inv_def\<close>)
qed

text \<open>C9: Whatever blocks peers flood or send for download, in whatever order, as long as a manager
  does not synchronize with a peer its tree is one that \<^verbatim>\<open>AddBlock\<close> builds from the
  genesis block: on the chain of every block no miner has spent more than it mined and no operation
  occurs twice. The buffers never exceed their capacity, and the hash of every block in the replay
  queue is in the replay map.\<close>

theorem manager_ledger_safe:
  assumes "mgr_reached H cfg m" and "map_of (bc_m (mgr_blockchain m)) h = Some a"
  shows "\<exists>bs. chain_blocks (bc_heap (mgr_blockchain m)) (Some a) = Some bs \<and>
    (\<forall>mid. op_costs cfg mid (chain_ops bs) \<le> rewards cfg mid bs) \<and>
    distinct (map OperationID (chain_ops bs)) \<and> mined_chain H cfg bs \<and>
    length (mgr_addBlock m) \<le> 100 \<and> length (mgr_receiveFloodedBlock m) \<le> 1000 \<and>
    Hash ` set (mgr_replayQueue m) \<subseteq> fst ` set (mgr_replayMap m)"
proof -
  have inv: "mgr_inv H cfg m" using assms(1) by (rule mgr_reached_inv)
  then have li: "ledger_inv H cfg (mgr_blockchain m)"
    using built_inv by (simp add: mgr_inv_def)
  have live: "a \<in> live (mgr_blockchain m)" using assms(2) by (rule map_of_live)
  obtain bs where bs: "chain_blocks (bc_heap (mgr_blockchain m)) (Some a) = Some bs"
    using bc_inv_chain_Cons [OF _ live] li unfolding ledger_inv_def by blast
  have P: "P bs" if "all_chains P (mgr_blockchain m)" for P
    using that live bs by (auto simp: all_chains_def)
  have "solvent cfg bs" "unique_ops bs" "mined_chain H cfg bs"
    using li by (auto simp: ledger_inv_def intro: P)
  then show ?thesis
    using bs inv by (auto simp: solvent_def unique_ops_def balance_def mgr_inv_def replay_inv_def)
qed

theorem manager_ledger_safe_witness:
  "\<exists>(m :: ChainManager) bs. mgr_blockchain m = queried tree1 \<and> chain_blocks (bc_heap (mgr_blockchain m)) (Some 1) = Some bs \<and>
    distinct (map OperationID (chain_ops bs)) \<and> mined_chain sample_host sample_cfg bs"
proof -
  let ?m0 = "NewChainManager tree0 sample_cfg"
  let ?m1 = "?m0\<lparr>mgr_addBlock := [block1]\<rparr>" and ?m2 = "?m0\<lparr>mgr_blockchain := queried tree1\<rparr>"
  have 0: "mgr_reached sample_host sample_cfg ?m0"
    unfolding tree0_def by (rule reached_start)
  have "mgr_step sample_host ?m0 (MinedBlock block1) (Running ?m1 [])"
    using step_mined [of ?m0 sample_host block1] by (simp add: NewChainManager_def)
  from reached_step [OF 0 this] have 1: "mgr_reached sample_host sample_cfg ?m1" by simp
  obtain lns where "getLastNodes tree1 = Some (queried tree1, lns)"
    using getLastNodes_tip [OF sample_inv(2)] by metis
  then have "mgr_add sample_host (\<lambda>m. m) (\<lambda>m. m) ?m0 block1 = Some (Running ?m2 [NewBlockAdded, SendBlock block1, ContinueMining])"
    using sample_adds(1) [OF is_iter_id is_iter_id sample_inv(1), of sample_host]
    by (simp add: mgr_add_def NewChainManager_def GetLastHash_def)
  then have "mgr_step sample_host ?m1 TakeAdd (Running ?m2 [NewBlockAdded, SendBlock block1, ContinueMining])"
    using step_add [of ?m1 block1 "[]" "\<lambda>m. m" "\<lambda>m. m"] by (simp add: NewChainManager_def)
  from reached_step [OF 1 this] have 2: "mgr_reached sample_host sample_cfg ?m2" by simp
  have "map_of (bc_m (mgr_blockchain ?m2)) ''1'' = Some 1"
    by (simp add: sample_map)
  from manager_ledger_safe [OF 2 this] obtain bs where
    "chain_blocks (bc_heap (mgr_blockchain ?m2)) (Some 1) = Some bs"
    "distinct (map OperationID (chain_ops bs))" "mined_chain sample_host sample_cfg bs" by blast
  then show ?thesis by (intro exI [of _ ?m2] exI [of _ bs]) simp
qed

section \<open>Adding blocks through the channels\<close>

text \<open>Runs of the goroutine with their outputs.\<close>

inductive mgr_run :: "host \<Rightarrow> ChainManager \<Rightarrow> mgr_output list \<Rightarrow> ChainManager \<Rightarrow> bool" for H where
  run_done: "mgr_run H m [] m"
| run_step: "mgr_step H m e (Running m1 outs) \<Longrightarrow> mgr_run H m1 outs' m2 \<Longrightarrow> mgr_run H m (outs @ outs') m2"

text \<open>The specification: a miner without channels that adds one block after the other.\<close>

fun add_in_order ::
  "host \<Rightarrow> (string, Operation) iter \<Rightarrow> (string, Operation) iter \<Rightarrow> Blockchain \<Rightarrow> Block list \<Rightarrow> Blockchain option" where
  "add_in_order H it1 it2 bc [] = Some bc"
| "add_in_order H it1 it2 bc (b # bs) =
     (case AddBlock H it1 it2 bc b of
        Some (Inr bc') \<Rightarrow> add_in_order H it1 it2 (queried bc') bs
      | _ \<Rightarrow> None)"

lemma mgr_flooded_add:
  assumes "bc_inv (mgr_blockchain m)" "is_iter it1" "is_iter it2"
    and "AddBlock H it1 it2 (mgr_blockchain m) b = Some (Inr bc)" "length (mgr_addBlock m) < 100"
  shows "mgr_flooded m b = Running (m\<lparr>mgr_addBlock := mgr_addBlock m @ [b]\<rparr>) []"
proof -
  obtain p where "map_of (bc_m (mgr_blockchain m)) (Hash b) = None" "map_of (bc_m (mgr_blockchain m)) (PreviousHash b) = Some p"
    using AddBlock_InrE [OF assms(1-4)] by metis
  then show ?thesis using assms(5) by (simp add: mgr_flooded_def HasBlock_def)
qed

lemma mgr_one_block:
  assumes inv: "bc_inv (mgr_blockchain m)" and it: "is_iter it1" "is_iter it2"
    and add: "AddBlock H it1 it2 (mgr_blockchain m) b = Some (Inr bc)"
    and m: "mgr_addBlock m = []" "mgr_receiveFloodedBlock m = b # bs"
    and rest: "mgr_run H (m\<lparr>mgr_blockchain := queried bc, mgr_receiveFloodedBlock := bs\<rparr>) outs m'"
  shows "mgr_run H m ([NewBlockAdded, SendBlock b, ContinueMining] @ outs) m'"
proof -
  let ?m = "m\<lparr>mgr_receiveFloodedBlock := bs\<rparr>"
  have "mgr_step H m TakeFlooded (mgr_flooded ?m b)"
    using m(2) by (rule step_flooded)
  moreover have "mgr_flooded ?m b = Running (?m\<lparr>mgr_addBlock := [b]\<rparr>) []"
    using mgr_flooded_add [of ?m it1 it2 H b bc] inv it add m(1) by simp
  ultimately have 1: "mgr_step H m TakeFlooded (Running (?m\<lparr>mgr_addBlock := [b]\<rparr>) [])" by simp
  obtain p where "map_of (bc_m (mgr_blockchain m)) (Hash b) = None"
      "map_of (bc_m (mgr_blockchain m)) (PreviousHash b) = Some p" "bc = link_block (mgr_blockchain m) b p"
    using AddBlock_InrE [OF inv it add] by metis
  then have "bc_inv bc" using bc_inv_link_block [OF inv] by simp
  then obtain lns where "getLastNodes bc = Some (queried bc, lns)"
    using getLastNodes_tip by metis
  then have "mgr_add H it1 it2 ?m b = Some (Running (?m\<lparr>mgr_blockchain := queried bc\<rparr>) [NewBlockAdded, SendBlock b, ContinueMining])"
    using add by (simp add: mgr_add_def GetLastHash_def)
  moreover have "?m\<lparr>mgr_addBlock := [b]\<rparr>\<lparr>mgr_addBlock := []\<rparr> = ?m" using m(1) by simp
  ultimately have 2: "mgr_step H (?m\<lparr>mgr_addBlock := [b]\<rparr>) TakeAdd
      (Running (?m\<lparr>mgr_blockchain := queried bc\<rparr>) [NewBlockAdded, SendBlock b, ContinueMining])"
    using it by (intro step_add [where b = b and bs = "[]"]) simp_all
  have eq: "m\<lparr>mgr_blockchain := queried bc, mgr_receiveFloodedBlock := bs\<rparr> = ?m\<lparr>mgr_blockchain := queried bc\<rparr>"
    by simp
  show ?thesis
    using run_step [OF 1 run_step [OF 2 rest [unfolded eq]]] by simp
qed

text \<open>The goroutine delivers blocks that arrive in order: if a miner without channels can add the
  blocks one after the other, then the manager that has them in its channel of flooded blocks has a run
  that ends with the same tree and an empty channel, and announces each block once, in order.\<close>

theorem manager_adds_in_order:
  assumes "bc_inv (mgr_blockchain m)" "is_iter it1" "is_iter it2"
    and "add_in_order H it1 it2 (mgr_blockchain m) bs = Some bc"
    and "mgr_addBlock m = []" "mgr_receiveFloodedBlock m = bs"
  shows "mgr_run H m (concat (map (\<lambda>b. [NewBlockAdded, SendBlock b, ContinueMining]) bs))
    (m\<lparr>mgr_blockchain := bc, mgr_receiveFloodedBlock := []\<rparr>)"
  using assms(1,4-)
proof (induction bs arbitrary: m)
  case Nil
  then have "m\<lparr>mgr_blockchain := bc, mgr_receiveFloodedBlock := []\<rparr> = m" by simp
  then show ?case by (simp add: run_done)
next
  case (Cons b bs)
  obtain bc1 where add: "AddBlock H it1 it2 (mgr_blockchain m) b = Some (Inr bc1)"
      and rest: "add_in_order H it1 it2 (queried bc1) bs = Some bc"
    using Cons.prems(2) by (auto split: option.splits sum.splits)
  obtain p where "map_of (bc_m (mgr_blockchain m)) (Hash b) = None"
      "map_of (bc_m (mgr_blockchain m)) (PreviousHash b) = Some p" "bc1 = link_block (mgr_blockchain m) b p"
    using AddBlock_InrE [OF Cons.prems(1) assms(2,3) add] by metis
  then have inv1: "bc_inv bc1" using bc_inv_link_block [OF Cons.prems(1)] by simp
  let ?m = "m\<lparr>mgr_blockchain := queried bc1, mgr_receiveFloodedBlock := bs\<rparr>"
  have "mgr_run H ?m (concat (map (\<lambda>b. [NewBlockAdded, SendBlock b, ContinueMining]) bs))
      (?m\<lparr>mgr_blockchain := bc, mgr_receiveFloodedBlock := []\<rparr>)"
    using rest Cons.prems(3) bc_inv_lastNode [OF inv1 tip_live [OF inv1]] by (intro Cons.IH) simp_all
  then show ?case
    using mgr_one_block [OF Cons.prems(1) assms(2,3) add Cons.prems(3,4)] by simp
qed

theorem manager_adds_in_order_witness:
  "mgr_run sample_host (NewChainManager tree0 sample_cfg\<lparr>mgr_receiveFloodedBlock := [block1]\<rparr>)
     [NewBlockAdded, SendBlock block1, ContinueMining] (NewChainManager (queried tree1) sample_cfg)"
proof -
  let ?m = "NewChainManager tree0 sample_cfg\<lparr>mgr_receiveFloodedBlock := [block1]\<rparr>"
  have "add_in_order sample_host (\<lambda>m. m) (\<lambda>m. m) tree0 [block1] = Some (queried tree1)"
    using sample_adds(1) [OF is_iter_id is_iter_id sample_inv(1), of sample_host] by simp
  then show ?thesis
    using manager_adds_in_order [of ?m "\<lambda>m. m" "\<lambda>m. m" sample_host "[block1]" "queried tree1"] sample_inv(1)
    by (simp add: NewChainManager_def)
qed

section \<open>Every run refines the abstract ledger\<close>

text \<open>The specification: the ledger that maps a hash to its chain, to which blocks are added one after the
  other; each block is announced if it was added, and mining goes on in any case.\<close>

fun ledger_run ::
  "host \<Rightarrow> Settings \<Rightarrow> (string \<Rightarrow> Block list option) \<Rightarrow> Block list \<Rightarrow> (string \<Rightarrow> Block list option) \<times> mgr_output list" where
  "ledger_run H cfg V [] = (V, [])"
| "ledger_run H cfg V (b # bs) =
     (case add_spec H cfg V b of
        Inl e \<Rightarrow> (let (W, outs) = ledger_run H cfg V bs in (W, ContinueMining # outs))
      | Inr V' \<Rightarrow> (let (W, outs) = ledger_run H cfg V' bs in (W, [NewBlockAdded, SendBlock b, ContinueMining] @ outs)))"

lemma ledger_run_append:
  "ledger_run H cfg V (bs @ cs) =
     (let (W, outs) = ledger_run H cfg V bs; (W', outs') = ledger_run H cfg W cs in (W', outs @ outs'))"
  by (induction bs arbitrary: V) (auto simp: Let_def split: sum.split prod.split)

text \<open>Runs with their events, without synchronization; the blocks that an event brings, and those that
  wait somewhere in the manager.\<close>

inductive mgr_trace :: "host \<Rightarrow> ChainManager \<Rightarrow> mgr_event list \<Rightarrow> mgr_output list \<Rightarrow> ChainManager \<Rightarrow> bool" for H m where
  trace_start: "mgr_trace H m [] [] m"
| trace_step: "mgr_trace H m es outs m1 \<Longrightarrow> mgr_step H m1 e (Running m2 outs') \<Longrightarrow> (\<And>bs. e \<noteq> Synchronize bs) \<Longrightarrow>
    mgr_trace H m (es @ [e]) (outs @ outs') m2"

fun arrived :: "mgr_event \<Rightarrow> Block set" where
  "arrived (PeerBlock b) = {b}"
| "arrived (MinedBlock b) = {b}"
| "arrived (Downloaded bs) = set bs"
| "arrived e = {}"

definition waiting :: "ChainManager \<Rightarrow> Block set" where
  "waiting m = set (mgr_addBlock m) \<union> set (mgr_receiveFloodedBlock m) \<union> set (mgr_replayQueue m)"

fun is_download :: "mgr_output \<Rightarrow> bool" where
  "is_download (DownloadBlock b) = True"
| "is_download out = False"

lemma mgr_add_refines:
  assumes inv: "bc_inv (mgr_blockchain m)" and it: "is_iter it1" "is_iter it2"
    and run: "mgr_add H it1 it2 m b = Some (Running m' outs)"
  shows "bc_inv (mgr_blockchain m') \<and> bc_config (mgr_blockchain m') = bc_config (mgr_blockchain m) \<and> waiting m' = waiting m \<and>
    ledger_run H (bc_config (mgr_blockchain m)) (chain_view (mgr_blockchain m)) [b] = (chain_view (mgr_blockchain m'), outs)"
proof (rule mgr_add_cases [OF inv it, of H b])
  fix e assume e: "AddBlock H it1 it2 (mgr_blockchain m) b = Some (Inl e)"
    "mgr_add H it1 it2 m b = Some (Running m [ContinueMining])"
  have "add_spec H (bc_config (mgr_blockchain m)) (chain_view (mgr_blockchain m)) b = Inl e"
    using AddBlock_chain_view [OF inv it, of H b] e(1) by simp
  with e(2) run inv show ?thesis by simp
next
  fix bc bc' ns assume a: "AddBlock H it1 it2 (mgr_blockchain m) b = Some (Inr bc)" "getLastNodes bc = Some (bc', ns)"
    "mgr_add H it1 it2 m b = Some (Running (m\<lparr>mgr_blockchain := bc'\<rparr>) [NewBlockAdded, SendBlock b, ContinueMining])"
  have bc: "bc_inv bc" "bc_config bc = bc_config (mgr_blockchain m)" using AddBlock_keeps [OF inv it a(1)] by simp_all
  have "add_spec H (bc_config (mgr_blockchain m)) (chain_view (mgr_blockchain m)) b = Inr (chain_view bc)"
    using AddBlock_chain_view [OF inv it, of H b] a(1) by simp
  moreover have "bc' = queried bc" using a(2) getLastNodes_tip [OF bc(1)] by (metis option.inject prod.inject)
  ultimately show ?thesis
    using a(3) run bc bc_inv_lastNode [OF bc(1) tip_live [OF bc(1)]] by (auto simp: waiting_def)
qed

lemma mgr_step_refines:
  assumes inv: "bc_inv (mgr_blockchain m)" and step: "mgr_step H m e (Running m' outs)" and e: "\<And>bs. e \<noteq> Synchronize bs"
  shows "\<exists>bs. bc_inv (mgr_blockchain m') \<and> bc_config (mgr_blockchain m') = bc_config (mgr_blockchain m) \<and>
    waiting m' \<union> set bs \<subseteq> waiting m \<union> arrived e \<and>
    ledger_run H (bc_config (mgr_blockchain m)) (chain_view (mgr_blockchain m)) bs =
      (chain_view (mgr_blockchain m'), filter (\<lambda>out. \<not> is_download out) outs)"
  using step
proof (cases rule: mgr_step.cases)
  case (step_flooded b bs)
  have "mgr_flooded (m\<lparr>mgr_receiveFloodedBlock := bs\<rparr>) b = Running m' outs" using step_flooded by simp
  then have "mgr_blockchain m' = mgr_blockchain m" "filter (\<lambda>out. \<not> is_download out) outs = []" "waiting m' \<subseteq> waiting m"
    using step_flooded(3) by (auto simp: mgr_flooded_def waiting_def Let_def split: if_splits)
  with inv show ?thesis by (intro exI [of _ "[]"]) auto
next
  case (step_add b bs it1 it2)
  let ?m = "m\<lparr>mgr_addBlock := bs\<rparr>"
  from mgr_add_refines [of ?m it1 it2 H b m' outs] inv step_add
  have r: "bc_inv (mgr_blockchain m')" "bc_config (mgr_blockchain m') = bc_config (mgr_blockchain m)" "waiting m' = waiting ?m"
    "ledger_run H (bc_config (mgr_blockchain m)) (chain_view (mgr_blockchain m)) [b] = (chain_view (mgr_blockchain m'), outs)"
    by auto
  then have "\<forall>out \<in> set outs. \<not> is_download out" by (auto split: sum.splits)
  then have "filter (\<lambda>out. \<not> is_download out) outs = outs" by (simp add: filter_id_conv)
  moreover have "waiting m' \<union> set [b] \<subseteq> waiting m \<union> arrived e" using step_add(2) r(3) by (auto simp: waiting_def)
  ultimately show ?thesis using r by (intro exI [of _ "[b]"]) simp
next
  case (step_downloaded bs)
  then have "mgr_blockchain m' = mgr_blockchain m" "outs = []" "waiting m' \<subseteq> waiting m \<union> set bs"
    by (auto simp: mgr_downloaded_def waiting_def Let_def split: if_splits)
  with inv step_downloaded show ?thesis by (intro exI [of _ "[]"]) auto
next
  case (step_sync it bs)
  then show ?thesis using e by blast
qed (use inv in \<open>auto simp: waiting_def intro!: exI [of _ "[]"]\<close>)

text \<open>C15: The chain manager refines the ledger without channels. Whatever arrives on its channels and in
  whatever order its goroutine serves them (without synchronization), the state of its tree is that of the
  abstract ledger after adding some sequence of the blocks that arrived, and what it sends, besides requests
  for downloads, is what the ledger announces for this sequence: every added block once, in order.\<close>

theorem manager_refines_ledger:
  assumes "bc_inv (mgr_blockchain m)" "mgr_trace H m es outs m'"
  shows "\<exists>bs. set bs \<subseteq> waiting m \<union> \<Union> (arrived ` set es) \<and>
    ledger_run H (bc_config (mgr_blockchain m)) (chain_view (mgr_blockchain m)) bs =
      (chain_view (mgr_blockchain m'), filter (\<lambda>out. \<not> is_download out) outs)"
proof -
  let ?V = "chain_view (mgr_blockchain m)" and ?cfg = "bc_config (mgr_blockchain m)"
  from assms(2) have "\<exists>bs. bc_inv (mgr_blockchain m') \<and> bc_config (mgr_blockchain m') = ?cfg \<and>
    waiting m' \<union> set bs \<subseteq> waiting m \<union> \<Union> (arrived ` set es) \<and>
    ledger_run H ?cfg ?V bs = (chain_view (mgr_blockchain m'), filter (\<lambda>out. \<not> is_download out) outs)"
  proof induction
    case trace_start
    then show ?case using assms(1) by (intro exI [of _ "[]"]) simp
  next
    case (trace_step es outs m1 e m2 outs')
    then obtain bs where bs: "bc_inv (mgr_blockchain m1)" "bc_config (mgr_blockchain m1) = ?cfg"
        "waiting m1 \<union> set bs \<subseteq> waiting m \<union> \<Union> (arrived ` set es)"
        "ledger_run H ?cfg ?V bs = (chain_view (mgr_blockchain m1), filter (\<lambda>out. \<not> is_download out) outs)" by blast
    from mgr_step_refines [OF bs(1) trace_step.hyps(2,3)] obtain cs where
        cs: "bc_inv (mgr_blockchain m2)" "bc_config (mgr_blockchain m2) = ?cfg" "waiting m2 \<union> set cs \<subseteq> waiting m1 \<union> arrived e"
        "ledger_run H ?cfg (chain_view (mgr_blockchain m1)) cs = (chain_view (mgr_blockchain m2), filter (\<lambda>out. \<not> is_download out) outs')"
      unfolding bs(2) by blast
    have "waiting m2 \<union> set (bs @ cs) \<subseteq> waiting m \<union> \<Union> (arrived ` set (es @ [e]))" using bs(3) cs(3) by auto
    moreover have "ledger_run H ?cfg ?V (bs @ cs) = (chain_view (mgr_blockchain m2), filter (\<lambda>out. \<not> is_download out) (outs @ outs'))"
      by (simp add: ledger_run_append bs(4) cs(4))
    ultimately show ?case using cs(1,2) by blast
  qed
  then show ?thesis by blast
qed

theorem manager_refines_ledger_witness:
  "\<exists>bs. set bs \<subseteq> {block1} \<and>
     ledger_run sample_host sample_cfg (chain_view tree0) bs = (chain_view tree1, [NewBlockAdded, SendBlock block1, ContinueMining])"
proof -
  let ?m0 = "NewChainManager tree0 sample_cfg"
  let ?m1 = "?m0\<lparr>mgr_addBlock := [block1]\<rparr>" and ?m2 = "?m0\<lparr>mgr_blockchain := queried tree1\<rparr>"
  have 1: "mgr_step sample_host ?m0 (MinedBlock block1) (Running ?m1 [])"
    using step_mined [of ?m0 sample_host block1] by (simp add: NewChainManager_def)
  obtain lns where "getLastNodes tree1 = Some (queried tree1, lns)"
    using getLastNodes_tip [OF sample_inv(2)] by metis
  then have "mgr_add sample_host (\<lambda>m. m) (\<lambda>m. m) ?m0 block1 = Some (Running ?m2 [NewBlockAdded, SendBlock block1, ContinueMining])"
    using sample_adds(1) [OF is_iter_id is_iter_id sample_inv(1), of sample_host]
    by (simp add: mgr_add_def NewChainManager_def GetLastHash_def)
  then have 2: "mgr_step sample_host ?m1 TakeAdd (Running ?m2 [NewBlockAdded, SendBlock block1, ContinueMining])"
    using step_add [of ?m1 block1 "[]" "\<lambda>m. m" "\<lambda>m. m"] by (simp add: NewChainManager_def)
  from trace_step [OF trace_step [OF trace_start 1] 2]
  have "mgr_trace sample_host ?m0 [MinedBlock block1, TakeAdd] [NewBlockAdded, SendBlock block1, ContinueMining] ?m2" by simp
  from manager_refines_ledger [OF _ this] sample_inv(1) show ?thesis
    by (auto simp: NewChainManager_def waiting_def)
qed

section \<open>The manager as a ledger\<close>

lemma under_lock_Some [simp]:
  "under_lock m (Some (bc, x)) = Some (m\<lparr>mgr_blockchain := bc\<rparr>, x)"
  "under_lock m r = Some (m', x) \<longleftrightarrow> (\<exists>bc. r = Some (bc, x) \<and> m' = m\<lparr>mgr_blockchain := bc\<rparr>)"
  "map_option snd (under_lock m r) = map_option snd r"
  by (auto simp: under_lock_def option.map_comp comp_def case_prod_beta)

lemma ChainManager_ledger_simps:
  "ledger_GetLastHash (ChainManager_ledger it1 it2 it3) = (\<lambda>m. under_lock m (GetLastHash (mgr_blockchain m)))"
  "ledger_GetLastBlocks (ChainManager_ledger it1 it2 it3) = (\<lambda>m. under_lock m (GetLastBlocks (mgr_blockchain m)))"
  "ledger_ValidateOperations (ChainManager_ledger it1 it2 it3) = (\<lambda>m. ValidateOperations it1 it2 (mgr_blockchain m))"
  "ledger_GetFile (ChainManager_ledger it1 it2 it3) = (\<lambda>m fname. under_lock m (GetFile (mgr_blockchain m) fname))"
  "ledger_NumRecs (ChainManager_ledger it1 it2 it3) = (\<lambda>m fname. under_lock m (NumRecs (mgr_blockchain m) fname))"
  "ledger_CheckOpConfirmed (ChainManager_ledger it1 it2 it3) = (\<lambda>m oper. under_lock m (CheckOpConfirmed (mgr_blockchain m) oper))"
  by (simp_all add: ChainManager_ledger_def)

interpretation manager_files: file_ledger "ChainManager_ledger it1 it2 it3"
    "\<lambda>m. chain_inv (mgr_blockchain m)" "\<lambda>m. on_main_chain (mgr_blockchain m)"
  for it1 it2 :: "(string, Operation) iter" and it3 :: "(string, unit) iter"
proof (unfold_locales, unfold ChainManager_ledger_simps)
  fix m :: ChainManager and fname
  assume "chain_inv (mgr_blockchain m)"
  from tree_files.GetFile_returns [OF this, of fname]
  show "\<exists>m' fl ok. under_lock m (GetFile (mgr_blockchain m) fname) = Some (m', fl, ok) \<and> chain_inv (mgr_blockchain m') \<and>
      (\<forall>oper. on_main_chain (mgr_blockchain m') oper = on_main_chain (mgr_blockchain m) oper) \<and>
      (\<forall>fname'. map_option snd (under_lock m' (GetFile (mgr_blockchain m') fname')) =
        map_option snd (under_lock m (GetFile (mgr_blockchain m) fname')))"
    by auto
next
  fix m fname m' fl ok oper
  assume "chain_inv (mgr_blockchain m)" "under_lock m (GetFile (mgr_blockchain m) fname) = Some (m', fl, ok)"
    "oper \<in> set (FileOperations fl)"
  then show "Op oper = Append \<and> Filename oper = fname \<and> on_main_chain (mgr_blockchain m) oper \<and> ok"
    using tree_files.records_of_file [of "mgr_blockchain m" fname] by auto
next
  fix m fname m' fl ok
  assume "chain_inv (mgr_blockchain m)" "under_lock m (GetFile (mgr_blockchain m) fname) = Some (m', fl, ok)"
  then show "distinct (map OperationID (FileOperations fl))"
    using tree_files.unique_records [of "mgr_blockchain m" fname] by auto
next
  fix m fname m' fl
  assume "chain_inv (mgr_blockchain m)" "under_lock m (GetFile (mgr_blockchain m) fname) = Some (m', fl, True)"
  then show "map_option snd (under_lock m (NumRecs (mgr_blockchain m) fname)) = Some (int (length (FileOperations fl)), True)"
    using tree_files.NumRecs_agrees [of "mgr_blockchain m" fname] by auto
next
  fix m :: ChainManager and oper
  assume "chain_inv (mgr_blockchain m)"
  from tree_files.CheckOpConfirmed_returns [OF this, of oper]
  show "\<exists>m' c e r. under_lock m (CheckOpConfirmed (mgr_blockchain m) oper) = Some (m', c, e, r) \<and> chain_inv (mgr_blockchain m')"
    by auto
next
  fix m oper m1 e r
  assume "chain_inv (mgr_blockchain m)" "under_lock m (CheckOpConfirmed (mgr_blockchain m) oper) = Some (m1, True, e, r)"
    "Op oper = Append" "on_main_chain (mgr_blockchain m) oper"
  then show "\<exists>m2 fl. under_lock m (GetFile (mgr_blockchain m) (Filename oper)) = Some (m2, fl, True) \<and> oper \<in> set (FileOperations fl)"
    using tree_files.confirmed_listed [of "mgr_blockchain m" oper] by fastforce
qed

lemma manager_mining_ledger:
  assumes "is_iter it1" "is_iter it2"
  shows "mining_ledger (ChainManager_ledger it1 it2 it3)
    (\<lambda>m. chain_inv (mgr_blockchain m)) (\<lambda>m. accepts_ops (mgr_blockchain m))"
proof -
  note tree = map_orders.is_mining_ledger [OF map_orders.intro [OF assms], of it3]
  note laws = mining_ledger.last_returns [OF tree] mining_ledger.validate_returns [OF tree] mining_ledger.validate_accepts [OF tree]
  note laws = laws [unfolded Blockchain_ledger_def RFSLedger.simps]
  show ?thesis
  proof (unfold_locales, unfold ChainManager_ledger_simps)
    fix m :: ChainManager
    assume "chain_inv (mgr_blockchain m)"
    from laws(1) [OF this]
    show "\<exists>m' bs. under_lock m (GetLastBlocks (mgr_blockchain m)) = Some (m', bs) \<and> bs \<noteq> [] \<and> chain_inv (mgr_blockchain m') \<and>
        under_lock m (GetLastHash (mgr_blockchain m)) = Some (m', Hash (hd bs)) \<and>
        under_lock m' (GetLastBlocks (mgr_blockchain m')) = Some (m', bs) \<and>
        (\<forall>ops h. ValidateOperations it1 it2 (mgr_blockchain m') ops h = ValidateOperations it1 it2 (mgr_blockchain m) ops h) \<and>
        (\<forall>ops h. accepts_ops (mgr_blockchain m') ops h = accepts_ops (mgr_blockchain m) ops h)"
      by auto
  qed (use laws in auto)
qed

interpretation manager_mining: mining_ledger "ChainManager_ledger (\<lambda>m. m) rev (\<lambda>m. m)"
    "\<lambda>m. chain_inv (mgr_blockchain m)" "\<lambda>m. accepts_ops (mgr_blockchain m)"
  by (rule manager_mining_ledger) simp_all

section \<open>Sending blocks to a peer\<close>

lemma mgr_reverse_loop: "mgr_reverse xs i = reverse_loop xs i (length xs - i - 1)"
proof (induction xs i rule: mgr_reverse.induct)
  case (1 xs i)
  have eq: "i < length xs div 2 \<longleftrightarrow> i < length xs - i - 1" by linarith
  show ?case
  proof (cases "i < length xs div 2")
    case True
    then have "length xs - (i + 1) - 1 = length xs - i - 1 - 1" by simp
    with 1 [OF True refl] True eq show ?thesis
      by (simp add: mgr_reverse.simps [of xs i] reverse_loop.simps [of xs i] Let_def)
  next
    case False
    with eq show ?thesis
      by (simp add: mgr_reverse.simps [of xs i] reverse_loop.simps [of xs i])
  qed
qed

lemma mgr_reverse_rev: "mgr_reverse xs 0 = rev xs"
  using mgr_reverse_loop [of xs 0] reverse_loop_rev [of xs] by simp

section \<open>Synchronization and replay\<close>

lemma mgr_sync_orphan:
  assumes "is_iter it" "has_orphan blocks"
  shows "mgr_sync it m blocks = Some (Running m [])"
proof -
  have "relink it blocks = Inl NoParentForNode"
    using relink_Inl [OF assms(1)] assms(2) by simp
  then show ?thesis
    by (simp add: mgr_sync_def UnmarshallBlockchain_def Let_def)
qed

lemma mgr_sync_rootless:
  assumes "is_iter it" "\<not> has_orphan blocks" "\<not> has_root blocks"
  shows "mgr_sync it m blocks = Some (Running m [])"
proof (cases "relink it blocks")
  case (Inl e)
  with relink_Inl [OF assms(1)] assms(2) show ?thesis by simp
next
  case (Inr r)
  obtain h g where r: "r = (h, g)" by fastforce
  with relink_root [OF assms(1)] Inr assms(3) have "g = None" by blast
  with Inr r show ?thesis by (simp add: mgr_sync_def UnmarshallBlockchain_def Let_def)
qed

text \<open>A synchronization request is answered exactly when every block of the peer has its
  predecessor in the list and some block has none. Then the peer's blocks replace the tree: the manager
  forgets every block of its own that the peer did not send, and checks neither proofs of work nor
  balances. Otherwise the tree stays and the request is never answered.\<close>

theorem mgr_sync_replaces_tree:
  assumes "is_iter it"
  shows "if has_orphan blocks \<or> \<not> has_root blocks then mgr_sync it m blocks = Some (Running m [])
    else \<exists>m'. mgr_sync it m blocks = Some (Running m' [SyncDone]) \<and>
      bc_config (mgr_blockchain m') = mgr_config m \<and>
      (\<forall>h. GetBlock (mgr_blockchain m') h = latest blocks h)"
proof (cases "has_orphan blocks \<or> \<not> has_root blocks")
  case True
  then show ?thesis using mgr_sync_orphan [OF assms] mgr_sync_rootless [OF assms] by auto
next
  case False
  then obtain h g where "relink it blocks = Inr (h, Some g)"
    using relink_succeeds [OF assms] by blast
  from Unmarshall_tree [OF assms this] False show ?thesis
    by (auto simp: mgr_sync_def SetConfig_def GetBlock_def)
qed

theorem mgr_sync_replaces_tree_witness:
  "\<exists>m'. mgr_sync rev (NewChainManager tree4 sample_cfg) [NewGenesisBlock 0 ''g''] = Some (Running m' [SyncDone]) \<and>
     GetBlock (mgr_blockchain m') ''3'' = None \<and> GetBlock (mgr_blockchain (NewChainManager tree4 sample_cfg)) ''3'' \<noteq> None"
proof -
  have l: "latest [NewGenesisBlock 0 ''g''] = [''g'' \<mapsto> NewGenesisBlock 0 ''g'']"
    by (simp add: latest_def NewGenesisBlock_def)
  have "PreviousHash (NewGenesisBlock 0 ''g'') = []" by (simp add: NewGenesisBlock_def)
  then have "\<not> has_orphan [NewGenesisBlock 0 ''g'']" "has_root [NewGenesisBlock 0 ''g'']"
    by (simp_all add: has_orphan_def has_root_def l)
  moreover have "GetBlock tree4 ''3'' \<noteq> None"
    by (simp add: GetBlock_def sample_map)
  ultimately show ?thesis
    using mgr_sync_replaces_tree [OF is_iter_rev, of "[NewGenesisBlock 0 ''g'']" "NewChainManager tree4 sample_cfg"]
    by (auto simp: l NewChainManager_def)
qed

lemma update_twice: "AList.update k v (AList.update k v m) = AList.update k v m"
  by (induction m) auto

text \<open>The replay map is never cleared, so the goroutine can spin: a flooded block whose predecessor
  is in the replay map but not in the tree (for instance because \<^verbatim>\<open>AddBlock\<close> rejected it)
  is put back into the channel again and again, and the state does not change any more.\<close>

theorem replay_spins:
  assumes "mgr_receiveFloodedBlock m = [b]" "\<not> HasBlock (mgr_blockchain m) (Hash b)"
    and "\<not> HasBlock (mgr_blockchain m) (PreviousHash b)" "map_of (mgr_replayMap m) (PreviousHash b) \<noteq> None"
  shows "\<exists>m1. (\<forall>r. mgr_step H m TakeFlooded r \<longleftrightarrow> r = Running m1 []) \<and> mgr_receiveFloodedBlock m1 = [b] \<and>
    (\<forall>r. mgr_step H m1 TakeFlooded r \<longleftrightarrow> r = Running m1 [])"
proof -
  define m1 where "m1 = m\<lparr>mgr_replayMap := AList.update (Hash b) () (mgr_replayMap m)\<rparr>"
  have again: "mgr_flooded (m'\<lparr>mgr_receiveFloodedBlock := []\<rparr>) b =
      Running (m'\<lparr>mgr_receiveFloodedBlock := [b], mgr_replayMap := AList.update (Hash b) () (mgr_replayMap m')\<rparr>) []"
    if "mgr_blockchain m' = mgr_blockchain m" "map_of (mgr_replayMap m') (PreviousHash b) \<noteq> None" for m' :: ChainManager
    using that assms(2,3) by (simp add: mgr_flooded_def)
  have m: "m\<lparr>mgr_receiveFloodedBlock := [b], mgr_replayMap := AList.update (Hash b) () (mgr_replayMap m)\<rparr> = m1"
    and m1: "m1\<lparr>mgr_receiveFloodedBlock := [b], mgr_replayMap := AList.update (Hash b) () (mgr_replayMap m1)\<rparr> = m1"
    using assms(1) by (simp_all add: m1_def update_twice)
  have "map_of (mgr_replayMap m1) (PreviousHash b) \<noteq> None"
    using assms(4) by (simp add: m1_def update_conv')
  then show ?thesis
    using again [of m] again [of m1] m m1 assms(1,4)
    by (intro exI [of _ m1]) (simp add: mgr_step_TakeFlooded m1_def)
qed

theorem replay_spins_witness:
  "\<exists>m1. mgr_step sample_host (NewChainManager tree0 sample_cfg\<lparr>mgr_receiveFloodedBlock := [block3], mgr_replayMap := [(''2'', ())]\<rparr>)
      TakeFlooded (Running m1 []) \<and> mgr_step sample_host m1 TakeFlooded (Running m1 [])"
proof -
  let ?m = "NewChainManager tree0 sample_cfg\<lparr>mgr_receiveFloodedBlock := [block3], mgr_replayMap := [(''2'', ())]\<rparr>"
  have "\<not> HasBlock (mgr_blockchain ?m) (Hash block3)" "\<not> HasBlock (mgr_blockchain ?m) (PreviousHash block3)"
    by (simp_all add: HasBlock_def NewChainManager_def sample_map)
  then show ?thesis
    using replay_spins [of ?m block3 sample_host] by auto
qed

end
