(* ===== verification/P2p_Peers.thy ===== *)
theory P2p_Peers
  imports P2p_Manager P2p_Rpc
begin

text \<open>
  The goroutine \<^verbatim>\<open>managePeers\<close> of \<^verbatim>\<open>p2p/p2p_rpc.go\<close>, which owns the
  peers of a miner and floods blocks and operations to them, and \<^verbatim>\<open>p2p/peer.go\<close>, the
  goroutine of one peer that performs its calls.

  The state of \<^verbatim>\<open>managePeers\<close> is its two local maps. Each case of its
  \<^verbatim>\<open>select\<close> is a definition that returns the new state and what the case sends on the
  channels of other goroutines, in order.
\<close>

record Peer =
  peer_MinerID :: string
  peer_Address :: string

text \<open>\<^verbatim>\<open>NewPeer\<close> makes a peer and starts its goroutine, whose steps are
  \<open>peer_calls\<close> and \<open>peer_returns\<close> below; the connection is their argument.\<close>

definition make_peer :: "string \<Rightarrow> string \<Rightarrow> Peer" where
  "make_peer minerID address = \<lparr>peer_MinerID = minerID, peer_Address = address\<rparr>"

datatype DisconnectReason = ShuttingDown | RequestedDisconnect

fun DisconnectReason_String :: "DisconnectReason \<Rightarrow> string" where
  "DisconnectReason_String ShuttingDown = ''requested shutdown''"
| "DisconnectReason_String RequestedDisconnect = []"

record FloodBlockReq =
  flood_Block :: Block
  FromMinerId :: string

record FloodOpReq =
  flood_Operation :: Operation
  IgnoreMiners :: "string list"

record PeerError =
  err_minerID :: string
  err_err :: string

record PeerManager =
  pm_config :: Settings
  pm_peers :: "(string, Peer) gomap"
  pm_blocksToPeers :: "(string, string list) gomap"

definition NewPeerManager :: "Settings \<Rightarrow> PeerManager" where
  "NewPeerManager cfg = \<lparr>pm_config = cfg, pm_peers = [], pm_blocksToPeers = []\<rparr>"

datatype pm_output =
    Mine
  | HavePeers bool
  | ReceiveFlooded Block
  | RequestBlocks Peer bytes
  | ForwardDownloaded "Block list"
  | SendBlockTo Peer FloodBlockReq
  | SendOpTo Peer FloodOpReq
  | CloseDone Peer
  | CloseConn Peer

section \<open>The cases of managePeers\<close>

definition pm_new_peer :: "PeerManager \<Rightarrow> Peer \<Rightarrow> PeerManager \<times> pm_output list" where
  "pm_new_peer st newPeer =
     (let peers = AList.update (peer_MinerID newPeer) newPeer (pm_peers st)
      in (st\<lparr>pm_peers := peers\<rparr>, [Mine, HavePeers (length peers > 0)]))"

definition pm_continue_mining :: "PeerManager \<Rightarrow> PeerManager \<times> pm_output list" where
  "pm_continue_mining st = (st, if length (pm_peers st) > 0 then [Mine] else [])"

definition pm_received_block :: "PeerManager \<Rightarrow> FloodBlockReq \<Rightarrow> PeerManager \<times> pm_output list" where
  "pm_received_block st req =
     (let fromID = FromMinerId req;
          block = flood_Block req
      in (st\<lparr>pm_blocksToPeers :=
               (case map_of (pm_blocksToPeers st) (Hash block) of
                  None \<Rightarrow> AList.update (Hash block) [fromID] (pm_blocksToPeers st)
                | Some miners \<Rightarrow> AList.update (Hash block) (miners @ [fromID]) (pm_blocksToPeers st))\<rparr>,
          [ReceiveFlooded block]))"

text \<open>The loop over the miners that sent the block; \<open>answers i\<close> is what arrives for the
  \<open>i\<close>-th request, blocks or an error.\<close>

fun download_loop ::
  "(string, Peer) gomap \<Rightarrow> bytes \<Rightarrow> (nat \<Rightarrow> string + Block list) \<Rightarrow> nat \<Rightarrow> string list \<Rightarrow> pm_output list" where
  "download_loop peers previousHash answers i [] = []"
| "download_loop peers previousHash answers i (minerID # miners) =
     (case map_of peers minerID of
        None \<Rightarrow> download_loop peers previousHash answers i miners
      | Some peer \<Rightarrow>
          RequestBlocks peer previousHash #
          (case answers i of
             Inr blocks \<Rightarrow> [ForwardDownloaded blocks]
           | Inl err \<Rightarrow> []) @
          download_loop peers previousHash answers (i + 1) miners)"

definition pm_download ::
  "PeerManager \<Rightarrow> (nat \<Rightarrow> string + Block list) \<Rightarrow> Block \<Rightarrow> PeerManager \<times> pm_output list" where
  "pm_download st answers block =
     (st, case map_of (pm_blocksToPeers st) (Hash block) of
            None \<Rightarrow> []
          | Some miners \<Rightarrow> download_loop (pm_peers st) (PreviousHash block) answers 0 miners)"

text \<open>The body of the loop that sends a block to the peers.\<close>

definition send_block_to ::
  "(string, Peer) gomap \<Rightarrow> (string, unit) gomap \<Rightarrow> FloodBlockReq \<Rightarrow> string \<Rightarrow> pm_output list" where
  "send_block_to peers ignorePeers req peerMinerId =
     (if map_of ignorePeers peerMinerId = None then
        (case map_of peers peerMinerId of
           None \<Rightarrow> []
         | Some peer \<Rightarrow> [SendBlockTo peer req])
      else [])"

definition pm_send_block ::
  "(string, Peer) iter \<Rightarrow> PeerManager \<Rightarrow> Block \<Rightarrow> PeerManager \<times> pm_output list" where
  "pm_send_block it st block =
     (let ignorePeers =
            (case map_of (pm_blocksToPeers st) (Hash block) of
               None \<Rightarrow> []
             | Some miners \<Rightarrow> fold (\<lambda>minerID. AList.update minerID ()) miners []);
          req = \<lparr>flood_Block = block, FromMinerId = SettingsMinerID (pm_config st)\<rparr>
      in (st, concat (map (send_block_to (pm_peers st) ignorePeers req) (map fst (it (pm_peers st))))))"

definition StringSetToList :: "(string, unit) iter \<Rightarrow> (string, unit) gomap \<Rightarrow> string list" where
  "StringSetToList it st = map fst (it st)"

definition pm_flood_operation ::
  "(string, Peer) iter \<Rightarrow> (string, Peer) iter \<Rightarrow> (string, unit) iter \<Rightarrow> PeerManager \<Rightarrow> FloodOpReq
     \<Rightarrow> PeerManager \<times> pm_output list" where
  "pm_flood_operation it1 it2 it3 st oper =
     (let ignorePeers = fold (\<lambda>ignoreId. AList.update ignoreId ()) (IgnoreMiners oper) [];
          peersToFloodTo =
            filter (\<lambda>peer. map_of ignorePeers (peer_MinerID peer) = None) (map snd (it1 (pm_peers st)));
          ignorePeers' = fold (\<lambda>(peerId, _). AList.update peerId ()) (it2 (pm_peers st)) ignorePeers;
          ignorePeers'' = AList.update (SettingsMinerID (pm_config st)) () ignorePeers';
          opFloodReq = \<lparr>flood_Operation = flood_Operation oper,
                        IgnoreMiners = StringSetToList it3 ignorePeers''\<rparr>
      in (st, map (\<lambda>peer. SendOpTo peer opFloodReq) peersToFloodTo))"

definition pm_peer_error :: "PeerManager \<Rightarrow> PeerError \<Rightarrow> PeerManager \<times> pm_output list" where
  "pm_peer_error st err =
     (case map_of (pm_peers st) (err_minerID err) of
        None \<Rightarrow> (st, [])
      | Some peer \<Rightarrow>
          (let peers = AList.delete (err_minerID err) (pm_peers st)
           in (st\<lparr>pm_peers := peers\<rparr>, [CloseDone peer, HavePeers (length peers > 0)])))"

definition pm_stop :: "(string, Peer) iter \<Rightarrow> PeerManager \<Rightarrow> pm_output list" where
  "pm_stop it st = map (\<lambda>(_, peer). CloseConn peer) (it (pm_peers st))"

text \<open>One iteration of the loop, for the channel that is ready.\<close>

datatype pm_event =
    NewPeer Peer
  | ManagerContinues
  | ReceivedBlock FloodBlockReq
  | DownloadPrev Block "nat \<Rightarrow> string + Block list"
  | BlockToSend Block
  | FloodOp FloodOpReq
  | PeerFailed PeerError

definition pm_handle ::
  "(string, Peer) iter \<Rightarrow> (string, Peer) iter \<Rightarrow> (string, unit) iter \<Rightarrow> PeerManager \<Rightarrow> pm_event
     \<Rightarrow> PeerManager \<times> pm_output list" where
  "pm_handle it1 it2 it3 st e =
     (case e of
        NewPeer newPeer \<Rightarrow> pm_new_peer st newPeer
      | ManagerContinues \<Rightarrow> pm_continue_mining st
      | ReceivedBlock req \<Rightarrow> pm_received_block st req
      | DownloadPrev block answers \<Rightarrow> pm_download st answers block
      | BlockToSend block \<Rightarrow> pm_send_block it1 st block
      | FloodOp oper \<Rightarrow> pm_flood_operation it1 it2 it3 st oper
      | PeerFailed err \<Rightarrow> pm_peer_error st err)"

text \<open>What the manager sends to \<^verbatim>\<open>managePeers\<close>, as the case that receives it; the
  answers are those of the peers to a download.\<close>

fun to_managePeers :: "(nat \<Rightarrow> string + Block list) \<Rightarrow> mgr_output \<Rightarrow> pm_event option" where
  "to_managePeers answers (DownloadBlock b) = Some (DownloadPrev b answers)"
| "to_managePeers answers (SendBlock b) = Some (BlockToSend b)"
| "to_managePeers answers ContinueMining = Some ManagerContinues"
| "to_managePeers answers out = None"

section \<open>The handlers for other miners\<close>

text \<open>\<^verbatim>\<open>FloodBlock\<close> replaces missing operations of its local copy by an empty slice, which
  is the same value here, and passes the request on; \<^verbatim>\<open>FloodOperation\<close> passes the request
  to \<^verbatim>\<open>managePeers\<close> and its operation to the goroutine that builds batches.\<close>

definition FloodBlock :: "FloodBlockReq \<Rightarrow> pm_event" where
  "FloodBlock req = ReceivedBlock req"

definition FloodOperation :: "FloodOpReq \<Rightarrow> pm_event \<times> Operation" where
  "FloodOperation req = (FloodOp req, flood_Operation req)"

datatype p2p_error = DoesNotHaveBlocks string bytes

definition GetBlocks_rpc :: "ChainManager \<Rightarrow> bytes \<Rightarrow> p2p_error + Block list" where
  "GetBlocks_rpc m hash =
     (let blocks = mgr_GetPreviousBlocks m hash 500
      in if length blocks = 0 then Inl (DoesNotHaveBlocks (SettingsMinerID (mgr_config m)) hash)
         else Inr blocks)"

definition Heartbeat :: "int \<Rightarrow> bool" where
  "Heartbeat hbeat = True"

section \<open>The goroutine of a peer\<close>

text \<open>The calls over the network; \<open>reply\<close> is an error or, for
  \<^verbatim>\<open>MinerServer.GetBlocks\<close>, the blocks of the peer. Times are in seconds.\<close>

datatype peer_event = PeerSendBlock FloodBlockReq | PeerSendOp FloodOpReq | PeerRequest bytes | PeerTick | PeerDone

datatype peer_call = CallFloodBlock FloodBlockReq | CallFloodOperation FloodOpReq | CallGetBlocks bytes | CallHeartbeat

datatype peer_output = Errs PeerError | DownloadErrs string | DownloadedBlocks "Block list"

fun peer_calls :: "int \<Rightarrow> int \<Rightarrow> peer_event \<Rightarrow> peer_call option" where
  "peer_calls lastConnected now (PeerSendBlock req) = Some (CallFloodBlock req)"
| "peer_calls lastConnected now (PeerSendOp req) = Some (CallFloodOperation req)"
| "peer_calls lastConnected now (PeerRequest hash) = Some (CallGetBlocks hash)"
| "peer_calls lastConnected now PeerTick =
     (if lastConnected + 5 < now then Some CallHeartbeat else None)"
| "peer_calls lastConnected now PeerDone = None"

text \<open>What follows the call: the new \<^verbatim>\<open>lastConnected\<close> and what is sent.\<close>

definition peer_returns ::
  "Peer \<Rightarrow> int \<Rightarrow> int \<Rightarrow> peer_call \<Rightarrow> string + Block list \<Rightarrow> int \<times> peer_output list" where
  "peer_returns p lastConnected now c reply =
     (case (c, reply) of
        (CallGetBlocks hash, Inl err) \<Rightarrow> (lastConnected, [DownloadErrs err])
      | (CallGetBlocks hash, Inr blocks) \<Rightarrow> (now, [DownloadedBlocks blocks])
      | (_, Inl err) \<Rightarrow> (lastConnected, [Errs \<lparr>err_minerID = peer_MinerID p, err_err = err\<rparr>])
      | (_, Inr _) \<Rightarrow> (now, []))"

section \<open>The peers of a miner\<close>

text \<open>Every peer is stored under its own identifier.\<close>

definition peers_inv :: "PeerManager \<Rightarrow> bool" where
  "peers_inv st \<longleftrightarrow> distinct (gokeys (pm_peers st)) \<and> (\<forall>(k, p) \<in> set (pm_peers st). peer_MinerID p = k)"

lemma peers_inv_own:
  assumes "peers_inv st" "e \<in> set (pm_peers st)" shows "peer_MinerID (snd e) = fst e"
  using assms bspec [of "set (pm_peers st)" "\<lambda>(k, p). peer_MinerID p = k" e] by (simp add: peers_inv_def split_def)

lemma pm_handle_config [simp]: "pm_config (fst (pm_handle it1 it2 it3 st e)) = pm_config st"
  by (cases e) (simp_all add: pm_handle_def pm_new_peer_def pm_continue_mining_def pm_received_block_def
      pm_download_def pm_send_block_def pm_flood_operation_def pm_peer_error_def Let_def split: option.split)

lemma pm_handle_peers:
  "pm_peers (fst (pm_handle it1 it2 it3 st e)) =
     (case e of
        NewPeer p \<Rightarrow> AList.update (peer_MinerID p) p (pm_peers st)
      | PeerFailed err \<Rightarrow> AList.delete (err_minerID err) (pm_peers st)
      | _ \<Rightarrow> pm_peers st)"
  by (cases e) (simp_all add: pm_handle_def pm_new_peer_def pm_continue_mining_def pm_received_block_def
      pm_download_def pm_send_block_def pm_flood_operation_def pm_peer_error_def Let_def delete_absent split: option.split)

lemma set_update_subset: "set (AList.update k v mp) \<subseteq> insert (k, v) (set mp)"
  by (induction mp) auto

lemma peers_inv_handle:
  assumes "peers_inv st" shows "peers_inv (fst (pm_handle it1 it2 it3 st e))"
proof (cases e)
  case (NewPeer p)
  then show ?thesis
    using assms set_update_subset [of "peer_MinerID p" p "pm_peers st"]
    by (fastforce simp: peers_inv_def pm_handle_peers)
next
  case (PeerFailed err)
  then show ?thesis
    using assms by (auto simp: peers_inv_def pm_handle_peers set_delete)
qed (use assms in \<open>simp_all add: peers_inv_def pm_handle_peers\<close>)

text \<open>The runs of the goroutine: the state reached and everything it has sent, in order.\<close>

inductive pm_reached :: "Settings \<Rightarrow> PeerManager \<Rightarrow> pm_output list \<Rightarrow> bool" for cfg where
  pm_start: "pm_reached cfg (NewPeerManager cfg) []"
| pm_step: "pm_reached cfg st outs \<Longrightarrow> is_iter it1 \<Longrightarrow> is_iter it2 \<Longrightarrow> is_iter it3 \<Longrightarrow>
    pm_handle it1 it2 it3 st e = (st', outs') \<Longrightarrow> pm_reached cfg st' (outs @ outs')"

lemma pm_reached_inv: "pm_reached cfg st outs \<Longrightarrow> peers_inv st \<and> pm_config st = cfg"
proof (induction rule: pm_reached.induct)
  case (pm_step st outs it1 it2 it3 e st' outs')
  then show ?case
    using peers_inv_handle [of st it1 it2 it3 e] pm_handle_config [of it1 it2 it3 st e] by simp
qed (simp add: peers_inv_def NewPeerManager_def)

text \<open>What \<^verbatim>\<open>updateConnectedStatus\<close> makes of the messages on \<^verbatim>\<open>havePeers\<close>.\<close>

definition connect_server :: "pm_output list \<Rightarrow> Server \<Rightarrow> Server" where
  "connect_server outs s =
     fold (\<lambda>out s. case out of HavePeers b \<Rightarrow> updateConnectedStatus s b | _ \<Rightarrow> s) outs s"

lemma connect_server_append [simp]: "connect_server (xs @ ys) s = connect_server ys (connect_server xs s)"
  by (simp add: connect_server_def)

lemma connect_server_other:
  "(\<And>b. HavePeers b \<notin> set outs) \<Longrightarrow> connect_server outs s = s"
proof (induction outs arbitrary: s)
  case (Cons out outs)
  have "(case out of HavePeers b \<Rightarrow> updateConnectedStatus s b | _ \<Rightarrow> s) = s"
    using Cons.prems by (cases out) auto
  with Cons.IH [of s] Cons.prems show ?case by (simp add: connect_server_def)
qed (simp add: connect_server_def)

lemma download_loop_outputs:
  "out \<in> set (download_loop peers h answers i miners) \<Longrightarrow>
   (\<exists>p. out = RequestBlocks p h) \<or> (\<exists>bs. out = ForwardDownloaded bs)"
  by (induction peers h answers i miners rule: download_loop.induct) (auto split: option.splits sum.splits)

lemma pm_send_block_outputs:
  assumes "out \<in> set (snd (pm_send_block it st block))"
  shows "\<exists>p. out = SendBlockTo p \<lparr>flood_Block = block, FromMinerId = SettingsMinerID (pm_config st)\<rparr>"
proof -
  obtain ignore k where
    "out \<in> set (send_block_to (pm_peers st) ignore \<lparr>flood_Block = block, FromMinerId = SettingsMinerID (pm_config st)\<rparr> k)"
    using assms unfolding pm_send_block_def Let_def snd_conv set_concat set_map by blast
  then show ?thesis
    by (cases "map_of ignore k"; cases "map_of (pm_peers st) k") (simp_all add: send_block_to_def)
qed

lemma pm_handle_connected:
  assumes "isConnected s \<longleftrightarrow> pm_peers st \<noteq> []" "pm_handle it1 it2 it3 st e = (st', outs)"
  shows "isConnected (connect_server outs s) \<longleftrightarrow> pm_peers st' \<noteq> []"
proof (cases e)
  case (NewPeer p)
  with assms(2) show ?thesis
    by (auto simp: pm_handle_def pm_new_peer_def connect_server_def updateConnectedStatus_def Let_def)
next
  case (PeerFailed err)
  with assms show ?thesis
    by (auto simp: pm_handle_def pm_peer_error_def connect_server_def updateConnectedStatus_def Let_def split: option.splits)
next
  case (DownloadPrev block answers)
  then have "HavePeers b \<notin> set outs" for b
    using assms(2) download_loop_outputs [of "HavePeers b"]
    by (auto simp: pm_handle_def pm_download_def split: option.splits)
  with DownloadPrev assms show ?thesis
    using connect_server_other [of outs s] by (auto simp: pm_handle_def pm_download_def)
next
  case (BlockToSend block)
  then have "HavePeers b \<notin> set outs" for b
    using assms(2) pm_send_block_outputs [of "HavePeers b" it1 st block] by (auto simp: pm_handle_def)
  with BlockToSend assms show ?thesis
    using connect_server_other [of outs s] by (auto simp: pm_handle_def pm_send_block_def Let_def)
next
  case (FloodOp req)
  then have "HavePeers b \<notin> set outs" for b
    using assms(2) by (auto simp: pm_handle_def pm_flood_operation_def Let_def)
  with FloodOp assms show ?thesis
    using connect_server_other [of outs s] by (auto simp: pm_handle_def pm_flood_operation_def Let_def)
qed (use assms in \<open>auto simp: pm_handle_def pm_continue_mining_def pm_received_block_def connect_server_def Let_def\<close>)

text \<open>C26: Clients are served exactly while the miner has peers. In every state that
  \<^verbatim>\<open>managePeers\<close> reaches, after the RPC server has received its messages on
  \<^verbatim>\<open>havePeers\<close>, the server counts as connected exactly when the map of peers is not empty;
  and every peer is stored under its own identifier.\<close>

theorem connected_iff_peers:
  assumes "pm_reached cfg st outs"
  shows "(isConnected (connect_server outs (NewRPCServer cfg)) \<longleftrightarrow> pm_peers st \<noteq> []) \<and> peers_inv st"
proof -
  have "isConnected (connect_server outs (NewRPCServer cfg)) \<longleftrightarrow> pm_peers st \<noteq> []"
    using assms
  proof (induction rule: pm_reached.induct)
    case pm_start
    then show ?case by (simp add: connect_server_def NewRPCServer_def NewPeerManager_def)
  next
    case (pm_step st outs it1 it2 it3 e st' outs')
    then show ?case using pm_handle_connected by simp
  qed
  then show ?thesis using pm_reached_inv [OF assms] by blast
qed

definition sample_peer :: "string \<Rightarrow> Peer" where
  "sample_peer mid = \<lparr>peer_MinerID = mid, peer_Address = []\<rparr>"

theorem connected_iff_peers_witness:
  "let (st, outs) = pm_handle rev rev rev (NewPeerManager sample_cfg) (NewPeer (sample_peer ''B''))
   in isConnected (connect_server outs (NewRPCServer sample_cfg)) \<and> peers_inv st \<and> pm_peers st \<noteq> []"
proof -
  let ?r = "pm_handle rev rev rev (NewPeerManager sample_cfg) (NewPeer (sample_peer ''B''))"
  obtain st outs where r: "?r = (st, outs)" by fastforce
  from pm_step [OF pm_start _ _ _ r] have "pm_reached sample_cfg st ([] @ outs)" by simp
  moreover have "pm_peers st \<noteq> []"
    using pm_handle_peers [of rev rev rev "NewPeerManager sample_cfg" "NewPeer (sample_peer ''B'')"] r
    by (simp add: NewPeerManager_def)
  ultimately show ?thesis
    using connected_iff_peers [of sample_cfg st outs] r by simp
qed

section \<open>Flooding an operation\<close>

lemma keys_fold_update:
  "fst ` set (fold (\<lambda>(k, _). AList.update k ()) es mp) = fst ` set mp \<union> fst ` set es"
proof (induction es arbitrary: mp)
  case (Cons e es)
  then show ?case by (cases e) (simp add: insert_commute)
qed simp

lemma pm_flood_operation_outputs:
  assumes "is_iter it1" "is_iter it2" "is_iter it3"
  obtains ign where "set ign = set (IgnoreMiners req) \<union> fst ` set (pm_peers st) \<union> {SettingsMinerID (pm_config st)}"
    and "snd (pm_flood_operation it1 it2 it3 st req) =
      map (\<lambda>p. SendOpTo p \<lparr>flood_Operation = flood_Operation req, IgnoreMiners = ign\<rparr>)
        (filter (\<lambda>p. peer_MinerID p \<notin> set (IgnoreMiners req)) (map snd (it1 (pm_peers st))))"
proof -
  let ?ign0 = "fold (\<lambda>ignoreId. AList.update ignoreId ()) (IgnoreMiners req) []"
  let ?ign2 = "AList.update (SettingsMinerID (pm_config st)) ()
    (fold (\<lambda>(peerId, _). AList.update peerId ()) (it2 (pm_peers st)) ?ign0)"
  have ign0: "fst ` set ?ign0 = set (IgnoreMiners req)"
    using keys_store_all [of "\<lambda>x. x" "\<lambda>_. ()" "IgnoreMiners req" "[]"] by simp
  then have flt: "(map_of ?ign0 x = None) = (x \<notin> set (IgnoreMiners req))" for x
    by (simp add: map_of_eq_None_iff)
  show ?thesis
  proof
    show "set (StringSetToList it3 ?ign2) =
        set (IgnoreMiners req) \<union> fst ` set (pm_peers st) \<union> {SettingsMinerID (pm_config st)}"
      by (simp add: StringSetToList_def iter_set [OF assms(3)] keys_fold_update iter_set [OF assms(2)] ign0)
  qed (simp add: pm_flood_operation_def Let_def flt)
qed

end
