(* ===== verification/P2p_Flooding.thy ===== *)
theory P2p_Flooding
  imports P2p_Peers Mining_Worker
begin

text \<open>
  Flooding of an operation through a network of miners. A configuration of the network is the set of
  miners that have received the operation and the multiset of requests under way, each with its
  destination and its list of miners to ignore; one step delivers a request to the
  \<^verbatim>\<open>managePeers\<close> goroutine of its destination. The contract of one miner is a locale, in
  which termination and completeness of flooding are proved once; \<^verbatim>\<open>managePeers\<close> of
  \<^verbatim>\<open>p2p/p2p_rpc.go\<close> is its instance.
\<close>

type_synonym 'n flood_config = "'n set \<times> ('n \<times> 'n list) multiset"

inductive flood_step ::
  "('n \<Rightarrow> 'n list \<Rightarrow> ('n \<times> 'n list) list \<Rightarrow> bool) \<Rightarrow> 'n flood_config \<Rightarrow> 'n flood_config \<Rightarrow> bool" for out where
  deliver: "(v, ign) \<in># M \<Longrightarrow> out v ign msgs \<Longrightarrow>
    flood_step out (R, M) (insert v R, M - {#(v, ign)#} + mset msgs)"

definition reachable :: "('n \<Rightarrow> 'n set) \<Rightarrow> 'n \<Rightarrow> 'n set" where
  "reachable peers origin = {v. (origin, v) \<in> {(x, y). y \<in> peers x}\<^sup>*}"

definition flood_start :: "'n \<Rightarrow> 'n flood_config" where
  "flood_start origin = ({}, {#(origin, [])#})"

definition destinations :: "('n \<times> 'n list) multiset \<Rightarrow> 'n set" where
  "destinations M = fst ` set_mset M"

text \<open>Who has the operation or is about to get it: all that requests ignore, and all peers of the
  miners that have it.\<close>

definition flood_inv :: "('n \<Rightarrow> 'n set) \<Rightarrow> 'n \<Rightarrow> 'n flood_config \<Rightarrow> bool" where
  "flood_inv peers origin c \<longleftrightarrow>
     (case c of (R, M) \<Rightarrow>
        origin \<in> R \<union> destinations M \<and> R \<union> destinations M \<subseteq> reachable peers origin \<and>
        (\<forall>(v, ign) \<in># M. set ign \<subseteq> R \<union> destinations M) \<and>
        (\<forall>v \<in> R. peers v \<subseteq> R \<union> destinations M))"

lemma destinationsI: "(v, ign) \<in># M \<Longrightarrow> v \<in> destinations M"
  unfolding destinations_def by (metis fst_conv imageI)

lemma destinations_add: "destinations (add_mset (v, ign) M) = insert v (destinations M)"
  by (simp add: destinations_def)

lemma flood_inv_message:
  assumes "flood_inv peers origin (R, M)" "(v, ign) \<in># M"
  shows "v \<in> reachable peers origin" "set ign \<subseteq> R \<union> destinations M"
  using assms destinationsI [OF assms(2)] by (auto simp: flood_inv_def)

lemma reachable_closed: "v \<in> reachable peers origin \<Longrightarrow> peers v \<subseteq> reachable peers origin"
  unfolding reachable_def by (auto intro: rtrancl_into_rtrancl)

lemma reachable_least:
  assumes "origin \<in> R" "\<And>v. v \<in> R \<Longrightarrow> peers v \<subseteq> R" shows "reachable peers origin \<subseteq> R"
proof
  fix v assume "v \<in> reachable peers origin"
  then have "(origin, v) \<in> {(x, y). y \<in> peers x}\<^sup>*" by (simp add: reachable_def)
  then show "v \<in> R" by (induction rule: rtrancl_induct) (use assms in auto)
qed

locale flood_net =
  fixes out :: "'n \<Rightarrow> 'n list \<Rightarrow> ('n \<times> 'n list) list \<Rightarrow> bool" and peers :: "'n \<Rightarrow> 'n set"
  assumes sends: "\<exists>msgs. out v ign msgs"
    and recipients: "out v ign msgs \<Longrightarrow> fst ` set msgs = peers v - set ign"
    and ignored: "out v ign msgs \<Longrightarrow> (w, ign') \<in> set msgs \<Longrightarrow> set ign' = set ign \<union> peers v \<union> {v}"
begin

lemma flood_inv_start: "flood_inv peers origin (flood_start origin)"
  by (simp add: flood_inv_def flood_start_def destinations_def reachable_def)

lemma flood_inv_step:
  assumes "flood_inv peers origin c" "flood_step out c c'"
  shows "flood_inv peers origin c'"
  using assms(2)
proof (cases rule: flood_step.cases)
  case (deliver v ign M msgs R)
  note inv = assms(1) [unfolded deliver(1) flood_inv_def prod.case]
  let ?M = "M - {#(v, ign)#} + mset msgs"
  have dest: "insert v R \<union> destinations ?M = R \<union> destinations M \<union> (peers v - set ign)"
  proof -
    have "insert v (destinations (M - {#(v, ign)#})) = destinations M"
      using destinations_add [of v ign "M - {#(v, ign)#}"] insert_DiffM [OF deliver(3)] by simp
    then show ?thesis using recipients [OF deliver(4)] by (auto simp: destinations_def)
  qed
  note ign = flood_inv_message(2) [OF assms(1) [unfolded deliver(1)] deliver(3)]
  have v: "v \<in> R \<union> destinations M" using destinationsI [OF deliver(3)] by simp
  have "peers v \<subseteq> reachable peers origin"
    using flood_inv_message(1) [OF assms(1) [unfolded deliver(1)] deliver(3)] by (rule reachable_closed)
  moreover have "set ign' \<subseteq> insert v R \<union> destinations ?M" if "(w, ign') \<in># ?M" for w ign'
  proof (cases "(w, ign') \<in> set msgs")
    case True
    from ignored [OF deliver(4) this] v ign show ?thesis unfolding dest by blast
  next
    case False
    with that have "(w, ign') \<in># M" by (auto dest: in_diffD)
    with inv show ?thesis unfolding dest by fastforce
  qed
  moreover have "peers u \<subseteq> insert v R \<union> destinations ?M" if "u \<in> insert v R" for u
    using that inv ign unfolding dest by blast
  ultimately show ?thesis
    using inv unfolding deliver(2) flood_inv_def prod.case dest by blast
qed

lemma flood_inv_run:
  assumes "(flood_step out)\<^sup>*\<^sup>* (flood_start origin) c" shows "flood_inv peers origin c"
  using assms by (induction rule: rtranclp_induct) (auto intro: flood_inv_start flood_inv_step)

text \<open>Every request that is sent on ignores more of the reachable miners.\<close>

lemma flood_step_decreases:
  assumes "flood_inv peers origin c" "flood_step out c c'" "finite (reachable peers origin)"
  defines "todo \<equiv> \<lambda>(v :: 'n, ign). card (reachable peers origin - set ign)"
  shows "(image_mset todo (snd c'), image_mset todo (snd c)) \<in> mult less_than"
  using assms(2)
proof (cases rule: flood_step.cases)
  case (deliver v ign M msgs R)
  have "peers v \<subseteq> reachable peers origin"
    using flood_inv_message(1) [OF assms(1) [unfolded deliver(1)] deliver(3)] by (rule reachable_closed)
  have less: "todo (w, ign') < todo (v, ign)" if "(w, ign') \<in> set msgs" for w ign'
  proof -
    have "w \<in> peers v" "w \<notin> set ign" using that recipients [OF deliver(4)] by force+
    then have "reachable peers origin - set ign' \<subset> reachable peers origin - set ign"
      using ignored [OF deliver(4) that] \<open>peers v \<subseteq> reachable peers origin\<close> by blast
    then show ?thesis unfolding todo_def using assms(3) by (simp add: psubset_card_mono)
  qed
  have M: "image_mset todo M = image_mset todo (M - {#(v, ign)#}) + {#todo (v, ign)#}"
    using deliver(3) by (metis add.commute add_mset_add_single image_mset_add_mset insert_DiffM)
  have "(image_mset todo (M - {#(v, ign)#}) + image_mset todo (mset msgs),
      image_mset todo (M - {#(v, ign)#}) + {#todo (v, ign)#}) \<in> mult less_than"
    using less by (intro one_step_implies_mult) auto
  with M show ?thesis by (simp add: deliver(1,2))
qed

lemma flooding_ends:
  assumes "finite (reachable peers origin)"
  shows "\<nexists>c. c 0 = flood_start origin \<and> (\<forall>i. flood_step out (c i) (c (Suc i)))"
proof
  assume "\<exists>c. c 0 = flood_start origin \<and> (\<forall>i. flood_step out (c i) (c (Suc i)))"
  then obtain c where c: "c 0 = flood_start origin" "\<And>i. flood_step out (c i) (c (Suc i))" by blast
  have inv: "flood_inv peers origin (c i)" for i
    by (induction i) (auto simp: c(1) intro: flood_inv_start flood_inv_step c(2))
  have "wf (mult less_than)" by (simp add: wf_mult)
  moreover define todo where "todo = (\<lambda>(v :: 'n, ign). card (reachable peers origin - set ign))"
  ultimately obtain i where "(image_mset todo (snd (c (Suc i))), image_mset todo (snd (c i))) \<notin> mult less_than"
    unfolding wf_iff_no_infinite_down_chain by (meson)
  with flood_step_decreases [OF inv c(2) assms] show False by (simp add: todo_def)
qed

lemma flooding_complete:
  assumes "(flood_step out)\<^sup>*\<^sup>* (flood_start origin) (R, {#})"
  shows "R = reachable peers origin"
proof -
  have "origin \<in> R" "R \<subseteq> reachable peers origin" "\<And>v. v \<in> R \<Longrightarrow> peers v \<subseteq> R"
    using flood_inv_run [OF assms] by (auto simp: flood_inv_def destinations_def)
  then show ?thesis using reachable_least [of origin R peers] by blast
qed

lemma flooding_continues: "M \<noteq> {#} \<Longrightarrow> \<exists>c. flood_step out (R, M) c"
  using sends by (metis deliver multiset_nonemptyE prod.exhaust)

lemma flooding_quiescent:
  assumes "finite (reachable peers origin)"
  shows "(flood_step out)\<^sup>*\<^sup>* (flood_start origin) (reachable peers origin, {#})"
proof -
  define todo where "todo = (\<lambda>(v :: 'n, ign). card (reachable peers origin - set ign))"
  have "\<exists>R. (flood_step out)\<^sup>*\<^sup>* c (R, {#})" if "flood_inv peers origin c" for c
  proof -
    have "wf (inv_image (mult less_than) (\<lambda>c. image_mset todo (snd c)))"
      by (simp add: wf_mult)
    then show ?thesis using that
    proof (induction c rule: wf_induct_rule)
      case (less c)
      obtain R M where c: "c = (R, M)" by fastforce
      show ?case
      proof (cases "M = {#}")
        case False
        then obtain c' where "flood_step out c c'" using flooding_continues c by blast
        with less show ?thesis
          using flood_step_decreases [OF less.prems _ assms] flood_inv_step
          by (metis (no_types, lifting) converse_rtranclp_into_rtranclp in_inv_image todo_def)
      qed (use c in blast)
    qed
  qed
  then show ?thesis using flood_inv_start flooding_complete by blast
qed

end

section \<open>A network of miners\<close>

text \<open>The state of \<^verbatim>\<open>managePeers\<close> after some events; it does not depend on iteration
  orders. The network: miner \<open>v\<close> has the identifier \<open>v\<close> and has seen the events
  \<open>evs v\<close>.\<close>

definition peers_after :: "Settings \<Rightarrow> pm_event list \<Rightarrow> PeerManager" where
  "peers_after cfg evs = fold (\<lambda>e st. fst (pm_handle (\<lambda>m. m) (\<lambda>m. m) (\<lambda>m. m) st e)) evs (NewPeerManager cfg)"

definition net_of :: "(string \<Rightarrow> Settings) \<Rightarrow> (string \<Rightarrow> pm_event list) \<Rightarrow> string \<Rightarrow> PeerManager" where
  "net_of cfg evs v = peers_after ((cfg v)\<lparr>SettingsMinerID := v\<rparr>) (evs v)"

definition peers_of :: "(string \<Rightarrow> PeerManager) \<Rightarrow> string \<Rightarrow> string set" where
  "peers_of net v = fst ` set (pm_peers (net v))"

fun sent_ops :: "pm_output list \<Rightarrow> (string \<times> string list) list" where
  "sent_ops [] = []"
| "sent_ops (SendOpTo p req # outs) = (peer_MinerID p, IgnoreMiners req) # sent_ops outs"
| "sent_ops (out # outs) = sent_ops outs"

text \<open>The requests that miner \<open>v\<close> may send when it serves \<^verbatim>\<open>FloodOperation\<close>.\<close>

definition op_out :: "Operation \<Rightarrow> (string \<Rightarrow> PeerManager) \<Rightarrow> string \<Rightarrow> string list \<Rightarrow> (string \<times> string list) list \<Rightarrow> bool" where
  "op_out oper net v ign msgs \<longleftrightarrow>
     (\<exists>it1 it2 it3. is_iter it1 \<and> is_iter it2 \<and> is_iter it3 \<and>
        msgs = sent_ops (snd (pm_handle it1 it2 it3 (net v)
          (fst (FloodOperation \<lparr>flood_Operation = oper, IgnoreMiners = ign\<rparr>)))))"

lemma peers_after_reached: "\<exists>outs. pm_reached cfg (peers_after cfg evs) outs"
proof (induction evs rule: rev_induct)
  case Nil
  then show ?case by (auto simp: peers_after_def intro: pm_start)
next
  case (snoc e evs)
  then obtain outs where r: "pm_reached cfg (peers_after cfg evs) outs" by blast
  obtain st outs' where h: "pm_handle (\<lambda>m. m) (\<lambda>m. m) (\<lambda>m. m) (peers_after cfg evs) e = (st, outs')"
    by fastforce
  with pm_step [OF r _ _ _ h] show ?case by (auto simp: peers_after_def)
qed

lemma net_of_inv: "peers_inv (net_of cfg evs v) \<and> SettingsMinerID (pm_config (net_of cfg evs v)) = v"
proof -
  obtain outs where "pm_reached ((cfg v)\<lparr>SettingsMinerID := v\<rparr>) (net_of cfg evs v) outs"
    using peers_after_reached unfolding net_of_def by blast
  then show ?thesis using pm_reached_inv by force
qed

lemma sent_ops_SendOpTo: "sent_ops (map (\<lambda>p. SendOpTo p req) ps) = map (\<lambda>p. (peer_MinerID p, IgnoreMiners req)) ps"
  by (induction ps) auto

lemma fst_image_pair: "fst ` (\<lambda>x. (f x, c)) ` {x \<in> S. f x \<notin> T} = f ` S - T"
  by force

lemma op_out_sends:
  assumes "op_out oper net v ign msgs" "peers_inv (net v)" "SettingsMinerID (pm_config (net v)) = v"
  shows "\<exists>ign'. set ign' = set ign \<union> peers_of net v \<union> {v} \<and>
    fst ` set msgs = peers_of net v - set ign \<and> snd ` set msgs \<subseteq> {ign'}"
proof -
  obtain it1 it2 it3 where it: "is_iter it1" "is_iter it2" "is_iter it3"
    and msgs: "msgs = sent_ops (snd (pm_flood_operation it1 it2 it3 (net v) \<lparr>flood_Operation = oper, IgnoreMiners = ign\<rparr>))"
    using assms(1) by (auto simp: op_out_def FloodOperation_def pm_handle_def)
  obtain ign' where ign: "set ign' = set ign \<union> peers_of net v \<union> {v}"
    and outs: "snd (pm_flood_operation it1 it2 it3 (net v) \<lparr>flood_Operation = oper, IgnoreMiners = ign\<rparr>) =
      map (\<lambda>p. SendOpTo p \<lparr>flood_Operation = oper, IgnoreMiners = ign'\<rparr>)
        (filter (\<lambda>p. peer_MinerID p \<notin> set ign) (map snd (it1 (pm_peers (net v)))))"
    using pm_flood_operation_outputs [OF it, of "\<lparr>flood_Operation = oper, IgnoreMiners = ign\<rparr>" "net v"] assms(3)
    by (auto simp: peers_of_def)
  have "peer_MinerID ` snd ` set (pm_peers (net v)) = peers_of net v"
    using assms(2) unfolding peers_inv_def peers_of_def by force
  moreover have "fst ` set msgs = peer_MinerID ` snd ` set (pm_peers (net v)) - set ign"
    unfolding msgs outs sent_ops_SendOpTo by (simp add: iter_set [OF it(1)] fst_image_pair)
  moreover have "snd ` set msgs \<subseteq> {ign'}"
    unfolding msgs outs sent_ops_SendOpTo by auto
  ultimately show ?thesis using ign by auto
qed

interpretation op_flood: flood_net "op_out oper (net_of cfg evs)" "peers_of (net_of cfg evs)"
proof
  show "\<exists>msgs. op_out oper (net_of cfg evs) v ign msgs" for v ign
  proof
    show "op_out oper (net_of cfg evs) v ign (sent_ops (snd (pm_handle (\<lambda>m. m) (\<lambda>m. m) (\<lambda>m. m) (net_of cfg evs v)
        (fst (FloodOperation \<lparr>flood_Operation = oper, IgnoreMiners = ign\<rparr>)))))"
      unfolding op_out_def by (intro exI [of _ "\<lambda>m. m"] conjI is_iter_id refl)
  qed
next
  fix v ign msgs
  assume out: "op_out oper (net_of cfg evs) v ign msgs"
  note sends = op_out_sends [OF out] net_of_inv [of cfg evs v]
  then show "fst ` set msgs = peers_of (net_of cfg evs) v - set ign" by blast
  show "set ign' = set ign \<union> peers_of (net_of cfg evs) v \<union> {v}" if "(w, ign') \<in> set msgs" for w ign'
    using sends that by force
qed


definition pair_events :: "string \<Rightarrow> pm_event list" where
  "pair_events v = (if v = ''A'' then [NewPeer (sample_peer ''B'')]
     else if v = ''B'' then [NewPeer (sample_peer ''A'')] else [])"

lemma pair_peers:
  "peers_of (net_of (\<lambda>_. sample_cfg) pair_events) v = (if v = ''A'' then {''B''} else if v = ''B'' then {''A''} else {})"
  by (simp add: peers_of_def net_of_def peers_after_def pair_events_def pm_handle_peers NewPeerManager_def sample_peer_def)


end
