(* ===== verification/P2p_Gossip.thy ===== *)
theory P2p_Gossip
  imports P2p_Flooding
begin

text \<open>
  Flooding of a block through a network of miners, with the chain managers of
  \<^verbatim>\<open>p2p/blockchain_manager.go\<close> and the \<^verbatim>\<open>managePeers\<close> goroutines of
  \<^verbatim>\<open>p2p/p2p_rpc.go\<close> of all miners. Taking a request, taking a block from each of the two
  channels of the chain manager, and sending the block on are separate steps, and all of them
  interleave. The specification is a gossip protocol, which the network of the program's goroutines
  simulates.
\<close>

section \<open>The gossip protocol\<close>

text \<open>Who has the block, who has sent it on, who is known to have sent it to whom, how many copies
  a miner still has to look at, and which messages are under way. A message \<open>(v, f)\<close> is for
  \<open>v\<close>, from \<open>f\<close>.\<close>

record 'n gossip =
  knows :: "'n set"
  told :: "'n set"
  heard :: "'n \<Rightarrow> 'n set"
  copies :: "'n \<Rightarrow> nat"
  messages :: "('n \<times> 'n) multiset"

inductive gossip_step :: "('n \<Rightarrow> 'n set) \<Rightarrow> 'n gossip \<Rightarrow> 'n gossip \<Rightarrow> bool" for peers where
  gossip_receive: "(v, f) \<in># messages g \<Longrightarrow>
    gossip_step peers g (g\<lparr>heard := (heard g)(v := insert f (heard g v)), copies := (copies g)(v := Suc (copies g v)),
      messages := messages g - {#(v, f)#}\<rparr>)"
| gossip_drop: "copies g v = Suc n \<Longrightarrow> v \<in> knows g \<Longrightarrow> gossip_step peers g (g\<lparr>copies := (copies g)(v := n)\<rparr>)"
| gossip_add: "copies g v = Suc n \<Longrightarrow> v \<notin> knows g \<Longrightarrow>
    gossip_step peers g (g\<lparr>knows := insert v (knows g), copies := (copies g)(v := n)\<rparr>)"
| gossip_tell: "v \<in> knows g - told g \<Longrightarrow> distinct ws \<Longrightarrow> set ws = peers v - heard g v \<Longrightarrow>
    gossip_step peers g (g\<lparr>told := insert v (told g), messages := messages g + image_mset (\<lambda>w. (w, v)) (mset ws)\<rparr>)"

definition msgs_to :: "'n \<Rightarrow> ('n \<times> 'n) multiset \<Rightarrow> nat" where
  "msgs_to v M = size (filter_mset (\<lambda>x. fst x = v) M)"

text \<open>Who has the block or will look at a copy of it.\<close>

definition concerned :: "'n gossip \<Rightarrow> 'n set" where
  "concerned g = knows g \<union> {v. 0 < copies g v + msgs_to v (messages g)}"

definition gossip_inv :: "('n \<Rightarrow> 'n set) \<Rightarrow> 'n \<Rightarrow> 'n gossip \<Rightarrow> bool" where
  "gossip_inv peers origin g \<longleftrightarrow>
     told g \<subseteq> knows g \<and> origin \<in> concerned g \<and> concerned g \<subseteq> reachable peers origin \<and>
     snd ` set_mset (messages g) \<subseteq> told g \<and> (\<forall>v. heard g v \<subseteq> told g) \<and> (\<forall>v \<in> told g. peers v \<subseteq> concerned g) \<and>
     (\<forall>v. copies g v + msgs_to v (messages g) \<le> card {u \<in> told g. v \<in> peers u} + of_bool (v = origin))"

lemma gossip_invD:
  assumes "gossip_inv peers origin g"
  shows "told g \<subseteq> knows g" "origin \<in> concerned g" "concerned g \<subseteq> reachable peers origin"
    "snd ` set_mset (messages g) \<subseteq> told g" "heard g v \<subseteq> told g" "v \<in> told g \<Longrightarrow> peers v \<subseteq> concerned g"
    "copies g v + msgs_to v (messages g) \<le> card {u \<in> told g. v \<in> peers u} + of_bool (v = origin)" "knows g \<subseteq> concerned g"
  using assms unfolding gossip_inv_def by (simp_all add: concerned_def)

lemma senders_remove: "snd ` set_mset (M - N) \<subseteq> snd ` set_mset M"
  by (meson image_mono in_diffD subsetI)

lemma msgs_to_remove: "(v, f) \<in># M \<Longrightarrow> Suc (msgs_to w (M - {#(v, f)#})) = msgs_to w M + of_bool (w \<noteq> v)"
proof -
  assume "(v, f) \<in># M"
  then obtain N where "M = add_mset (v, f) N" by (metis insert_DiffM)
  then show ?thesis by (simp add: msgs_to_def)
qed

lemma msgs_to_tell:
  assumes "distinct ws"
  shows "msgs_to w (M + image_mset (\<lambda>x. (x, v)) (mset ws)) = msgs_to w M + of_bool (w \<in> set ws)"
proof -
  have "size (filter_mset (\<lambda>x. fst x = w) (image_mset (\<lambda>x. (x, v)) (mset ws))) = of_bool (w \<in> set ws)"
    using assms by (induction ws) auto
  then show ?thesis by (simp add: msgs_to_def)
qed

lemma msgs_to_message: "(v, f) \<in># M \<Longrightarrow> 0 < msgs_to v M"
  using msgs_to_remove [of v f M v] by simp

lemma gossip_inv_receive:
  assumes inv: "gossip_inv peers origin g" and m: "(v, f) \<in># messages g"
  defines "g' \<equiv> g\<lparr>heard := (heard g)(v := insert f (heard g v)), copies := (copies g)(v := Suc (copies g v)),
      messages := messages g - {#(v, f)#}\<rparr>"
  shows "gossip_inv peers origin g'"
proof -
  have sum: "copies g' w + msgs_to w (messages g') = copies g w + msgs_to w (messages g)" for w
    using msgs_to_remove [OF m, of w] by (auto simp: g'_def)
  then have con: "concerned g' = concerned g" by (simp add: concerned_def g'_def)
  have "f \<in> snd ` set_mset (messages g)" using m by (metis image_eqI snd_conv)
  then have "f \<in> told g" using inv by (auto simp: gossip_inv_def)
  moreover have "snd ` set_mset (messages g') \<subseteq> told g"
    using order_trans [OF senders_remove gossip_invD(4) [OF inv]] by (simp add: g'_def)
  ultimately show ?thesis
    using inv unfolding gossip_inv_def sum con by (auto simp: g'_def)
qed

lemma gossip_inv_copy:
  assumes inv: "gossip_inv peers origin g" and c: "copies g v = Suc n"
  defines "g' \<equiv> g\<lparr>knows := insert v (knows g), copies := (copies g)(v := n)\<rparr>"
  shows "gossip_inv peers origin g'"
proof -
  have "copies g' w + msgs_to w (messages g') \<le> copies g w + msgs_to w (messages g)" for w
    using c by (auto simp: g'_def)
  then have le: "copies g' w + msgs_to w (messages g') \<le> card {u \<in> told g. w \<in> peers u} + of_bool (w = origin)" for w
    using inv unfolding gossip_inv_def by (meson order_trans)
  have "concerned g' = concerned g" using c by (auto simp: concerned_def g'_def)
  then show ?thesis
    using inv le unfolding gossip_inv_def by (auto simp: g'_def)
qed

lemma gossip_inv_tell:
  assumes inv: "gossip_inv peers origin g" and v: "v \<in> knows g - told g" and ws: "distinct ws" "set ws = peers v - heard g v"
    and fin: "finite (reachable peers origin)"
  defines "g' \<equiv> g\<lparr>told := insert v (told g), messages := messages g + image_mset (\<lambda>w. (w, v)) (mset ws)\<rparr>"
  shows "gossip_inv peers origin g'"
proof -
  note msgs = msgs_to_tell [OF ws(1), of _ "messages g" v]
  have con: "concerned g' = concerned g \<union> set ws" by (auto simp: concerned_def g'_def msgs)
  have v': "v \<in> reachable peers origin" "heard g v \<subseteq> concerned g"
    using gossip_invD(1,3,8) [OF inv] gossip_invD(5) [OF inv, of v] v by auto
  have pv: "peers v \<subseteq> reachable peers origin" using reachable_closed [OF v'(1)] .
  have le: "copies g' w + msgs_to w (messages g') \<le> card {u \<in> told g'. w \<in> peers u} + of_bool (w = origin)" for w
  proof -
    have tf: "finite (told g)" using inv fin by (auto simp: gossip_inv_def concerned_def intro: finite_subset)
    have "{u \<in> told g'. w \<in> peers u} = {u \<in> told g. w \<in> peers u} \<union> (if w \<in> peers v then {v} else {})"
      by (auto simp: g'_def)
    then have "card {u \<in> told g'. w \<in> peers u} = card {u \<in> told g. w \<in> peers u} + of_bool (w \<in> peers v)"
      using tf v by auto
    moreover have "copies g w + msgs_to w (messages g) \<le> card {u \<in> told g. w \<in> peers u} + of_bool (w = origin)"
      using gossip_invD(7) [OF inv] .
    moreover have "copies g' w + msgs_to w (messages g') = copies g w + msgs_to w (messages g) + of_bool (w \<in> set ws)"
      by (simp add: g'_def msgs)
    moreover have "of_bool (w \<in> set ws) \<le> (of_bool (w \<in> peers v) :: nat)" using ws(2) by (auto simp: of_bool_def)
    ultimately show ?thesis by linarith
  qed
  show ?thesis unfolding gossip_inv_def con
  proof (intro conjI allI ballI)
    show "told g' \<subseteq> knows g'" using gossip_invD(1) [OF inv] v by (auto simp: g'_def)
    show "origin \<in> concerned g \<union> set ws" using gossip_invD(2) [OF inv] by blast
    show "concerned g \<union> set ws \<subseteq> reachable peers origin" using gossip_invD(3) [OF inv] ws(2) pv by blast
    show "snd ` set_mset (messages g') \<subseteq> told g'" using gossip_invD(4) [OF inv] by (auto simp: g'_def)
    show "heard g' w \<subseteq> told g'" for w using gossip_invD(5) [OF inv, of w] by (auto simp: g'_def)
    show "peers w \<subseteq> concerned g \<union> set ws" if "w \<in> told g'" for w
      using that gossip_invD(6) [OF inv, of w] ws(2) v' by (auto simp: g'_def)
  qed (rule le)
qed

lemma gossip_inv_step:
  assumes "gossip_inv peers origin g" "gossip_step peers g g'" "finite (reachable peers origin)"
  shows "gossip_inv peers origin g'"
  using assms(2)
proof (cases rule: gossip_step.cases)
  case (gossip_receive v f)
  then show ?thesis using gossip_inv_receive [OF assms(1)] by simp
next
  case (gossip_drop v n)
  then have "g' = g\<lparr>knows := insert v (knows g), copies := (copies g)(v := n)\<rparr>" by (simp add: insert_absorb)
  then show ?thesis using gossip_inv_copy [OF assms(1) gossip_drop(2)] by simp
next
  case (gossip_add v n)
  then show ?thesis using gossip_inv_copy [OF assms(1)] by simp
next
  case (gossip_tell v ws)
  then show ?thesis using gossip_inv_tell [OF assms(1) _ _ _ assms(3)] by simp
qed

lemma card_insert_less:
  assumes "finite R" "v \<in> R" "v \<notin> A" shows "card (R - insert v A) < card (R - A)"
  using assms by (intro psubset_card_mono) auto

lemma gossip_complete:
  assumes "gossip_inv peers origin g" "told g = knows g" "messages g = {#}" "\<And>v. copies g v = 0"
  shows "knows g = reachable peers origin"
proof -
  have "concerned g = knows g" using assms(3,4) by (simp add: concerned_def msgs_to_def)
  then show ?thesis
    using assms(1,2) reachable_least [of origin "knows g" peers] unfolding gossip_inv_def by auto
qed

lemma gossip_bound:
  assumes "gossip_inv peers origin g" "finite (reachable peers origin)"
    and "card {u \<in> reachable peers origin. v \<in> peers u} < n"
  shows "copies g v + msgs_to v (messages g) \<le> n"
proof -
  have "{u \<in> told g. v \<in> peers u} \<subseteq> {u \<in> reachable peers origin. v \<in> peers u}"
    using assms(1) by (auto simp: gossip_inv_def concerned_def)
  then have "card {u \<in> told g. v \<in> peers u} \<le> card {u \<in> reachable peers origin. v \<in> peers u}"
    using assms(2) by (intro card_mono) auto
  moreover have "copies g v + msgs_to v (messages g) \<le> card {u \<in> told g. v \<in> peers u} + of_bool (v = origin)"
    using assms(1) by (simp add: gossip_inv_def)
  ultimately show ?thesis using assms(3) by (auto split: if_splits simp: of_bool_def)
qed

section \<open>The network of miners\<close>

fun sent_blocks :: "pm_output list \<Rightarrow> (string \<times> FloodBlockReq) list" where
  "sent_blocks [] = []"
| "sent_blocks (SendBlockTo p req # outs) = (peer_MinerID p, req) # sent_blocks outs"
| "sent_blocks (out # outs) = sent_blocks outs"

text \<open>The chain managers, what each of them still has to send before it gets back to its
  \<^verbatim>\<open>select\<close>, the peer managers, and the requests under way.\<close>

record network =
  net_mgr :: "string \<Rightarrow> ChainManager"
  net_pending :: "string \<Rightarrow> mgr_output list"
  net_pm :: "string \<Rightarrow> PeerManager"
  net_msgs :: "(string \<times> FloodBlockReq) multiset"

text \<open>Steps: \<^verbatim>\<open>managePeers\<close> of a miner takes a request and passes the block on to the
  chain manager; the chain manager takes a block from one of its channels; it hands over what it has to
  send, to \<^verbatim>\<open>managePeers\<close> or to a goroutine that is always ready.\<close>

inductive net_step :: "host \<Rightarrow> network \<Rightarrow> network \<Rightarrow> bool" for H where
  net_receive: "(v, req) \<in># net_msgs c \<Longrightarrow> is_iter it1 \<Longrightarrow> is_iter it2 \<Longrightarrow> is_iter it3 \<Longrightarrow>
    pm_handle it1 it2 it3 (net_pm c v) (FloodBlock req) = (p', [ReceiveFlooded b]) \<Longrightarrow>
    mgr_step H (net_mgr c v) (PeerBlock b) (Running m' []) \<Longrightarrow>
    net_step H c (c\<lparr>net_mgr := (net_mgr c)(v := m'), net_pm := (net_pm c)(v := p'), net_msgs := net_msgs c - {#(v, req)#}\<rparr>)"
| net_take: "e = TakeFlooded \<or> e = TakeAdd \<Longrightarrow> net_pending c v = [] \<Longrightarrow> mgr_step H (net_mgr c v) e (Running m' outs) \<Longrightarrow>
    net_step H c (c\<lparr>net_mgr := (net_mgr c)(v := m'), net_pending := (net_pending c)(v := outs)\<rparr>)"
| net_serve: "net_pending c v = out # outs \<Longrightarrow> to_managePeers answers out = Some e \<Longrightarrow> is_iter it1 \<Longrightarrow> is_iter it2 \<Longrightarrow> is_iter it3 \<Longrightarrow>
    pm_handle it1 it2 it3 (net_pm c v) e = (p', outs') \<Longrightarrow>
    net_step H c (c\<lparr>net_pending := (net_pending c)(v := outs), net_pm := (net_pm c)(v := p'),
      net_msgs := net_msgs c + mset (sent_blocks outs')\<rparr>)"
| net_other: "net_pending c v = out # outs \<Longrightarrow> to_managePeers answers out = None \<Longrightarrow>
    net_step H c (c\<lparr>net_pending := (net_pending c)(v := outs)\<rparr>)"

section \<open>One miner\<close>

definition senders :: "Block \<Rightarrow> PeerManager \<Rightarrow> string set" where
  "senders b pm = (case map_of (pm_blocksToPeers pm) (Hash b) of None \<Rightarrow> {} | Some miners \<Rightarrow> set miners)"

text \<open>The block can be added to the tree of the miner, or has been added.\<close>

definition node_ok :: "host \<Rightarrow> Block \<Rightarrow> ChainManager \<Rightarrow> bool" where
  "node_ok H b m \<longleftrightarrow> bc_inv (mgr_blockchain m) \<and> set (mgr_addBlock m) \<subseteq> {b} \<and> set (mgr_receiveFloodedBlock m) \<subseteq> {b} \<and>
     (HasBlock (mgr_blockchain m) (Hash b) \<or>
      (\<exists>bs. chain_view (mgr_blockchain m) (PreviousHash b) = Some bs \<and>
         acceptable (bc_config (mgr_blockchain m)) (Operations b) bs \<and>
         Validate H (NewProofOfWork b (uint (block_difficulty (bc_config (mgr_blockchain m)) b)))))"

lemma node_flooded_known:
  assumes "HasBlock (mgr_blockchain m) (Hash b)" "mgr_receiveFloodedBlock m = b # bs"
  shows "mgr_step H m TakeFlooded r \<longleftrightarrow> r = Running (m\<lparr>mgr_receiveFloodedBlock := bs\<rparr>) []"
  using assms by (simp add: mgr_step_TakeFlooded mgr_flooded_def)

lemma node_flooded_new:
  assumes "node_ok H b m" "\<not> HasBlock (mgr_blockchain m) (Hash b)" "mgr_receiveFloodedBlock m = b # bs" "length (mgr_addBlock m) < 100"
  shows "mgr_step H m TakeFlooded r \<longleftrightarrow>
    r = Running (m\<lparr>mgr_receiveFloodedBlock := bs, mgr_addBlock := mgr_addBlock m @ [b]\<rparr>) []"
proof -
  have "chain_view (mgr_blockchain m) (PreviousHash b) \<noteq> None" "bc_inv (mgr_blockchain m)"
    using assms(1,2) by (auto simp: node_ok_def)
  then have "HasBlock (mgr_blockchain m) (PreviousHash b)"
    using chain_view_None by (auto simp: HasBlock_def)
  then show ?thesis using assms(2-4) by (simp add: mgr_step_TakeFlooded mgr_flooded_def)
qed

lemma node_add_known:
  assumes "node_ok H b m" "HasBlock (mgr_blockchain m) (Hash b)" "mgr_addBlock m = b # bs"
  shows "mgr_step H m TakeAdd r \<longleftrightarrow> r = Running (m\<lparr>mgr_addBlock := bs\<rparr>) [ContinueMining]"
proof -
  have inv: "bc_inv (mgr_blockchain m)" using assms(1) by (simp add: node_ok_def)
  have add: "mgr_add H it1 it2 (m\<lparr>mgr_addBlock := bs\<rparr>) b = Some (Running (m\<lparr>mgr_addBlock := bs\<rparr>) [ContinueMining])"
    if "is_iter it1" "is_iter it2" for it1 it2
    using assms(2) AddBlock_eq [OF inv that, of H b] by (simp add: mgr_add_def)
  show ?thesis
  proof
    assume "mgr_step H m TakeAdd r"
    then show "r = Running (m\<lparr>mgr_addBlock := bs\<rparr>) [ContinueMining]"
      by (rule mgr_step_TakeAddE) (use add assms(3) in auto)
  qed (use step_add [OF assms(3) is_iter_id is_iter_id add] in simp)
qed

lemma node_add_new:
  assumes ok: "node_ok H b m" and new: "\<not> HasBlock (mgr_blockchain m) (Hash b)" and m: "mgr_addBlock m = b # bs"
  shows "\<exists>r. mgr_step H m TakeAdd r"
    and "mgr_step H m TakeAdd r \<Longrightarrow> \<exists>m'. r = Running m' [NewBlockAdded, SendBlock b, ContinueMining] \<and> node_ok H b m' \<and>
      HasBlock (mgr_blockchain m') (Hash b) \<and> mgr_addBlock m' = bs \<and> mgr_receiveFloodedBlock m' = mgr_receiveFloodedBlock m"
proof -
  let ?bc = "mgr_blockchain m"
  from ok new obtain ch where inv: "bc_inv ?bc" and ch: "chain_view ?bc (PreviousHash b) = Some ch"
      "acceptable (bc_config ?bc) (Operations b) ch" "Validate H (NewProofOfWork b (uint (block_difficulty (bc_config ?bc) b)))"
    by (auto simp: node_ok_def)
  have res: "\<exists>m'. mgr_add H it1 it2 (m\<lparr>mgr_addBlock := bs\<rparr>) b = Some (Running m' [NewBlockAdded, SendBlock b, ContinueMining]) \<and>
      node_ok H b m' \<and> HasBlock (mgr_blockchain m') (Hash b) \<and> mgr_addBlock m' = bs \<and>
      mgr_receiveFloodedBlock m' = mgr_receiveFloodedBlock m"
    if it: "is_iter it1" "is_iter it2" for it1 it2
  proof -
    obtain p where p: "map_of (bc_m ?bc) (PreviousHash b) = Some p"
        "AddBlock H it1 it2 ?bc b = Some (Inr (link_block ?bc b p))"
      using ch new AddBlock_eq [OF inv it, of H b] by (auto simp: chain_view_def HasBlock_def split: option.splits)
    have inv': "bc_inv (link_block ?bc b p)"
      using bc_inv_link_block [OF inv _ p(1)] new by (simp add: HasBlock_def)
    then obtain lns where "getLastNodes (link_block ?bc b p) = Some (queried (link_block ?bc b p), lns)"
      using getLastNodes_tip by metis
    then have "mgr_add H it1 it2 (m\<lparr>mgr_addBlock := bs\<rparr>) b =
        Some (Running (m\<lparr>mgr_addBlock := bs, mgr_blockchain := queried (link_block ?bc b p)\<rparr>) [NewBlockAdded, SendBlock b, ContinueMining])"
      using p(2) by (simp add: mgr_add_def GetLastHash_def)
    then show ?thesis
      using bc_inv_lastNode [OF inv' tip_live [OF inv']] ok m by (auto simp: node_ok_def HasBlock_def)
  qed
  show "\<exists>r. mgr_step H m TakeAdd r"
    using res [OF is_iter_id is_iter_id] step_add [OF m is_iter_id is_iter_id] by blast
  assume "mgr_step H m TakeAdd r"
  then show "\<exists>m'. r = Running m' [NewBlockAdded, SendBlock b, ContinueMining] \<and> node_ok H b m' \<and>
      HasBlock (mgr_blockchain m') (Hash b) \<and> mgr_addBlock m' = bs \<and> mgr_receiveFloodedBlock m' = mgr_receiveFloodedBlock m"
    using res m by (fastforce elim!: mgr_step_TakeAddE)
qed

lemma sent_blocks_append [simp]: "sent_blocks (xs @ ys) = sent_blocks xs @ sent_blocks ys"
  by (induction xs rule: sent_blocks.induct) auto

lemma keys_store_unit: "fst ` set (fold (\<lambda>x. AList.update x ()) xs []) = set xs"
  using keys_store_all [of "\<lambda>x. x" "\<lambda>_. ()" xs "[]"] by simp

lemma pm_send_block_sent:
  assumes inv: "peers_inv st" and it: "is_iter it"
  shows "sent_blocks (snd (pm_send_block it st b)) =
    map (\<lambda>k. (k, \<lparr>flood_Block = b, FromMinerId = SettingsMinerID (pm_config st)\<rparr>))
      (filter (\<lambda>k. k \<notin> senders b st) (map fst (it (pm_peers st))))"
proof -
  define ign where "ign = (case map_of (pm_blocksToPeers st) (Hash b) of
      None \<Rightarrow> [] | Some miners \<Rightarrow> fold (\<lambda>minerID. AList.update minerID ()) miners [])"
  let ?req = "\<lparr>flood_Block = b, FromMinerId = SettingsMinerID (pm_config st)\<rparr>"
  have "fst ` set ign = senders b st"
    by (simp add: ign_def senders_def keys_store_unit split: option.split)
  then have ign: "map_of ign k = None \<longleftrightarrow> k \<notin> senders b st" for k
    by (simp add: map_of_eq_None_iff)
  have "sent_blocks (concat (map (send_block_to (pm_peers st) ign ?req) ks)) =
      map (\<lambda>k. (k, ?req)) (filter (\<lambda>k. k \<notin> senders b st) ks)" if "set ks \<subseteq> fst ` set (pm_peers st)" for ks
    using that
  proof (induction ks)
    case (Cons k ks)
    then obtain p where p: "map_of (pm_peers st) k = Some p"
      by (metis (no_types, lifting) list.set_intros(1) map_of_eq_None_iff not_None_eq subsetD)
    then have "peer_MinerID p = k" using peers_inv_own [OF inv map_of_SomeD [OF p]] by simp
    with Cons p show ?case by (simp add: send_block_to_def ign)
  qed simp
  from this [of "map fst (it (pm_peers st))"] show ?thesis
    by (simp add: pm_send_block_def Let_def ign_def [symmetric] iter_set [OF it])
qed

lemma received_block:
  assumes "pm_handle it1 it2 it3 pm (FloodBlock req) = (p', [ReceiveFlooded b])"
  shows "b = flood_Block req" "pm_peers p' = pm_peers pm" "pm_config p' = pm_config pm"
    and "senders b p' = insert (FromMinerId req) (senders b pm)"
proof -
  have p': "p' = fst (pm_received_block pm req)" and "b = flood_Block req"
    using assms by (auto simp: FloodBlock_def pm_handle_def pm_received_block_def Let_def)
  then show "b = flood_Block req" "pm_peers p' = pm_peers pm" "pm_config p' = pm_config pm"
    "senders b p' = insert (FromMinerId req) (senders b pm)"
    by (auto simp: pm_received_block_def senders_def Let_def split: option.split)
qed

section \<open>Simulation\<close>

definition gossip_of :: "Block \<Rightarrow> network \<Rightarrow> string gossip" where
  "gossip_of b c =
     (let K = {v. HasBlock (mgr_blockchain (net_mgr c v)) (Hash b)}
      in \<lparr>knows = K, told = {v \<in> K. SendBlock b \<notin> set (net_pending c v)}, heard = \<lambda>v. senders b (net_pm c v),
          copies = \<lambda>v. length (mgr_receiveFloodedBlock (net_mgr c v)) + length (mgr_addBlock (net_mgr c v)),
          messages = image_mset (\<lambda>(v, req). (v, FromMinerId req)) (net_msgs c)\<rparr>)"

lemma gossip_of_sel:
  "knows (gossip_of b c) = {v. HasBlock (mgr_blockchain (net_mgr c v)) (Hash b)}"
  "told (gossip_of b c) = {v. HasBlock (mgr_blockchain (net_mgr c v)) (Hash b) \<and> SendBlock b \<notin> set (net_pending c v)}"
  "heard (gossip_of b c) = (\<lambda>v. senders b (net_pm c v))"
  "copies (gossip_of b c) = (\<lambda>v. length (mgr_receiveFloodedBlock (net_mgr c v)) + length (mgr_addBlock (net_mgr c v)))"
  "messages (gossip_of b c) = image_mset (\<lambda>(v, req). (v, FromMinerId req)) (net_msgs c)"
  by (simp_all add: gossip_of_def Let_def)

text \<open>What a manager may have left to send: the outputs of adding the block, or of a copy of it.\<close>

definition added_outputs :: "Block \<Rightarrow> mgr_output list" where
  "added_outputs b = [NewBlockAdded, SendBlock b, ContinueMining]"

definition pending_ok :: "Block \<Rightarrow> ChainManager \<Rightarrow> mgr_output list \<Rightarrow> bool" where
  "pending_ok b m outs \<longleftrightarrow> suffix outs (added_outputs b) \<and> (outs \<noteq> [] \<longrightarrow> HasBlock (mgr_blockchain m) (Hash b))"

definition net_ok :: "host \<Rightarrow> Block \<Rightarrow> (string \<Rightarrow> string set) \<Rightarrow> network \<Rightarrow> bool" where
  "net_ok H b peers c \<longleftrightarrow> peers_of (net_pm c) = peers \<and> (\<forall>(v, req) \<in># net_msgs c. flood_Block req = b) \<and>
     (\<forall>v. node_ok H b (net_mgr c v) \<and> pending_ok b (net_mgr c v) (net_pending c v) \<and>
        peers_inv (net_pm c v) \<and> SettingsMinerID (pm_config (net_pm c v)) = v)"

lemma net_okD:
  assumes "net_ok H b peers c"
  shows "peers_of (net_pm c) = peers" "(v, req) \<in># net_msgs c \<Longrightarrow> flood_Block req = b" "node_ok H b (net_mgr c v)"
    "pending_ok b (net_mgr c v) (net_pending c v)" "peers_inv (net_pm c v)" "SettingsMinerID (pm_config (net_pm c v)) = v"
  using assms by (auto simp: net_ok_def)

text \<open>What does not change the gossip only moves a block to the other channel, or is about mining.\<close>

definition quiet_todo :: "string set \<Rightarrow> (network \<times> network) set" where
  "quiet_todo R = measures [\<lambda>c. \<Sum>v \<in> R. length (mgr_receiveFloodedBlock (net_mgr c v)), \<lambda>c. \<Sum>v \<in> R. length (net_pending c v)]"

lemma sum_upd_less:
  fixes f :: "'a \<Rightarrow> nat"
  assumes "finite R" "v \<in> R" "f' v < f v" "\<And>w. w \<noteq> v \<Longrightarrow> f' w = f w"
  shows "sum f' R < sum f R"
proof (rule sum_strict_mono_ex1 [OF assms(1)])
  show "\<forall>w \<in> R. f' w \<le> f w" using assms(3,4) by (metis less_or_eq_imp_le)
qed (use assms(2,3) in blast)

lemma sum_upd_eq: "f' v = f v \<Longrightarrow> (\<And>w. w \<noteq> v \<Longrightarrow> f' w = f w) \<Longrightarrow> sum f' R = sum f R"
  by (metis (full_types))

definition simulates :: "host \<Rightarrow> Block \<Rightarrow> (string \<Rightarrow> string set) \<Rightarrow> string set \<Rightarrow> network \<Rightarrow> network \<Rightarrow> bool" where
  "simulates H b peers R c c' \<longleftrightarrow> net_ok H b peers c' \<and>
     (gossip_step peers (gossip_of b c) (gossip_of b c') \<or> gossip_of b c' = gossip_of b c \<and> (c', c) \<in> quiet_todo R)"

lemma image_mset_remove: "x \<in># M \<Longrightarrow> image_mset f (M - {#x#}) = image_mset f M - {#f x#}"
  by (simp add: image_mset_Diff)

lemma receive_simulates:
  assumes ok: "net_ok H b peers c" and v: "(v, req) \<in># net_msgs c"
    and h: "pm_handle it1 it2 it3 (net_pm c v) (FloodBlock req) = (p', [ReceiveFlooded b'])"
    and m: "mgr_step H (net_mgr c v) (PeerBlock b') (Running m' [])"
  shows "simulates H b peers R c
    (c\<lparr>net_mgr := (net_mgr c)(v := m'), net_pm := (net_pm c)(v := p'), net_msgs := net_msgs c - {#(v, req)#}\<rparr>)" (is "simulates H b peers R c ?c")
proof -
  note recv = received_block [OF h] and D = net_okD [OF ok]
  have b': "b' = b" using recv(1) D(2) [OF v] by simp
  have m': "m' = (net_mgr c v)\<lparr>mgr_receiveFloodedBlock := mgr_receiveFloodedBlock (net_mgr c v) @ [b]\<rparr>"
    using m b' by (auto elim: mgr_step.cases)
  have "peers_of ((net_pm c)(v := p')) = peers"
    using recv(2) D(1) by (auto simp: peers_of_def fun_eq_iff)
  moreover have "node_ok H b m'" "pending_ok b m' (net_pending c v)"
    using D(3,4) [of v] by (auto simp: m' node_ok_def pending_ok_def)
  moreover have "peers_inv p'" "SettingsMinerID (pm_config p') = v"
    using D(5,6) [of v] recv(2,3) by (simp_all add: peers_inv_def)
  ultimately have "net_ok H b peers ?c"
    using ok unfolding net_ok_def by (auto dest: in_diffD)
  moreover have "gossip_step peers (gossip_of b c) (gossip_of b ?c)"
  proof -
    let ?g = "gossip_of b c"
    have "(v, FromMinerId req) \<in># messages ?g" using v by (force simp: gossip_of_sel)
    from gossip_receive [OF this, of peers]
    show ?thesis
    proof (rule back_subst [of "gossip_step peers ?g"])
      show "?g\<lparr>heard := (heard ?g)(v := insert (FromMinerId req) (heard ?g v)), copies := (copies ?g)(v := Suc (copies ?g v)),
          messages := messages ?g - {#(v, FromMinerId req)#}\<rparr> = gossip_of b ?c"
        using recv(4) image_mset_remove [OF v, of "\<lambda>(v, req). (v, FromMinerId req)"] b'
        by (auto simp: gossip_of_def Let_def m' fun_eq_iff)
    qed
  qed
  ultimately show ?thesis by (simp add: simulates_def)
qed

abbreviation after_take :: "network \<Rightarrow> string \<Rightarrow> ChainManager \<Rightarrow> mgr_output list \<Rightarrow> network" where
  "after_take c v m' outs \<equiv> c\<lparr>net_mgr := (net_mgr c)(v := m'), net_pending := (net_pending c)(v := outs)\<rparr>"

lemma after_take_ok:
  "net_ok H b peers c \<Longrightarrow> node_ok H b m' \<Longrightarrow> pending_ok b m' outs \<Longrightarrow> net_ok H b peers (after_take c v m' outs)"
  by (auto simp: net_ok_def)

lemma node_ok_channels:
  assumes "node_ok H b m" shows "mgr_receiveFloodedBlock m = x # xs \<Longrightarrow> x = b" "mgr_addBlock m = y # ys \<Longrightarrow> y = b"
  using assms by (auto simp: node_ok_def)

lemma mgr_takes:
  assumes "mgr_step H m e r" "e = TakeFlooded \<or> e = TakeAdd"
  obtains x xs where "e = TakeFlooded" "mgr_receiveFloodedBlock m = x # xs" | x xs where "e = TakeAdd" "mgr_addBlock m = x # xs"
  using assms by (auto elim: mgr_step.cases)

lemma take_known:
  assumes ok: "net_ok H b peers c" and idle: "net_pending c v = []" and e: "e = TakeFlooded \<or> e = TakeAdd"
    and m: "mgr_step H (net_mgr c v) e r" and known: "HasBlock (mgr_blockchain (net_mgr c v)) (Hash b)"
  shows "\<exists>m' outs. r = Running m' outs \<and> simulates H b peers R c (after_take c v m' outs)"
proof -
  let ?m = "net_mgr c v" and ?g = "gossip_of b c"
  have node: "node_ok H b ?m" using net_okD(3) [OF ok] .
  have sim: "simulates H b peers R c (after_take c v m' outs)"
    if "node_ok H b m'" "mgr_blockchain m' = mgr_blockchain ?m" "outs = [] \<or> outs = [ContinueMining]"
      "Suc (length (mgr_receiveFloodedBlock m') + length (mgr_addBlock m')) = length (mgr_receiveFloodedBlock ?m) + length (mgr_addBlock ?m)"
    for m' outs
  proof -
    let ?n = "length (mgr_receiveFloodedBlock m') + length (mgr_addBlock m')"
    have "gossip_of b (after_take c v m' outs) = ?g\<lparr>copies := (copies ?g)(v := ?n)\<rparr>"
      by (rule gossip.equality) (use known that idle in \<open>auto simp: gossip_of_sel split: if_splits\<close>)
    then have "gossip_step peers ?g (gossip_of b (after_take c v m' outs))"
      using gossip_drop [of ?g v ?n peers] known that(4) by (simp add: gossip_of_sel)
    moreover have "pending_ok b m' outs"
      using that(2,3) known by (auto simp: pending_ok_def added_outputs_def suffix_def)
    ultimately show ?thesis using after_take_ok [OF ok that(1)] by (simp add: simulates_def)
  qed
  from m e show ?thesis
  proof (cases rule: mgr_takes)
    case (1 x xs)
    then have x: "mgr_receiveFloodedBlock ?m = b # xs" using node_ok_channels [OF node] by simp
    have "node_ok H b (?m\<lparr>mgr_receiveFloodedBlock := xs\<rparr>)" using node x by (simp add: node_ok_def)
    with m 1(1) x show ?thesis by (simp add: node_flooded_known [OF known x] sim)
  next
    case (2 x xs)
    then have x: "mgr_addBlock ?m = b # xs" using node_ok_channels [OF node] by simp
    have "node_ok H b (?m\<lparr>mgr_addBlock := xs\<rparr>)" using node x by (simp add: node_ok_def)
    with m 2(1) x show ?thesis by (simp add: node_add_known [OF node known x] sim)
  qed
qed

lemma take_new:
  assumes ok: "net_ok H b peers c" and idle: "net_pending c v = []" and e: "e = TakeFlooded \<or> e = TakeAdd"
    and m: "mgr_step H (net_mgr c v) e r" and new: "\<not> HasBlock (mgr_blockchain (net_mgr c v)) (Hash b)"
    and room: "copies (gossip_of b c) v \<le> 100" and R: "finite R" "concerned (gossip_of b c) \<subseteq> R"
  shows "\<exists>m' outs. r = Running m' outs \<and> simulates H b peers R c (after_take c v m' outs)"
proof -
  let ?m = "net_mgr c v" and ?g = "gossip_of b c"
  have node: "node_ok H b ?m" using net_okD(3) [OF ok] .
  from m e show ?thesis
  proof (cases rule: mgr_takes)
    case (1 x xs)
    then have x: "mgr_receiveFloodedBlock ?m = b # xs" using node_ok_channels [OF node] by simp
    then have room: "length (mgr_addBlock ?m) < 100" and "v \<in> R"
      using room R(2) by (auto simp: gossip_of_sel concerned_def)
    let ?m' = "?m\<lparr>mgr_receiveFloodedBlock := xs, mgr_addBlock := mgr_addBlock ?m @ [b]\<rparr>"
    have r: "r = Running ?m' []" using m 1(1) node_flooded_new [OF node new x room] by simp
    have "(after_take c v ?m' [], c) \<in> quiet_todo R"
      unfolding quiet_todo_def by (simp, rule disjI1, rule sum_upd_less [OF R(1) \<open>v \<in> R\<close>]) (use x in auto)
    moreover have "gossip_of b (after_take c v ?m' []) = ?g"
      using x idle by (auto simp: gossip_of_def Let_def fun_eq_iff)
    moreover have "net_ok H b peers (after_take c v ?m' [])"
      using node x by (intro after_take_ok [OF ok]) (auto simp: node_ok_def pending_ok_def added_outputs_def)
    ultimately show ?thesis using r by (auto simp: simulates_def)
  next
    case (2 x xs)
    then have x: "mgr_addBlock ?m = b # xs" using node_ok_channels [OF node] by simp
    from m 2(1) node_add_new(2) [OF node new x] obtain m' where r: "r = Running m' (added_outputs b)"
      and m': "node_ok H b m'" "HasBlock (mgr_blockchain m') (Hash b)" "mgr_addBlock m' = xs"
        "mgr_receiveFloodedBlock m' = mgr_receiveFloodedBlock ?m"
      by (auto simp: added_outputs_def)
    let ?n = "length (mgr_receiveFloodedBlock ?m) + length xs"
    have "gossip_of b (after_take c v m' (added_outputs b)) = ?g\<lparr>knows := insert v (knows ?g), copies := (copies ?g)(v := ?n)\<rparr>"
      by (rule gossip.equality) (use new m' in \<open>auto simp: gossip_of_sel added_outputs_def split: if_splits\<close>)
    then have "gossip_step peers ?g (gossip_of b (after_take c v m' (added_outputs b)))"
      using gossip_add [of ?g v ?n peers] new x by (simp add: gossip_of_sel)
    moreover have "pending_ok b m' (added_outputs b)" using m'(2) by (simp add: pending_ok_def)
    ultimately show ?thesis using r after_take_ok [OF ok m'(1)] by (auto simp: simulates_def)
  qed
qed

lemma suffix_added_outputs:
  "suffix (out # outs) (added_outputs b) \<longleftrightarrow>
     out = NewBlockAdded \<and> outs = [SendBlock b, ContinueMining] \<or> out = SendBlock b \<and> outs = [ContinueMining] \<or>
     out = ContinueMining \<and> outs = []"
  by (auto simp: added_outputs_def suffix_Cons)

text \<open>An output that has nothing to do with the block.\<close>

lemma quiet_simulates:
  assumes ok: "net_ok H b peers c" and out: "net_pending c v = out # outs" "out \<noteq> SendBlock b" and R: "finite R" "v \<in> R"
  shows "simulates H b peers R c (c\<lparr>net_pending := (net_pending c)(v := outs)\<rparr>)" (is "simulates _ _ _ _ _ ?c")
proof -
  have "pending_ok b (net_mgr c v) outs"
    using net_okD(4) [OF ok, of v] out(1) by (auto simp: pending_ok_def suffix_ConsD)
  then have "net_ok H b peers ?c" using ok by (auto simp: net_ok_def)
  moreover have "gossip_of b ?c = gossip_of b c"
    by (rule gossip.equality) (use out in \<open>auto simp: gossip_of_sel split: if_splits\<close>)
  moreover have "(?c, c) \<in> quiet_todo R"
    unfolding quiet_todo_def by (simp, rule sum_upd_less [OF R]) (use out in auto)
  ultimately show ?thesis by (simp add: simulates_def)
qed

lemma tell_simulates:
  assumes ok: "net_ok H b peers c" and out: "net_pending c v = SendBlock b # outs" and it: "is_iter it1"
    and h: "pm_handle it1 it2 it3 (net_pm c v) (BlockToSend b) = (p', outs')"
  shows "simulates H b peers R c (c\<lparr>net_pending := (net_pending c)(v := outs), net_pm := (net_pm c)(v := p'),
      net_msgs := net_msgs c + mset (sent_blocks outs')\<rparr>)" (is "simulates _ _ _ _ _ ?c")
proof -
  let ?g = "gossip_of b c"
  note D = net_okD [OF ok]
  have p': "p' = net_pm c v" "outs' = snd (pm_send_block it1 (net_pm c v) b)"
    using h by (auto simp: pm_handle_def pm_send_block_def)
  define ws where "ws = filter (\<lambda>k. k \<notin> senders b (net_pm c v)) (map fst (it1 (pm_peers (net_pm c v))))"
  have sent: "sent_blocks outs' = map (\<lambda>k. (k, \<lparr>flood_Block = b, FromMinerId = v\<rparr>)) ws"
    using pm_send_block_sent [OF D(5) it, of v b] D(6) by (simp add: p'(2) ws_def)
  have rest: "suffix (SendBlock b # outs) (added_outputs b)" "HasBlock (mgr_blockchain (net_mgr c v)) (Hash b)"
    using D(4) [of v] out by (auto simp: pending_ok_def)
  then have outs: "outs = [ContinueMining]" by (simp add: suffix_added_outputs)
  then have "pending_ok b (net_mgr c v) outs" using rest by (simp add: pending_ok_def suffix_added_outputs)
  then have "net_ok H b peers ?c"
    using ok by (auto simp: net_ok_def p'(1) sent)
  moreover have "gossip_step peers ?g (gossip_of b ?c)"
  proof -
    have "distinct ws" using iter_distinct_keys [OF it] D(5) [of v] by (simp add: ws_def peers_inv_def)
    moreover have "set ws = peers v - heard ?g v"
      unfolding ws_def D(1) [symmetric] by (simp add: gossip_of_sel peers_of_def iter_set [OF it] set_diff_eq)
    moreover have "v \<in> knows ?g - told ?g" using rest(2) out by (simp add: gossip_of_sel)
    ultimately have "gossip_step peers ?g
        (?g\<lparr>told := insert v (told ?g), messages := messages ?g + image_mset (\<lambda>w. (w, v)) (mset ws)\<rparr>)"
      by (intro gossip_tell)
    moreover have "gossip_of b ?c = ?g\<lparr>told := insert v (told ?g), messages := messages ?g + image_mset (\<lambda>w. (w, v)) (mset ws)\<rparr>"
      by (rule gossip.equality)
        (use rest(2) outs in \<open>auto simp: gossip_of_sel p'(1) sent image_mset.compositionality comp_def split: if_splits\<close>)
    ultimately show ?thesis by simp
  qed
  ultimately show ?thesis by (simp add: simulates_def)
qed

text \<open>Every step of the network is a step of the protocol, or leaves the gossip as it is and gets the
  network nearer to rest. A manager never blocks or panics.\<close>

lemma net_step_simulates:
  assumes ok: "net_ok H b peers c" and inv: "gossip_inv peers origin (gossip_of b c)" and step: "net_step H c c'"
    and fin: "finite (reachable peers origin)" and few: "\<And>v. card {u \<in> reachable peers origin. v \<in> peers u} < 100"
  shows "simulates H b peers (reachable peers origin) c c'"
  using step
proof (cases rule: net_step.cases)
  case (net_receive v req it1 it2 it3 p' b' m')
  then show ?thesis using receive_simulates [OF ok] by blast
next
  case (net_take e v m' outs)
  have room: "copies (gossip_of b c) v \<le> 100" using gossip_bound [OF inv fin few, of v] by simp
  from take_known [OF ok net_take(3,2,4)] take_new [OF ok net_take(3,2,4) _ room fin gossip_invD(3) [OF inv]] net_take(1)
  show ?thesis by fastforce
next
  case (net_serve v out outs answers e it1 it2 it3 p' outs')
  have "pending_ok b (net_mgr c v) (out # outs)" using net_okD(4) [OF ok, of v] net_serve(2) by simp
  then have v: "suffix (out # outs) (added_outputs b)" "v \<in> reachable peers origin"
    using gossip_invD(3,8) [OF inv] by (auto simp: pending_ok_def gossip_of_sel)
  show ?thesis
  proof (cases "out = SendBlock b")
    case True
    then show ?thesis using tell_simulates [OF ok _ net_serve(4)] net_serve by auto
  next
    case False
    with v(1) net_serve(3) have "e = ManagerContinues" by (auto simp: suffix_added_outputs)
    with net_serve(7) have "p' = net_pm c v" "sent_blocks outs' = []"
      by (auto simp: pm_handle_def pm_continue_mining_def split: if_splits)
    with net_serve(1) have "c' = c\<lparr>net_pending := (net_pending c)(v := outs)\<rparr>" by simp
    with quiet_simulates [OF ok net_serve(2) False fin v(2)] show ?thesis by simp
  qed
next
  case (net_other v out outs answers)
  have "pending_ok b (net_mgr c v) (out # outs)" using net_okD(4) [OF ok, of v] net_other(2) by simp
  then have "v \<in> reachable peers origin"
    using gossip_invD(3,8) [OF inv] by (auto simp: pending_ok_def gossip_of_sel)
  moreover have "out \<noteq> SendBlock b" using net_other(3) by auto
  ultimately show ?thesis using quiet_simulates [OF ok net_other(2) _ fin] net_other(1) by simp
qed

section \<open>Blocks reach all miners\<close>

text \<open>The origin has put the block into its channel \<^verbatim>\<open>addBlock\<close>; nobody knows the block yet, and
  nothing else is under way. Every miner knows its predecessor and would accept it.\<close>

definition block_start :: "host \<Rightarrow> Block \<Rightarrow> string \<Rightarrow> network \<Rightarrow> bool" where
  "block_start H b origin c \<longleftrightarrow> net_msgs c = {#} \<and>
     (\<forall>v. node_ok H b (net_mgr c v) \<and> \<not> HasBlock (mgr_blockchain (net_mgr c v)) (Hash b) \<and>
        mgr_addBlock (net_mgr c v) = (if v = origin then [b] else []) \<and> mgr_receiveFloodedBlock (net_mgr c v) = [] \<and>
        net_pending c v = [] \<and> peers_inv (net_pm c v) \<and> SettingsMinerID (pm_config (net_pm c v)) = v \<and>
        map_of (pm_blocksToPeers (net_pm c v)) (Hash b) = None)"

lemma block_start_inv:
  assumes "block_start H b origin c"
  shows "net_ok H b (peers_of (net_pm c)) c" "gossip_inv (peers_of (net_pm c)) origin (gossip_of b c)"
proof -
  show "net_ok H b (peers_of (net_pm c)) c"
    using assms by (auto simp: block_start_def net_ok_def pending_ok_def)
  have g: "knows (gossip_of b c) = {}" "told (gossip_of b c) = {}" "heard (gossip_of b c) = (\<lambda>v. {})"
    "copies (gossip_of b c) = (\<lambda>v. of_bool (v = origin))" "messages (gossip_of b c) = {#}"
    using assms by (auto simp: block_start_def gossip_of_sel senders_def fun_eq_iff)
  then have "concerned (gossip_of b c) = {origin}"
    by (auto simp: concerned_def msgs_to_def)
  then show "gossip_inv (peers_of (net_pm c)) origin (gossip_of b c)"
    by (simp add: gossip_inv_def g msgs_to_def reachable_def)
qed

text \<open>Finitely many miners are reachable, and less than 100 of them have the same miner as peer: no
  channel \<^verbatim>\<open>addBlock\<close> is filled by copies of the block.\<close>

definition small_net :: "(string \<Rightarrow> string set) \<Rightarrow> string \<Rightarrow> bool" where
  "small_net peers origin \<longleftrightarrow> finite (reachable peers origin) \<and> (\<forall>v. card {u \<in> reachable peers origin. v \<in> peers u} < 100)"

lemma net_run_inv:
  assumes "(net_step H)\<^sup>*\<^sup>* c c'" "net_ok H b peers c" "gossip_inv peers origin (gossip_of b c)" "small_net peers origin"
  shows "net_ok H b peers c' \<and> gossip_inv peers origin (gossip_of b c')"
  using assms(1)
proof (induction rule: rtranclp_induct)
  case (step c1 c2)
  then have "simulates H b peers (reachable peers origin) c1 c2"
    using net_step_simulates assms(4) unfolding small_net_def by blast
  with step.IH assms(4) show ?case
    using gossip_inv_step [of peers origin "gossip_of b c1" "gossip_of b c2"] by (auto simp: simulates_def small_net_def)
qed (use assms in simp)

text \<open>Every step adds a miner that has the block or has sent it on, leaves a message or a copy less, or
  gets nearer to rest.\<close>

definition net_todo :: "Block \<Rightarrow> string set \<Rightarrow> (network \<times> network) set" where
  "net_todo b R = measures [\<lambda>c. card (R - knows (gossip_of b c)), \<lambda>c. card (R - told (gossip_of b c)),
     \<lambda>c. size (net_msgs c), \<lambda>c. sum (copies (gossip_of b c)) R,
     \<lambda>c. \<Sum>v \<in> R. length (mgr_receiveFloodedBlock (net_mgr c v)), \<lambda>c. \<Sum>v \<in> R. length (net_pending c v)]"

lemma size_messages: "size (messages (gossip_of b c)) = size (net_msgs c)"
  by (simp add: gossip_of_sel)

lemma gossip_step_todo:
  assumes step: "gossip_step peers (gossip_of b c) (gossip_of b c')" and inv: "gossip_inv peers origin (gossip_of b c)"
    and fin: "finite (reachable peers origin)"
  shows "(c', c) \<in> net_todo b (reachable peers origin)"
proof -
  let ?g = "gossip_of b c" and ?R = "reachable peers origin"
  have R: "v \<in> ?R" if "v \<in> concerned ?g" for v using gossip_invD(3) [OF inv] that by blast
  from step show ?thesis
  proof (cases rule: gossip_step.cases)
    case (gossip_receive v f)
    then have "size (messages (gossip_of b c')) < size (messages ?g)"
      by (simp add: size_Diff1_less)
    moreover have "knows (gossip_of b c') = knows ?g" "told (gossip_of b c') = told ?g" using gossip_receive(1) by simp_all
    ultimately show ?thesis by (simp add: net_todo_def size_messages)
  next
    case (gossip_drop v n)
    have "sum (copies (gossip_of b c')) ?R < sum (copies ?g) ?R"
      using gossip_drop R [of v] by (intro sum_upd_less [OF fin, of v]) (auto simp: concerned_def)
    moreover have "knows (gossip_of b c') = knows ?g" "told (gossip_of b c') = told ?g" "messages (gossip_of b c') = messages ?g"
      using gossip_drop(1) by simp_all
    ultimately show ?thesis by (simp add: net_todo_def size_messages [of b, symmetric])
  next
    case (gossip_add v n)
    then show ?thesis using card_insert_less [OF fin R, of v "knows ?g"] by (simp add: net_todo_def concerned_def)
  next
    case (gossip_tell v ws)
    then show ?thesis using card_insert_less [OF fin R, of v "told ?g"] by (simp add: net_todo_def concerned_def)
  qed
qed

lemma net_step_todo:
  assumes "simulates H b peers (reachable peers origin) c c'" "gossip_inv peers origin (gossip_of b c)" "finite (reachable peers origin)"
  shows "(c', c) \<in> net_todo b (reachable peers origin)"
proof -
  have "(c', c) \<in> net_todo b (reachable peers origin)"
    if "gossip_of b c' = gossip_of b c" "(c', c) \<in> quiet_todo (reachable peers origin)"
    using that size_messages [of b c] size_messages [of b c'] by (simp add: net_todo_def quiet_todo_def)
  then show ?thesis using assms gossip_step_todo by (auto simp: simulates_def)
qed

lemma net_ends:
  assumes "net_ok H b peers c0" "gossip_inv peers origin (gossip_of b c0)" "small_net peers origin"
  shows "\<nexists>c. c 0 = c0 \<and> (\<forall>i. net_step H (c i) (c (Suc i)))"
proof
  assume "\<exists>c. c 0 = c0 \<and> (\<forall>i. net_step H (c i) (c (Suc i)))"
  then obtain c where c: "c 0 = c0" "\<And>i. net_step H (c i) (c (Suc i))" by blast
  have run: "(net_step H)\<^sup>*\<^sup>* c0 (c i)" for i
    by (induction i) (auto simp: c(1) intro: rtranclp.rtrancl_into_rtrancl c(2))
  have "(c (Suc i), c i) \<in> net_todo b (reachable peers origin)" for i
    using net_run_inv [OF run [of i] assms] net_step_simulates [OF _ _ c(2) [of i]] net_step_todo assms(3)
    unfolding small_net_def by blast
  moreover have "wf (net_todo b (reachable peers origin))" by (simp add: net_todo_def)
  ultimately show False unfolding wf_iff_no_infinite_down_chain by blast
qed

lemma mgr_never_stuck:
  assumes "net_ok H b peers c" "gossip_inv peers origin (gossip_of b c)" "small_net peers origin"
    and "net_pending c v = []" "e = TakeFlooded \<or> e = TakeAdd" "mgr_step H (net_mgr c v) e r"
  shows "\<exists>m' outs. r = Running m' outs"
proof -
  have "copies (gossip_of b c) v \<le> 100"
    using gossip_bound [OF assms(2), of v 100] assms(3) by (simp add: small_net_def)
  then show ?thesis
    using take_known [OF assms(1,4-6)] take_new [OF assms(1,4-6)] assms(3) gossip_invD(3) [OF assms(2)]
    unfolding small_net_def by blast
qed

lemma net_progress:
  assumes ok: "net_ok H b peers c" and inv: "gossip_inv peers origin (gossip_of b c)" and net: "small_net peers origin"
    and stop: "\<nexists>c'. net_step H c c'"
  shows "net_pending c v = []" "mgr_receiveFloodedBlock (net_mgr c v) = []" "mgr_addBlock (net_mgr c v) = []" "net_msgs c = {#}"
proof -
  show idle: "net_pending c v = []" for v
  proof (cases "net_pending c v")
    case (Cons out outs)
    show ?thesis
    proof (cases "to_managePeers (\<lambda>_. Inl []) out")
      case None
      then show ?thesis using net_other [OF Cons] stop by blast
    next
      case (Some e)
      obtain p' outs' where "pm_handle (\<lambda>m. m) (\<lambda>m. m) (\<lambda>m. m) (net_pm c v) e = (p', outs')" by fastforce
      then show ?thesis using net_serve [OF Cons Some is_iter_id is_iter_id is_iter_id] stop by blast
    qed
  qed simp
  have taken: "\<not> mgr_step H (net_mgr c v) e r" if "e = TakeFlooded \<or> e = TakeAdd" for e r v
    using mgr_never_stuck [OF ok inv net idle that] net_take [OF that idle] stop by blast
  note node = net_okD(3) [OF ok]
  show "mgr_receiveFloodedBlock (net_mgr c v) = []"
    using taken [of TakeFlooded] step_flooded [of "net_mgr c v"] by (metis list.exhaust)
  show "mgr_addBlock (net_mgr c v) = []"
  proof (cases "mgr_addBlock (net_mgr c v)")
    case (Cons x xs)
    then have "mgr_addBlock (net_mgr c v) = b # xs" using node_ok_channels [OF node] by metis
    then show ?thesis using taken [of TakeAdd] node_add_known [OF node] node_add_new(1) [OF node] by blast
  qed simp
  show "net_msgs c = {#}"
  proof (rule ccontr)
    assume "net_msgs c \<noteq> {#}"
    then obtain w req where m: "(w, req) \<in># net_msgs c" by (metis multiset_nonemptyE surj_pair)
    obtain p' where h: "pm_handle (\<lambda>m. m) (\<lambda>m. m) (\<lambda>m. m) (net_pm c w) (FloodBlock req) = (p', [ReceiveFlooded (flood_Block req)])"
      by (simp add: FloodBlock_def pm_handle_def pm_received_block_def Let_def)
    have "copies (gossip_of b c) w \<le> 100"
      using gossip_bound [OF inv, of w 100] net by (simp add: small_net_def)
    then have "length (mgr_receiveFloodedBlock (net_mgr c w)) < 1000" by (simp add: gossip_of_sel)
    from net_receive [OF m is_iter_id is_iter_id is_iter_id h step_peer [OF this]] stop show False by blast
  qed
qed

text \<open>C3: A mined block reaches every miner. Every miner has the predecessor of the block and would accept
  the block there; the origin has the block in its channel \<^verbatim>\<open>addBlock\<close>; nothing else is under way, no
  miner fails, and less than 100 of the finitely many reachable miners have the same peer. The goroutines
  of all miners run in any interleaving: \<^verbatim>\<open>managePeers\<close> may record further senders of the block while the
  manager has copies of it in both channels or waits to send it on. Then no run goes on forever, no
  manager blocks or panics, and when nothing can happen any more, exactly the miners that are reachable
  from the origin through peers have the block, and all channels are empty.\<close>

theorem blocks_reach_all:
  assumes "block_start H b origin c" "small_net (peers_of (net_pm c)) origin"
  shows "(\<nexists>cs. cs 0 = c \<and> (\<forall>i. net_step H (cs i) (cs (Suc i)))) \<and>
    (\<forall>c'. (net_step H)\<^sup>*\<^sup>* c c' \<longrightarrow> (\<forall>v. bc_inv (mgr_blockchain (net_mgr c' v))) \<and>
       (\<forall>v e r. net_pending c' v = [] \<and> (e = TakeFlooded \<or> e = TakeAdd) \<and> mgr_step H (net_mgr c' v) e r \<longrightarrow>
          (\<exists>m' outs. r = Running m' outs)) \<and>
       ((\<nexists>c''. net_step H c' c'') \<longrightarrow>
          {v. HasBlock (mgr_blockchain (net_mgr c' v)) (Hash b)} = reachable (peers_of (net_pm c)) origin \<and>
          net_msgs c' = {#} \<and> (\<forall>v. mgr_receiveFloodedBlock (net_mgr c' v) = [] \<and> mgr_addBlock (net_mgr c' v) = [])))"
proof (intro conjI allI impI)
  note start = block_start_inv [OF assms(1)] and net = assms(2)
  show "\<nexists>cs. cs 0 = c \<and> (\<forall>i. net_step H (cs i) (cs (Suc i)))" by (rule net_ends [OF start net])
  fix c' assume "(net_step H)\<^sup>*\<^sup>* c c'"
  from net_run_inv [OF this start net] have inv: "net_ok H b (peers_of (net_pm c)) c'"
    "gossip_inv (peers_of (net_pm c)) origin (gossip_of b c')" by auto
  show "bc_inv (mgr_blockchain (net_mgr c' v))" for v using net_okD(3) [OF inv(1), of v] by (simp add: node_ok_def)
  show "\<exists>m' outs. r = Running m' outs"
    if "net_pending c' v = [] \<and> (e = TakeFlooded \<or> e = TakeAdd) \<and> mgr_step H (net_mgr c' v) e r" for v e r
    using mgr_never_stuck [OF inv net] that by blast
  assume "\<nexists>c''. net_step H c' c''"
  note rest = net_progress [OF inv net this]
  show "net_msgs c' = {#}" "mgr_receiveFloodedBlock (net_mgr c' v) = []" "mgr_addBlock (net_mgr c' v) = []" for v
    using rest by auto
  have "knows (gossip_of b c') = reachable (peers_of (net_pm c)) origin"
    by (rule gossip_complete [OF inv(2)]) (simp_all add: gossip_of_sel rest)
  then show "{v. HasBlock (mgr_blockchain (net_mgr c' v)) (Hash b)} = reachable (peers_of (net_pm c)) origin"
    by (simp add: gossip_of_sel)
qed

lemma run_to_end:
  assumes "\<nexists>f. f 0 = c \<and> (\<forall>i. r (f i) (f (Suc i)))"
  shows "\<exists>c'. r\<^sup>*\<^sup>* c c' \<and> (\<nexists>c''. r c' c'')"
proof (rule ccontr)
  assume "\<not> ?thesis"
  then have "\<exists>f. \<forall>n. (r\<^sup>*\<^sup>* c (f n) \<and> (n = 0 \<longrightarrow> f n = c)) \<and> r (f n) (f (Suc n))"
    by (intro dependent_nat_choice) (auto intro: rtranclp.rtrancl_into_rtrancl)
  with assms show False by auto
qed

definition pair_net :: network where
  "pair_net = \<lparr>net_mgr = \<lambda>v. (NewChainManager tree1 sample_cfg)\<lparr>mgr_addBlock := (if v = ''A'' then [block2] else [])\<rparr>,
     net_pending = \<lambda>_. [], net_pm = net_of (\<lambda>_. sample_cfg) pair_events, net_msgs = {#}\<rparr>"

theorem blocks_reach_all_witness:
  "(\<nexists>cs. cs 0 = pair_net \<and> (\<forall>i. net_step sample_host (cs i) (cs (Suc i)))) \<and>
   (\<exists>c'. (net_step sample_host)\<^sup>*\<^sup>* pair_net c' \<and> (\<nexists>c''. net_step sample_host c' c'') \<and>
      HasBlock (mgr_blockchain (net_mgr c' ''A'')) ''2'' \<and> HasBlock (mgr_blockchain (net_mgr c' ''B'')) ''2'')"
proof -
  let ?pm = "net_of (\<lambda>_. sample_cfg) pair_events"
  have tree: "chain_view tree1 ''1'' = Some [block1, NewGenesisBlock 0 ''g'']"
    by (simp add: chain_view_def sample_map sample_chains del: One_nat_def)
  have fresh: "pm_blocksToPeers (?pm v) = []" for v
    by (simp add: net_of_def peers_after_def pair_events_def pm_handle_def pm_new_peer_def NewPeerManager_def Let_def)
  have start: "block_start sample_host block2 ''A'' pair_net"
    using sample_inv(2) sample_pow [of sample_host block2] sample_ok(2) tree net_of_inv fresh
    by (auto simp: block_start_def node_ok_def pair_net_def NewChainManager_def HasBlock_def sample_map)
  have R: "reachable (peers_of ?pm) ''A'' \<subseteq> {''A'', ''B''}"
    by (rule reachable_least) (auto simp: pair_peers)
  then have fin: "finite (reachable (peers_of ?pm) ''A'')" by (rule finite_subset) simp
  have "card {u \<in> reachable (peers_of ?pm) ''A''. v \<in> peers_of ?pm u} \<le> card {''A'', ''B''}" for v
    by (rule card_mono) (use R in auto)
  then have "card {u \<in> reachable (peers_of ?pm) ''A''. v \<in> peers_of ?pm u} < 100" for v
    by (rule le_less_trans) simp
  then have "small_net (peers_of (net_pm pair_net)) ''A''"
    using fin by (simp add: small_net_def pair_net_def)
  note all = blocks_reach_all [OF start this]
  have B: "''B'' \<in> reachable (peers_of (net_pm pair_net)) ''A''"
    using reachable_closed [of "''A''" "peers_of ?pm" "''A''"] by (simp add: pair_net_def pair_peers reachable_def)
  obtain c' where c': "(net_step sample_host)\<^sup>*\<^sup>* pair_net c'" "\<nexists>c''. net_step sample_host c' c''"
    using run_to_end [of pair_net "net_step sample_host"] all by blast
  then have "{v. HasBlock (mgr_blockchain (net_mgr c' v)) (Hash block2)} = reachable (peers_of (net_pm pair_net)) ''A''"
    using all by blast
  moreover have "''A'' \<in> reachable (peers_of (net_pm pair_net)) ''A''" by (simp add: reachable_def)
  ultimately have "HasBlock (mgr_blockchain (net_mgr c' ''A'')) ''2''" "HasBlock (mgr_blockchain (net_mgr c' ''B'')) ''2''"
    using B by auto
  with c' all show ?thesis by blast
qed

end
