(* ===== verification/P2p_Blocking.thy ===== *)
theory P2p_Blocking
  imports P2p_Flooding
begin

text \<open>
  How the goroutines of a miner wait for each other: the downloads that \<^verbatim>\<open>managePeers\<close>
  performs for the chain manager, and \<^verbatim>\<open>managePeers\<close> together with the goroutine of a peer
  (\<^verbatim>\<open>p2p/p2p_rpc.go\<close>, \<^verbatim>\<open>p2p/blockchain_manager.go\<close>,
  \<^verbatim>\<open>p2p/peer.go\<close>). Unbuffered channels are rendezvous steps.
\<close>

section \<open>Downloads for the chain manager\<close>

fun forwarded :: "pm_output list \<Rightarrow> Block list list" where
  "forwarded [] = []"
| "forwarded (ForwardDownloaded bs # outs) = bs # forwarded outs"
| "forwarded (out # outs) = forwarded outs"

lemma download_loop_filter:
  "download_loop peers h answers i miners =
   download_loop peers h answers i (filter (\<lambda>minerID. map_of peers minerID \<noteq> None) miners)"
  by (induction miners arbitrary: i) (auto split: option.split)

text \<open>C36: The download loop has no \<^verbatim>\<open>break\<close>: it goes on after a successful answer. When
  two miners that sent the block answer, both answers go to the chain manager, which on the second one
  indexes its empty replay queue for the log message and panics.\<close>

theorem two_downloads_panic:
  assumes "map_of (pm_blocksToPeers st) (Hash block) = Some miners"
    and "filter (\<lambda>minerID. map_of (pm_peers st) minerID \<noteq> None) miners = miner1 # miner2 # others"
    and "answers 0 = Inr bs1" "answers 1 = Inr bs2" and "mgr_replayQueue m \<noteq> []"
    and "length (mgr_receiveFloodedBlock m) + length bs1 + length (mgr_replayQueue m) \<le> 1000"
  shows "\<exists>rest m'. forwarded (snd (pm_download st answers block)) = bs1 # bs2 # rest \<and>
    mgr_step H m (Downloaded bs1) (Running m' []) \<and>
    (\<forall>r. mgr_step H m' (Downloaded bs2) r \<longleftrightarrow> r = IndexOutOfRange)"
proof -
  have "miner1 \<in> set (miner1 # miner2 # others)" "miner2 \<in> set (miner1 # miner2 # others)" by simp_all
  then obtain p1 p2 where "map_of (pm_peers st) miner1 = Some p1" "map_of (pm_peers st) miner2 = Some p2"
    unfolding assms(2) [symmetric] by auto
  then obtain rest where "forwarded (snd (pm_download st answers block)) = bs1 # bs2 # rest"
    using assms(1-4) download_loop_filter [of "pm_peers st" "PreviousHash block" answers 0 miners]
    by (simp add: pm_download_def)
  moreover obtain m' where "mgr_downloaded m bs1 = Running m' []" "mgr_replayQueue m' = []"
    using assms(5,6) by (simp add: mgr_downloaded_def Let_def)
  ultimately show ?thesis
    by (intro exI [of _ rest] exI [of _ m']) (simp add: mgr_step_Downloaded mgr_downloaded_def)
qed

theorem two_downloads_panic_witness:
  "\<exists>m'. mgr_step sample_host (NewChainManager tree0 sample_cfg\<lparr>mgr_replayQueue := [block3]\<rparr>) (Downloaded [block2]) (Running m' []) \<and>
     mgr_step sample_host m' (Downloaded [block2, block1]) IndexOutOfRange"
proof -
  let ?st = "\<lparr>pm_config = sample_cfg, pm_peers = [(''B'', sample_peer ''B''), (''C'', sample_peer ''C'')],
    pm_blocksToPeers = [(''3'', [''B'', ''C''])]\<rparr>"
  let ?answers = "\<lambda>i :: nat. Inr (if i = 0 then [block2] else [block2, block1])"
  have "Hash block3 = ''3''" by (simp add: block3_def sample_block_def)
  then show ?thesis
    using two_downloads_panic [of ?st block3 "[''B'', ''C'']" "''B''" "''C''" "[]" ?answers "[block2]" "[block2, block1]"
        "NewChainManager tree0 sample_cfg\<lparr>mgr_replayQueue := [block3]\<rparr>" sample_host]
    by (auto simp: NewChainManager_def)
qed

text \<open>Runs of the manager in which no downloaded blocks arrive.\<close>

inductive quiet_run :: "host \<Rightarrow> ChainManager \<Rightarrow> mgr_output list \<Rightarrow> ChainManager \<Rightarrow> bool" for H m where
  quiet_start: "quiet_run H m [] m"
| quiet_step: "quiet_run H m outs m1 \<Longrightarrow> mgr_step H m1 e (Running m2 outs') \<Longrightarrow> (\<And>bs. e \<noteq> Downloaded bs) \<Longrightarrow>
    quiet_run H m (outs @ outs') m2"

lemma mgr_step_keeps_queue:
  assumes "mgr_step H m e (Running m' outs)" "\<And>bs. e \<noteq> Downloaded bs" "mgr_replayQueue m \<noteq> []"
  shows "mgr_replayQueue m' \<noteq> [] \<and> (\<forall>b. DownloadBlock b \<notin> set outs)"
  using assms(1)
proof (cases rule: mgr_step.cases)
  case (step_flooded b bs)
  then have "mgr_flooded (m\<lparr>mgr_receiveFloodedBlock := bs\<rparr>) b = Running m' outs" by simp
  then show ?thesis using assms(3) by (auto simp: mgr_flooded_def Let_def split: if_splits)
next
  case (step_add b bs it1 it2)
  then obtain r where "AddBlock H it1 it2 (mgr_blockchain m) b = Some r"
    by (auto simp: mgr_add_def bind_eq_Some_conv)
  then show ?thesis
    using step_add(5) assms(3) by (cases r) (auto simp: mgr_add_def bind_eq_Some_conv)
next
  case (step_downloaded bs)
  with assms(2) show ?thesis by blast
next
  case (step_sync it bs)
  then obtain r where "UnmarshallBlockchain it bs = Some r"
    by (auto simp: mgr_sync_def bind_eq_Some_conv)
  then show ?thesis
    using step_sync(3) assms(3) by (cases r) (auto simp: mgr_sync_def)
qed (use assms(3) in auto)

lemma quiet_run_waits:
  assumes "quiet_run H m outs m'" "mgr_replayQueue m \<noteq> []"
  shows "mgr_replayQueue m' \<noteq> [] \<and> (\<forall>b. DownloadBlock b \<notin> set outs)"
  using assms
proof (induction rule: quiet_run.induct)
  case (quiet_step outs m1 e m2 outs')
  then show ?case using mgr_step_keeps_queue [of H m1 e m2 outs'] by auto
qed auto

text \<open>A download that fails is never repeated. When every miner that sent the block answers with
  an error, \<^verbatim>\<open>managePeers\<close> forwards nothing; and while no downloaded blocks arrive, a manager with a
  block in its replay queue never asks for another download, whatever blocks peers flood: it only
  queues them.\<close>

theorem failed_download_not_repeated:
  assumes "\<And>i. \<exists>err. answers i = Inl err" and "mgr_replayQueue m \<noteq> []" and "quiet_run H m outs m'"
  shows "forwarded (snd (pm_download st answers block)) = [] \<and>
    mgr_replayQueue m' \<noteq> [] \<and> (\<forall>b. DownloadBlock b \<notin> set outs)"
proof -
  have "forwarded (download_loop peers h answers i miners) = []" for peers h i miners
  proof (induction miners arbitrary: i)
    case (Cons miner miners)
    then show ?case using assms(1) [of i] by (auto split: option.split)
  qed simp
  then have "forwarded (snd (pm_download st answers block)) = []"
    by (simp add: pm_download_def split: option.split)
  then show ?thesis using quiet_run_waits [OF assms(3,2)] by blast
qed

theorem failed_download_not_repeated_witness:
  "\<exists>m'. quiet_run sample_host (NewChainManager tree0 sample_cfg\<lparr>mgr_replayQueue := [block3], mgr_receiveFloodedBlock := [block4]\<rparr>) [] m' \<and>
     mgr_replayQueue m' \<noteq> []"
proof -
  let ?m = "NewChainManager tree0 sample_cfg\<lparr>mgr_replayQueue := [block3], mgr_receiveFloodedBlock := [block4]\<rparr>"
  let ?m1 = "?m\<lparr>mgr_receiveFloodedBlock := [block4, block4]\<rparr>"
  have "mgr_step sample_host ?m (PeerBlock block4) (Running ?m1 [])"
    using step_peer [of ?m sample_host block4] by (simp add: NewChainManager_def)
  from quiet_step [OF quiet_start this] have "quiet_run sample_host ?m [] ?m1" by simp
  then show ?thesis
    using failed_download_not_repeated [of "\<lambda>_. Inl []" ?m sample_host "[]" ?m1] by auto
qed

section \<open>managePeers and the goroutine of a peer\<close>

text \<open>
  \<^verbatim>\<open>managePeers\<close> is at its \<^verbatim>\<open>select\<close> or has to send the rest of the outputs
  of a case. The goroutine of peer \<open>p\<close> is at its \<^verbatim>\<open>select\<close>, in a call, about to send an error
  to \<^verbatim>\<open>managePeers\<close>, or has returned. The flag says whether \<^verbatim>\<open>p.done\<close> is closed.
  Receivers other than \<open>p\<close> are always ready.
\<close>

datatype pm_pc = Selecting | Sending "pm_output list"

datatype peer_pc = PeerSelecting | InCall peer_call | SendingErr PeerError | PeerReturned

type_synonym link = "PeerManager \<times> pm_pc \<times> peer_pc \<times> bool"

fun to_peer :: "Peer \<Rightarrow> pm_output \<Rightarrow> peer_call option" where
  "to_peer p (SendBlockTo q req) = (if q = p then Some (CallFloodBlock req) else None)"
| "to_peer p (SendOpTo q req) = (if q = p then Some (CallFloodOperation req) else None)"
| "to_peer p (RequestBlocks q h) = (if q = p then Some (CallGetBlocks h) else None)"
| "to_peer p out = None"

inductive link_step :: "Peer \<Rightarrow> link \<Rightarrow> link \<Rightarrow> bool" for p where
  link_select: "is_iter it1 \<Longrightarrow> is_iter it2 \<Longrightarrow> is_iter it3 \<Longrightarrow> pm_handle it1 it2 it3 st e = (st', outs) \<Longrightarrow>
    (\<And>err. e = PeerFailed err \<Longrightarrow> err_minerID err \<noteq> peer_MinerID p) \<Longrightarrow>
    link_step p (st, Selecting, pc, closed) (st', Sending outs, pc, closed)"
| link_error: "pm_handle (\<lambda>m. m) (\<lambda>m. m) (\<lambda>m. m) st (PeerFailed err) = (st', outs) \<Longrightarrow>
    link_step p (st, Selecting, SendingErr err, closed) (st', Sending outs, PeerSelecting, closed)"
| link_done: "link_step p (st, Sending [], pc, closed) (st, Selecting, pc, closed)"
| link_send: "to_peer p out = Some c \<Longrightarrow>
    link_step p (st, Sending (out # outs), PeerSelecting, closed) (st, Sending outs, InCall c, closed)"
| link_other: "to_peer p out = None \<Longrightarrow>
    link_step p (st, Sending (out # outs), pc, closed) (st, Sending outs, pc, closed \<or> out = CloseDone p)"
| link_return: "peer_returns p lastConnected now c reply = (lastConnected', outs') \<Longrightarrow> (\<And>err. Errs err \<notin> set outs') \<Longrightarrow>
    link_step p (st, mpc, InCall c, closed) (st, mpc, PeerSelecting, closed)"
| link_fail: "peer_returns p lastConnected now c reply = (lastConnected', [Errs err]) \<Longrightarrow>
    link_step p (st, mpc, InCall c, closed) (st, mpc, SendingErr err, closed)"
| link_tick: "peer_calls lastConnected now PeerTick = Some c \<Longrightarrow>
    link_step p (st, mpc, PeerSelecting, closed) (st, mpc, InCall c, closed)"
| link_stop: "link_step p (st, mpc, PeerSelecting, True) (st, mpc, PeerReturned, True)"

inductive_cases link_stuckE: "link_step p (st, Sending (out # outs), SendingErr err, closed) c"

lemma link_stuck:
  assumes "to_peer p out = Some c" shows "\<not> link_step p (st, Sending (out # outs), SendingErr err, closed) l"
  using assms by (auto elim!: link_stuckE)

text \<open>The outputs before the first one for the peer go to other receivers.\<close>

lemma link_skip:
  assumes "\<And>out. out \<in> set pre \<Longrightarrow> to_peer p out = None" "\<And>out. out \<in> set pre \<Longrightarrow> out \<noteq> CloseDone p"
  shows "(link_step p)\<^sup>*\<^sup>* (st, Sending (pre @ outs), pc, closed) (st, Sending outs, pc, closed)"
  using assms
proof (induction pre)
  case (Cons out pre)
  have "link_step p (st, Sending (out # pre @ outs), pc, closed) (st, Sending (pre @ outs), pc, closed)"
    using link_other [of p out st "pre @ outs" pc closed] Cons.prems by simp
  then show ?case using Cons by (simp add: converse_rtranclp_into_rtranclp)
qed simp

text \<open>Flooding an operation to all peers goes through the peer exactly once.\<close>

lemma flood_splits:
  assumes "peers_inv st" "(peer_MinerID p, p) \<in> set (pm_peers st)"
  obtains pre req post where
    "pm_handle (\<lambda>m. m) (\<lambda>m. m) (\<lambda>m. m) st (FloodOp \<lparr>flood_Operation = oper, IgnoreMiners = []\<rparr>) =
       (st, pre @ SendOpTo p req # post)"
    "\<And>out. out \<in> set pre \<union> set post \<Longrightarrow> to_peer p out = None \<and> out \<noteq> CloseDone p"
proof -
  let ?req = "\<lparr>flood_Operation = oper, IgnoreMiners = []\<rparr>"
  obtain ign where outs: "snd (pm_flood_operation (\<lambda>m. m) (\<lambda>m. m) (\<lambda>m. m) st ?req) =
      map (\<lambda>q. SendOpTo q \<lparr>flood_Operation = oper, IgnoreMiners = ign\<rparr>) (map snd (pm_peers st))"
    using pm_flood_operation_outputs [OF is_iter_id is_iter_id is_iter_id, of ?req st] by auto
  obtain pre post where split: "pm_peers st = pre @ (peer_MinerID p, p) # post"
    using assms(2) by (meson split_list)
  have "peer_MinerID p \<notin> fst ` (set pre \<union> set post)"
    using assms(1) unfolding peers_inv_def split by (simp add: image_Un)
  then have "fst e \<noteq> peer_MinerID p" if "e \<in> set pre \<union> set post" for e
    using that by (metis imageI)
  moreover have "peer_MinerID (snd e) = fst e" if "e \<in> set pre \<union> set post" for e
    using that by (intro peers_inv_own [OF assms(1)]) (auto simp: split)
  ultimately have ne: "snd e \<noteq> p" if "e \<in> set pre \<union> set post" for e
    using that by metis
  let ?send = "\<lambda>q. SendOpTo q \<lparr>flood_Operation = oper, IgnoreMiners = ign\<rparr>"
  have h: "pm_handle (\<lambda>m. m) (\<lambda>m. m) (\<lambda>m. m) st (FloodOp ?req) =
      (st, map ?send (map snd pre) @ ?send p # map ?send (map snd post))"
    using outs split by (simp add: pm_handle_def pm_flood_operation_def Let_def)
  show ?thesis
  proof (rule that [OF h])
    fix out assume "out \<in> set (map ?send (map snd pre)) \<union> set (map ?send (map snd post))"
    then obtain e where "e \<in> set pre \<union> set post" "out = ?send (snd e)" by auto
    then show "to_peer p out = None \<and> out \<noteq> CloseDone p" using ne [of e] by auto
  qed
qed

lemma link_flood:
  assumes "peers_inv st" "(peer_MinerID p, p) \<in> set (pm_peers st)"
  obtains outs req where
    "(link_step p)\<^sup>*\<^sup>* (st, Selecting, pc, closed) (st, Sending (SendOpTo p req # outs), pc, closed)"
    "\<And>out. out \<in> set outs \<Longrightarrow> to_peer p out = None \<and> out \<noteq> CloseDone p"
proof -
  obtain pre req post where h: "pm_handle (\<lambda>m. m) (\<lambda>m. m) (\<lambda>m. m) st
        (FloodOp \<lparr>flood_Operation = sample_op Create [] [] [], IgnoreMiners = []\<rparr>) = (st, pre @ SendOpTo p req # post)"
      and free: "\<And>out. out \<in> set pre \<union> set post \<Longrightarrow> to_peer p out = None \<and> out \<noteq> CloseDone p"
    using flood_splits [OF assms] by metis
  have "link_step p (st, Selecting, pc, closed) (st, Sending (pre @ SendOpTo p req # post), pc, closed)"
    using link_select [OF is_iter_id is_iter_id is_iter_id h, of p pc closed] by simp
  also have "(link_step p)\<^sup>*\<^sup>* \<dots> (st, Sending (SendOpTo p req # post), pc, closed)"
    by (rule link_skip) (use free in auto)
  finally show ?thesis using that free by blast
qed

text \<open>C35: A peer that fails while operations are flooded can stop the miner. The goroutine of a peer
  reports an error to \<^verbatim>\<open>managePeers\<close> on an unbuffered channel; when
  \<^verbatim>\<open>managePeers\<close> is just sending it the next operation, each waits for the other. From every
  state in which both are at their \<^verbatim>\<open>select\<close> a run leads to such a state, in which neither
  can do a step any more.\<close>

theorem failing_peer_deadlocks:
  assumes "peers_inv st" "(peer_MinerID p, p) \<in> set (pm_peers st)"
  shows "\<exists>req outs err. (link_step p)\<^sup>*\<^sup>* (st, Selecting, PeerSelecting, False)
      (st, Sending (SendOpTo p req # outs), SendingErr err, False) \<and>
    (\<forall>l. \<not> link_step p (st, Sending (SendOpTo p req # outs), SendingErr err, False) l)"
proof -
  obtain outs1 req1 where
      1: "(link_step p)\<^sup>*\<^sup>* (st, Selecting, PeerSelecting, False) (st, Sending (SendOpTo p req1 # outs1), PeerSelecting, False)"
    and free: "\<And>out. out \<in> set outs1 \<Longrightarrow> to_peer p out = None \<and> out \<noteq> CloseDone p"
    using link_flood [OF assms] by metis
  let ?call = "InCall (CallFloodOperation req1)" and ?err = "\<lparr>err_minerID = peer_MinerID p, err_err = []\<rparr>"
  obtain outs2 req2 where
      2: "(link_step p)\<^sup>*\<^sup>* (st, Selecting, ?call, False) (st, Sending (SendOpTo p req2 # outs2), ?call, False)"
    using link_flood [OF assms] by metis
  note 1
  also have "link_step p (st, Sending (SendOpTo p req1 # outs1), PeerSelecting, False) (st, Sending outs1, ?call, False)"
    by (rule link_send) simp
  also have "(link_step p)\<^sup>*\<^sup>* (st, Sending outs1, ?call, False) (st, Sending [], ?call, False)"
    using link_skip [of outs1 p st "[]" ?call False] free by simp
  also have "link_step p (st, Sending [], ?call, False) (st, Selecting, ?call, False)" by (rule link_done)
  also note 2
  also have "link_step p (st, Sending (SendOpTo p req2 # outs2), ?call, False)
      (st, Sending (SendOpTo p req2 # outs2), SendingErr ?err, False)"
    by (rule link_fail [where reply = "Inl []" and lastConnected = 0 and lastConnected' = 0 and now = 0])
      (simp add: peer_returns_def)
  finally have "(link_step p)\<^sup>*\<^sup>* (st, Selecting, PeerSelecting, False)
      (st, Sending (SendOpTo p req2 # outs2), SendingErr ?err, False)" .
  moreover have "\<not> link_step p (st, Sending (SendOpTo p req2 # outs2), SendingErr ?err, False) l" for l
    by (rule link_stuck) simp
  ultimately show ?thesis by blast
qed

theorem failing_peer_deadlocks_witness:
  "\<exists>req outs err. (link_step (sample_peer ''B''))\<^sup>*\<^sup>*
      (peers_after sample_cfg [NewPeer (sample_peer ''B'')], Selecting, PeerSelecting, False)
      (peers_after sample_cfg [NewPeer (sample_peer ''B'')], Sending (SendOpTo (sample_peer ''B'') req # outs), SendingErr err, False)"
proof -
  let ?st = "peers_after sample_cfg [NewPeer (sample_peer ''B'')]"
  have peers: "pm_peers ?st = [(''B'', sample_peer ''B'')]"
    by (simp add: peers_after_def pm_handle_peers NewPeerManager_def sample_peer_def)
  then have "peers_inv ?st" "(peer_MinerID (sample_peer ''B''), sample_peer ''B'') \<in> set (pm_peers ?st)"
    by (simp_all add: peers_inv_def sample_peer_def)
  from failing_peer_deadlocks [OF this] show ?thesis by blast
qed

end
