(* ===== verification/P2p_Catchup.thy ===== *)
theory P2p_Catchup
  imports P2p_Blocking Bclib_View
begin

text \<open>
  A miner that is behind: it receives a block whose predecessor it does not know, downloads the
  blocks before it from the peer that sent it, and replays them through its two channels
  (\<^verbatim>\<open>p2p/blockchain_manager.go\<close>, \<^verbatim>\<open>managePeers\<close> and
  \<^verbatim>\<open>GetBlocks\<close> of \<^verbatim>\<open>p2p/p2p_rpc.go\<close>).
\<close>

section \<open>Replaying\<close>

text \<open>
  The manager replays \<open>work\<close>, which holds the blocks \<open>cs\<close> it does not know and blocks it
  knows, at most one of them twice. The first \<open>k\<close> blocks of \<open>cs\<close> are in the tree; the others
  wait in the two channels. Only a block that can be added now, or that has been added already, is in
  \<^verbatim>\<open>addBlock\<close>.
\<close>

definition replay_task :: "host \<Rightarrow> Settings \<Rightarrow> Block list \<Rightarrow> Block list \<Rightarrow> Block list \<Rightarrow> bool" where
  "replay_task H cfg base cs work \<longleftrightarrow>
     addable H cfg base cs \<and> distinct (map Hash cs) \<and> length work < 1000 \<and>
     size (mset work - mset_set (set work)) \<le> 1"

definition replaying :: "host \<Rightarrow> Settings \<Rightarrow> Block list \<Rightarrow> Block list \<Rightarrow> Block list \<Rightarrow> nat \<Rightarrow> ChainManager \<Rightarrow> bool" where
  "replaying H cfg base cs work k m \<longleftrightarrow>
     k \<le> length cs \<and> bc_inv (mgr_blockchain m) \<and> bc_config (mgr_blockchain m) = cfg \<and>
     chain_view (mgr_blockchain m) (Hash (hd (rev (take k cs) @ base))) = Some (rev (take k cs) @ base) \<and>
     (\<forall>i < length cs. HasBlock (mgr_blockchain m) (Hash (cs ! i)) \<longleftrightarrow> i < k) \<and>
     (\<forall>x \<in> set work. x \<in> set cs \<or> HasBlock (mgr_blockchain m) (Hash x)) \<and>
     mset (mgr_addBlock m) + mset (mgr_receiveFloodedBlock m) + mset (take k cs) \<subseteq># mset work \<and>
     set (drop k cs) \<subseteq> set (mgr_receiveFloodedBlock m) \<union> set (mgr_addBlock m) \<and>
     set (mgr_addBlock m) \<subseteq> set (take (Suc k) cs) \<and>
     (\<forall>c \<in> set cs. map_of (mgr_replayMap m) (Hash c) \<noteq> None)"

lemma task_distinct: "replay_task H cfg base cs work \<Longrightarrow> distinct cs"
  by (simp add: replay_task_def distinct_map)

lemma task_Hash:
  assumes "replay_task H cfg base cs work" "i < length cs" "j < length cs"
  shows "Hash (cs ! i) = Hash (cs ! j) \<longleftrightarrow> i = j"
  using assms nth_eq_iff_index_eq [of "map Hash cs" i j] by (simp add: replay_task_def)

text \<open>The channel \<^verbatim>\<open>addBlock\<close> never fills up.\<close>

lemma replaying_addBlock:
  assumes task: "replay_task H cfg base cs work" and rep: "replaying H cfg base cs work k m"
  shows "length (mgr_addBlock m) \<le> 3"
proof -
  let ?A = "mset (mgr_addBlock m)" and ?dup = "mset work - mset_set (set work)"
  define old where "old = set (take k cs)"
  have dup: "size ?dup \<le> 1" using task by (simp add: replay_task_def)
  have sub: "count ?A x + count (mset (take k cs)) x \<le> count (mset work) x" for x
  proof -
    have "?A + mset (take k cs) \<subseteq># mset work"
      using rep by (auto simp: replaying_def intro: subset_mset.order_trans [rotated])
    then show ?thesis by (metis count_union mset_subset_eq_count)
  qed
  have cnt: "count ?dup x = count (mset work) x - (if x \<in> set work then 1 else 0)" for x
    by simp
  have "filter_mset (\<lambda>x. x \<in> old) ?A \<subseteq># ?dup"
  proof (rule mset_subset_eqI)
    fix x
    show "count (filter_mset (\<lambda>x. x \<in> old) ?A) x \<le> count ?dup x"
    proof (cases "x \<in> old")
      case True
      then have "0 < count (mset (take k cs)) x" using count_greater_zero_iff by (force simp: old_def)
      moreover have "count (filter_mset (\<lambda>x. x \<in> old) ?A) x \<le> count ?A x" by simp
      ultimately show ?thesis using sub [of x] cnt [of x] by (simp only: split: if_splits) linarith+
    qed simp
  qed
  then have 1: "size (filter_mset (\<lambda>x. x \<in> old) ?A) \<le> 1"
    using size_mset_mono dup by (metis order_trans)
  have "x = cs ! k" if "x \<in># ?A" "x \<notin> old" for x
    using that rep by (cases "k < length cs") (auto simp: replaying_def old_def take_Suc_conv_app_nth)
  then have "filter_mset (\<lambda>x. x \<notin> old) ?A \<subseteq># replicate_mset (count ?A (cs ! k)) (cs ! k)"
    by (intro mset_subset_eqI) (auto simp: count_replicate_mset not_in_iff)
  then have "size (filter_mset (\<lambda>x. x \<notin> old) ?A) \<le> count ?A (cs ! k)"
    using size_mset_mono by fastforce
  also have "\<dots> \<le> count (mset work) (cs ! k)" using sub [of "cs ! k"] by simp
  also have "\<dots> \<le> 1 + count ?dup (cs ! k)" unfolding cnt by simp
  also have "\<dots> \<le> 2" using dup count_le_size [of ?dup "cs ! k"] by linarith
  finally have "size (filter_mset (\<lambda>x. x \<notin> old) ?A) \<le> 2" .
  moreover have "size ?A = size (filter_mset (\<lambda>x. x \<in> old) ?A) + size (filter_mset (\<lambda>x. x \<notin> old) ?A)"
    by (metis multiset_partition size_union)
  ultimately show ?thesis using 1 by simp
qed

text \<open>A block that is taken from the flooded ones is known, can be added now, or has to wait.\<close>

lemma replaying_flooded:
  assumes task: "replay_task H cfg base cs work" and rep: "replaying H cfg base cs work k m"
    and m: "mgr_receiveFloodedBlock m = x # rest"
  obtains "HasBlock (mgr_blockchain m) (Hash x)" "mgr_flooded (m\<lparr>mgr_receiveFloodedBlock := rest\<rparr>) x =
      Running (m\<lparr>mgr_receiveFloodedBlock := rest\<rparr>) []"
  | "k < length cs" "x = cs ! k" "mgr_flooded (m\<lparr>mgr_receiveFloodedBlock := rest\<rparr>) x =
      Running (m\<lparr>mgr_receiveFloodedBlock := rest, mgr_addBlock := mgr_addBlock m @ [x]\<rparr>) []"
  | i where "k < i" "i < length cs" "x = cs ! i" "mgr_flooded (m\<lparr>mgr_receiveFloodedBlock := rest\<rparr>) x =
      Running (m\<lparr>mgr_receiveFloodedBlock := rest @ [x],
        mgr_replayMap := AList.update (Hash x) () (mgr_replayMap m)\<rparr>) []"
proof (cases "HasBlock (mgr_blockchain m) (Hash x)")
  case True
  then show ?thesis using that(1) by (simp add: mgr_flooded_def)
next
  case False
  have add: "addable H cfg base cs" using task by (simp add: replay_task_def)
  have "x \<in># mset work"
    using rep m by (auto simp: replaying_def dest!: mset_subset_eqD [of _ _ x])
  then have "x \<in> set cs" using rep False by (auto simp: replaying_def)
  then obtain i where i: "i < length cs" "x = cs ! i" by (metis in_set_conv_nth)
  with rep False have "k \<le> i" by (auto simp: replaying_def)
  show ?thesis
  proof (cases "i = k")
    case True
    then have "HasBlock (mgr_blockchain m) (PreviousHash x)"
      using rep i addable_nth(2) [OF add, of k] chain_view_None [of "mgr_blockchain m" "PreviousHash x"]
      by (auto simp: replaying_def HasBlock_def)
    moreover have "length (mgr_addBlock m) < 100" using replaying_addBlock [OF task rep] by simp
    ultimately have "mgr_flooded (m\<lparr>mgr_receiveFloodedBlock := rest\<rparr>) x =
        Running (m\<lparr>mgr_receiveFloodedBlock := rest, mgr_addBlock := mgr_addBlock m @ [x]\<rparr>) []"
      using False by (simp add: mgr_flooded_def)
    then show ?thesis using that(2) True i by blast
  next
    case neq: False
    then have "k < i" using \<open>k \<le> i\<close> by simp
    then have prev: "PreviousHash x = Hash (cs ! (i - 1))" using addable_prev [OF add _ i(1)] i by simp
    then have "\<not> HasBlock (mgr_blockchain m) (PreviousHash x)" "map_of (mgr_replayMap m) (PreviousHash x) \<noteq> None"
      using rep \<open>k < i\<close> i by (auto simp: replaying_def)
    moreover have "length rest < 1000"
    proof -
      have "size (mset (mgr_receiveFloodedBlock m)) \<le> size (mset work)"
        using rep by (intro size_mset_mono) (auto simp: replaying_def intro: subset_mset.order_trans [rotated])
      then show ?thesis using m task by (simp add: replay_task_def)
    qed
    ultimately have "mgr_flooded (m\<lparr>mgr_receiveFloodedBlock := rest\<rparr>) x =
        Running (m\<lparr>mgr_receiveFloodedBlock := rest @ [x], mgr_replayMap := AList.update (Hash x) () (mgr_replayMap m)\<rparr>) []"
      using False by (simp add: mgr_flooded_def)
    then show ?thesis using that(3) \<open>k < i\<close> i by blast
  qed
qed

lemma replaying_TakeFlooded:
  assumes task: "replay_task H cfg base cs work" and rep: "replaying H cfg base cs work k m"
    and step: "mgr_step H m TakeFlooded r"
  shows "\<exists>m'. r = Running m' [] \<and> replaying H cfg base cs work k m'"
proof -
  obtain x rest where m: "mgr_receiveFloodedBlock m = x # rest"
      and r: "r = mgr_flooded (m\<lparr>mgr_receiveFloodedBlock := rest\<rparr>) x"
    using step by (auto simp: mgr_step_TakeFlooded)
  have sub: "add_mset x (mset (mgr_addBlock m) + mset rest + mset (take k cs)) \<subseteq># mset work"
    using rep m by (simp add: replaying_def)
  then have sub': "mset (mgr_addBlock m) + mset rest + mset (take k cs) \<subseteq># mset work"
    by (rule subset_mset.order_trans [rotated]) simp
  show ?thesis
  proof (rule replaying_flooded [OF task rep m])
    assume has: "HasBlock (mgr_blockchain m) (Hash x)"
      and fl: "mgr_flooded (m\<lparr>mgr_receiveFloodedBlock := rest\<rparr>) x = Running (m\<lparr>mgr_receiveFloodedBlock := rest\<rparr>) []"
    have "x \<notin> set (drop k cs)"
    proof
      assume "x \<in> set (drop k cs)"
      then obtain i where "k \<le> i" "i < length cs" "x = cs ! i"
        by (auto simp: in_set_conv_nth) (metis add.commute le_add1 less_diff_conv nth_drop)
      then show False using rep has by (auto simp: replaying_def)
    qed
    then have "set (drop k cs) \<subseteq> set rest \<union> set (mgr_addBlock m)"
      using rep m by (auto simp: replaying_def)
    then show ?thesis using fl r rep sub' by (auto simp: replaying_def)
  next
    assume k: "k < length cs" "x = cs ! k"
      and fl: "mgr_flooded (m\<lparr>mgr_receiveFloodedBlock := rest\<rparr>) x =
        Running (m\<lparr>mgr_receiveFloodedBlock := rest, mgr_addBlock := mgr_addBlock m @ [x]\<rparr>) []"
    have "x \<in> set (take (Suc k) cs)" using k by (simp add: take_Suc_conv_app_nth)
    then have "set (mgr_addBlock m @ [x]) \<subseteq> set (take (Suc k) cs)"
      using rep by (auto simp: replaying_def)
    then show ?thesis using fl r rep m sub by (auto simp: replaying_def)
  next
    fix i
    assume "mgr_flooded (m\<lparr>mgr_receiveFloodedBlock := rest\<rparr>) x =
      Running (m\<lparr>mgr_receiveFloodedBlock := rest @ [x], mgr_replayMap := AList.update (Hash x) () (mgr_replayMap m)\<rparr>) []"
    then show ?thesis using r rep m sub by (auto simp: replaying_def update_conv')
  qed
qed

text \<open>The next block is added; then one more is in the tree.\<close>

lemma replaying_next:
  assumes task: "replay_task H cfg base cs work" and rep: "replaying H cfg base cs work k m" and k: "k < length cs"
    and it: "is_iter it1" "is_iter it2" and m: "mgr_addBlock m = cs ! k # rest"
  shows "\<exists>bc. mgr_add H it1 it2 (m\<lparr>mgr_addBlock := rest\<rparr>) (cs ! k) =
      Some (Running (m\<lparr>mgr_addBlock := rest, mgr_blockchain := bc\<rparr>) [NewBlockAdded, SendBlock (cs ! k), ContinueMining]) \<and>
    replaying H cfg base cs work (Suc k) (m\<lparr>mgr_addBlock := rest, mgr_blockchain := bc\<rparr>)"
proof -
  let ?bc = "mgr_blockchain m" and ?c = "cs ! k" and ?chain = "rev (take k cs) @ base"
  have inv: "bc_inv ?bc" and cfg: "bc_config ?bc = cfg" using rep by (simp_all add: replaying_def)
  note next' = addable_nth [OF task [unfolded replay_task_def, THEN conjunct1] k]
  have view: "chain_view ?bc (PreviousHash ?c) = Some ?chain" using rep next'(2) by (simp add: replaying_def)
  then obtain p where p: "map_of (bc_m ?bc) (PreviousHash ?c) = Some p" "chain_blocks (bc_heap ?bc) (Some p) = Some ?chain"
    by (auto simp: chain_view_def split: option.splits)
  have new: "\<not> HasBlock ?bc (Hash ?c)" using rep k by (simp add: replaying_def)
  let ?bc' = "queried (link_block ?bc ?c p)"
  have inv': "bc_inv (link_block ?bc ?c p)" using bc_inv_link_block [OF inv _ p(1)] new by (simp add: HasBlock_def)
  then obtain lns where "getLastNodes (link_block ?bc ?c p) = Some (?bc', lns)" using getLastNodes_tip by metis
  then have run: "mgr_add H it1 it2 (m\<lparr>mgr_addBlock := rest\<rparr>) ?c =
      Some (Running (m\<lparr>mgr_addBlock := rest, mgr_blockchain := ?bc'\<rparr>) [NewBlockAdded, SendBlock ?c, ContinueMining])"
    using next'(3,4) p new cfg AddBlock_eq [OF inv it, of H ?c] by (simp add: mgr_add_def GetLastHash_def)
  have has: "HasBlock ?bc' h \<longleftrightarrow> h = Hash ?c \<or> HasBlock ?bc h" for h
    by (auto simp: HasBlock_def)
  have "replaying H cfg base cs work (Suc k) (m\<lparr>mgr_addBlock := rest, mgr_blockchain := ?bc'\<rparr>)"
    unfolding replaying_def
  proof (intro conjI)
    let ?m = "m\<lparr>mgr_addBlock := rest, mgr_blockchain := ?bc'\<rparr>"
    show "Suc k \<le> length cs" using k by simp
    show "bc_inv (mgr_blockchain ?m)" using bc_inv_lastNode [OF inv' tip_live [OF inv']] by simp
    show "bc_config (mgr_blockchain ?m) = cfg" using cfg by simp
    show "chain_view (mgr_blockchain ?m) (Hash (hd (rev (take (Suc k) cs) @ base))) = Some (rev (take (Suc k) cs) @ base)"
      using chain_view_link_block [OF inv p] k by (simp add: take_Suc_conv_app_nth)
    show "\<forall>i < length cs. HasBlock (mgr_blockchain ?m) (Hash (cs ! i)) \<longleftrightarrow> i < Suc k"
      using rep has task_Hash [OF task _ k] by (auto simp: replaying_def less_Suc_eq)
    show "\<forall>x \<in> set work. x \<in> set cs \<or> HasBlock (mgr_blockchain ?m) (Hash x)"
      using rep has by (auto simp: replaying_def)
    show "mset (mgr_addBlock ?m) + mset (mgr_receiveFloodedBlock ?m) + mset (take (Suc k) cs) \<subseteq># mset work"
      using rep m k by (simp add: replaying_def take_Suc_conv_app_nth)
    have "set (drop (Suc k) cs) \<subseteq> set (drop k cs)" by (rule set_drop_subset_set_drop) simp
    moreover have "?c \<notin> set (drop (Suc k) cs)"
      using task_distinct [OF task] k by (metis Cons_nth_drop_Suc distinct.simps(2) distinct_drop)
    ultimately show "set (drop (Suc k) cs) \<subseteq> set (mgr_receiveFloodedBlock ?m) \<union> set (mgr_addBlock ?m)"
      using rep m by (auto simp: replaying_def)
    have "set (take (Suc k) cs) \<subseteq> set (take (Suc (Suc k)) cs)" by (rule set_take_subset_set_take) simp
    then show "set (mgr_addBlock ?m) \<subseteq> set (take (Suc (Suc k)) cs)"
      using rep m by (auto simp: replaying_def)
    show "\<forall>c \<in> set cs. map_of (mgr_replayMap ?m) (Hash c) \<noteq> None" using rep by (simp add: replaying_def)
  qed
  with run show ?thesis by blast
qed

lemma replaying_TakeAdd:
  assumes task: "replay_task H cfg base cs work" and rep: "replaying H cfg base cs work k m"
    and step: "mgr_step H m TakeAdd r"
  obtains m' where "r = Running m' [ContinueMining]" "replaying H cfg base cs work k m'"
  | m' where "k < length cs" "r = Running m' [NewBlockAdded, SendBlock (cs ! k), ContinueMining]"
      "replaying H cfg base cs work (Suc k) m'"
  using step
proof (cases rule: mgr_step.cases)
  case (step_add x rest it1 it2)
  let ?m = "m\<lparr>mgr_addBlock := rest\<rparr>"
  show ?thesis
  proof (cases "HasBlock (mgr_blockchain m) (Hash x)")
    case True
    have inv: "bc_inv (mgr_blockchain m)" using rep by (simp add: replaying_def)
    have "r = Running ?m [ContinueMining]"
      using step_add(4) True AddBlock_eq [OF inv step_add(2,3), of H x] by (simp add: mgr_add_def)
    moreover have "replaying H cfg base cs work k ?m"
    proof -
      have "x \<notin> set (drop k cs)"
      proof
        assume "x \<in> set (drop k cs)"
        then obtain j where "j < length (drop k cs)" "x = drop k cs ! j" by (metis in_set_conv_nth)
        then show False using rep True by (simp add: replaying_def)
      qed
      moreover have "mset rest + mset (mgr_receiveFloodedBlock m) + mset (take k cs) \<subseteq># mset work"
        using rep step_add(1) by (auto simp: replaying_def intro: subset_mset.order_trans [rotated])
      ultimately show ?thesis using rep step_add(1) by (auto simp: replaying_def)
    qed
    ultimately show ?thesis using that(1) by blast
  next
    case False
    then have k: "k < length cs" "x = cs ! k"
      using rep step_add(1) by (auto simp: replaying_def in_set_conv_nth less_Suc_eq)
    from replaying_next [OF task rep k(1) step_add(2,3)] step_add(1,4) k(2) that(2) [OF k(1)]
    show ?thesis by auto
  qed
qed

text \<open>The runs in which the goroutine only takes blocks from its two channels.\<close>

inductive replay_run :: "host \<Rightarrow> ChainManager \<Rightarrow> mgr_output list \<Rightarrow> ChainManager \<Rightarrow> bool" for H m where
  replay_start: "replay_run H m [] m"
| replay_step: "replay_run H m outs m1 \<Longrightarrow> e = TakeFlooded \<or> e = TakeAdd \<Longrightarrow> mgr_step H m1 e (Running m2 outs') \<Longrightarrow>
    replay_run H m (outs @ outs') m2"

fun sent_by :: "mgr_output list \<Rightarrow> Block list" where
  "sent_by [] = []"
| "sent_by (SendBlock b # outs) = b # sent_by outs"
| "sent_by (out # outs) = sent_by outs"

lemma sent_by_append [simp]: "sent_by (xs @ ys) = sent_by xs @ sent_by ys"
  by (induction xs rule: sent_by.induct) auto

lemma replaying_run:
  assumes task: "replay_task H cfg base cs work" and run: "replay_run H m outs m'"
    and rep: "replaying H cfg base cs work 0 m"
  shows "\<exists>k. replaying H cfg base cs work k m' \<and> sent_by outs = take k cs"
  using run
proof (induction rule: replay_run.induct)
  case replay_start
  then show ?case using rep by auto
next
  case (replay_step outs m1 e m2 outs')
  then obtain k where rep1: "replaying H cfg base cs work k m1" and outs: "sent_by outs = take k cs" by blast
  from replay_step.hyps(2) show ?case
  proof
    assume "e = TakeFlooded"
    with replay_step.hyps(3) have "mgr_step H m1 TakeFlooded (Running m2 outs')" by simp
    from replaying_TakeFlooded [OF task rep1 this] outs show ?thesis by auto
  next
    assume "e = TakeAdd"
    with replay_step.hyps(3) have "mgr_step H m1 TakeAdd (Running m2 outs')" by simp
    from replaying_TakeAdd [OF task rep1 this] outs show ?thesis
      by cases (auto simp: take_Suc_conv_app_nth)
  qed
qed

text \<open>What is left to do: blocks to add, the lengths of the channels, and how far the next block is
  from the head of its channel.\<close>

definition replay_todo :: "Block list \<Rightarrow> ((nat \<times> ChainManager) \<times> (nat \<times> ChainManager)) set" where
  "replay_todo cs = measures
     [\<lambda>(k, m). length cs - k, \<lambda>(k, m). length (mgr_receiveFloodedBlock m), \<lambda>(k, m). length (mgr_addBlock m),
      \<lambda>(k, m). length (takeWhile (\<lambda>x. x \<noteq> cs ! k) (mgr_receiveFloodedBlock m))]"

lemma mgr_TakeAdd_possible:
  assumes "bc_inv (mgr_blockchain m)" "mgr_addBlock m = x # rest"
  shows "\<exists>r. mgr_step H m TakeAdd r"
proof -
  have "bc_inv (mgr_blockchain (m\<lparr>mgr_addBlock := rest\<rparr>))" using assms(1) by simp
  then obtain r where "mgr_add H (\<lambda>m. m) (\<lambda>m. m) (m\<lparr>mgr_addBlock := rest\<rparr>) x = Some r"
    using mgr_add_cases [OF _ is_iter_id is_iter_id] by metis
  then show ?thesis using step_add [OF assms(2) is_iter_id is_iter_id] by blast
qed

lemma replaying_TakeAdd_channels:
  assumes "mgr_step H m TakeAdd (Running m' outs)"
  shows "mgr_receiveFloodedBlock m' = mgr_receiveFloodedBlock m \<and> length (mgr_addBlock m') < length (mgr_addBlock m)"
  using assms
proof (cases rule: mgr_step.cases)
  case (step_add x rest it1 it2)
  then obtain r where "AddBlock H it1 it2 (mgr_blockchain m) x = Some r"
    by (auto simp: mgr_add_def bind_eq_Some_conv)
  then show ?thesis using step_add by (cases r) (auto simp: mgr_add_def bind_eq_Some_conv)
qed

lemma replay_progress:
  assumes task: "replay_task H cfg base cs work" and rep: "replaying H cfg base cs work k m"
    and left: "mgr_receiveFloodedBlock m \<noteq> [] \<or> mgr_addBlock m \<noteq> []"
  shows "\<exists>e m' outs k'. (e = TakeFlooded \<or> e = TakeAdd) \<and> mgr_step H m e (Running m' outs) \<and>
    replaying H cfg base cs work k' m' \<and> ((k', m'), (k, m)) \<in> replay_todo cs"
proof (cases "mgr_addBlock m")
  case (Cons x rest)
  have "bc_inv (mgr_blockchain m)" using rep by (simp add: replaying_def)
  then obtain r where r: "mgr_step H m TakeAdd r" using mgr_TakeAdd_possible Cons by blast
  from replaying_TakeAdd [OF task rep r] show ?thesis
  proof cases
    case (1 m')
    with r replaying_TakeAdd_channels [of H m m'] show ?thesis
      by (intro exI [of _ TakeAdd] exI [of _ m'] exI [of _ "[ContinueMining]"] exI [of _ k]) (auto simp: replay_todo_def)
  next
    case (2 m')
    with r show ?thesis
      by (intro exI [of _ TakeAdd] exI [of _ m'] exI [of _ "[NewBlockAdded, SendBlock (cs ! k), ContinueMining]"] exI [of _ "Suc k"])
        (auto simp: replay_todo_def)
  qed
next
  case Nil
  with left obtain x rest where m: "mgr_receiveFloodedBlock m = x # rest" by (auto simp: neq_Nil_conv)
  let ?r = "mgr_flooded (m\<lparr>mgr_receiveFloodedBlock := rest\<rparr>) x"
  have step: "mgr_step H m TakeFlooded ?r" using m by (rule step_flooded)
  from replaying_TakeFlooded [OF task rep step] obtain m' where m': "?r = Running m' []" "replaying H cfg base cs work k m'" by blast
  have "((k, m'), (k, m)) \<in> replay_todo cs"
  proof (rule replaying_flooded [OF task rep m])
    fix i
    assume i: "k < i" "i < length cs" "x = cs ! i"
      and fl: "?r = Running (m\<lparr>mgr_receiveFloodedBlock := rest @ [x], mgr_replayMap := AList.update (Hash x) () (mgr_replayMap m)\<rparr>) []"
    have "cs ! k \<in> set (drop k cs)" using i by (simp add: Cons_nth_drop_Suc [symmetric])
    then have "cs ! k \<in> set (x # rest)" using rep m Nil by (auto simp: replaying_def)
    moreover have ne: "x \<noteq> cs ! k" using task_Hash [OF task, of i k] i by auto
    ultimately have "cs ! k \<in> set rest" by simp
    then have "takeWhile (\<lambda>x. x \<noteq> cs ! k) (rest @ [x]) = takeWhile (\<lambda>x. x \<noteq> cs ! k) rest"
      by (simp add: takeWhile_append1)
    with fl m m'(1) ne show ?thesis by (auto simp: replay_todo_def)
  qed (use m m'(1) in \<open>auto simp: replay_todo_def\<close>)
  with step m' show ?thesis by metis
qed

lemma replay_run_trans:
  "replay_run H m1 outs' m2 \<Longrightarrow> replay_run H m outs m1 \<Longrightarrow> replay_run H m (outs @ outs') m2"
proof (induction rule: replay_run.induct)
  case (replay_step outs' m2 e m3 outs'')
  then show ?case using replay_run.replay_step [of H m "outs @ outs'" m2 e m3 outs''] by simp
qed simp

text \<open>From every state of the replay a run leads to empty channels.\<close>

lemma replay_completes:
  assumes task: "replay_task H cfg base cs work" and rep: "replaying H cfg base cs work k m"
  shows "\<exists>outs m'. replay_run H m outs m' \<and> mgr_receiveFloodedBlock m' = [] \<and> mgr_addBlock m' = []"
proof -
  have "wf (replay_todo cs)" by (simp add: replay_todo_def)
  then have "\<forall>k m. km = (k, m) \<longrightarrow> replaying H cfg base cs work k m \<longrightarrow>
      (\<exists>outs m'. replay_run H m outs m' \<and> mgr_receiveFloodedBlock m' = [] \<and> mgr_addBlock m' = [])" for km
  proof (induction km rule: wf_induct_rule)
    case (less km)
    show ?case
    proof (intro allI impI)
      fix k m assume km: "km = (k, m)" and rep: "replaying H cfg base cs work k m"
      show "\<exists>outs m'. replay_run H m outs m' \<and> mgr_receiveFloodedBlock m' = [] \<and> mgr_addBlock m' = []"
      proof (cases "mgr_receiveFloodedBlock m \<noteq> [] \<or> mgr_addBlock m \<noteq> []")
        case True
        obtain e m1 outs1 k1 where e: "e = TakeFlooded \<or> e = TakeAdd" and step: "mgr_step H m e (Running m1 outs1)"
            and rep1: "replaying H cfg base cs work k1 m1" and todo: "((k1, m1), (k, m)) \<in> replay_todo cs"
          using replay_progress [OF task rep True] by blast
        obtain outs m' where run: "replay_run H m1 outs m'" and fin: "mgr_receiveFloodedBlock m' = []" "mgr_addBlock m' = []"
          using less [of "(k1, m1)"] todo km rep1 by blast
        show ?thesis
          using replay_run_trans [OF run replay_step [OF replay_start e step]] fin by blast
      qed (use replay_start in blast)
    qed
  qed
  then show ?thesis using rep by blast
qed

section \<open>Catching up\<close>

lemma GetBlocks_rpc_chain:
  assumes "bc_inv (mgr_blockchain m)" "chain_view (mgr_blockchain m) h = Some ch"
  shows "GetBlocks_rpc m h = Inr (rev (take 500 ch) @ [hd ch])"
proof -
  obtain a where "map_of (bc_m (mgr_blockchain m)) h = Some a" "chain_blocks (bc_heap (mgr_blockchain m)) (Some a) = Some ch"
    using assms(2) by (auto simp: chain_view_def split: option.splits)
  then show ?thesis
    by (simp add: GetBlocks_rpc_def mgr_GetPreviousBlocks_def mgr_reverse_rev GetPreviousBlocks_chain [OF assms(1)] Let_def)
qed

lemma map_of_fold_update:
  "map_of (fold (\<lambda>x. AList.update (f x) ()) xs mp) k = (if k \<in> f ` set xs then Some () else map_of mp k)"
  by (induction xs arbitrary: mp) (auto simp: update_conv')

text \<open>What the manager does with the first block, and with the answer of the peer.\<close>

lemma download_requested:
  assumes "\<not> HasBlock (mgr_blockchain m) (Hash b)" "\<not> HasBlock (mgr_blockchain m) (PreviousHash b)"
    and "mgr_receiveFloodedBlock m = []" "mgr_replayQueue m = []" "map_of (mgr_replayMap m) (PreviousHash b) = None"
    and "length blocks < 1000"
  obtains m1 m2 where "mgr_flooded m b = Running m1 [DownloadBlock b]" "mgr_downloaded m1 blocks = Running m2 []"
    "mgr_blockchain m2 = mgr_blockchain m" "mgr_addBlock m2 = mgr_addBlock m" "mgr_receiveFloodedBlock m2 = blocks @ [b]"
    "mgr_replayQueue m2 = []" "\<And>h. map_of (mgr_replayMap m2) h =
      (if h \<in> Hash ` set (blocks @ [b]) then Some () else map_of (mgr_replayMap m) h)"
proof -
  let ?m1 = "m\<lparr>mgr_replayQueue := [b], mgr_replayMap := AList.update (Hash b) () (mgr_replayMap m)\<rparr>"
  let ?mp = "fold (\<lambda>block. AList.update (Hash block) ()) blocks (mgr_replayMap ?m1)"
  have "mgr_flooded m b = Running ?m1 [DownloadBlock b]"
    using assms(1-5) by (simp add: mgr_flooded_def)
  moreover have "mgr_downloaded ?m1 blocks =
      Running (?m1\<lparr>mgr_replayMap := ?mp, mgr_receiveFloodedBlock := blocks @ [b], mgr_replayQueue := []\<rparr>) []"
    using assms(3,6) by (simp add: mgr_downloaded_def)
  ultimately show ?thesis
    by (rule that) (auto simp: map_of_fold_update update_conv')
qed

text \<open>The blocks that are replayed, as the invariant needs them.\<close>

lemma download_task:
  assumes add: "addable H cfg base (rev news)" and ch: "b # ch = news @ olds"
    and dist: "distinct (map Hash (b # ch))" "ch \<noteq> []"
    and known: "set (drop 500 ch) \<inter> set news = {}"
  shows "replay_task H cfg base (rev news) (rev (take 500 ch) @ [hd ch] @ [b])"
    "set news \<subseteq> set (rev (take 500 ch) @ [hd ch] @ [b])" "set (rev (take 500 ch) @ [hd ch] @ [b]) \<subseteq> set (b # ch)"
proof -
  let ?work = "rev (take 500 ch) @ [hd ch] @ [b]"
  show "set news \<subseteq> set ?work"
  proof
    fix x assume x: "x \<in> set news"
    then have "x \<in> set (b # ch)" using ch by simp
    moreover have "x \<notin> set (drop 500 ch)" using x known by blast
    moreover have "set ch = set (take 500 ch) \<union> set (drop 500 ch)" by (metis append_take_drop_id set_append)
    ultimately show "x \<in> set ?work" by auto
  qed
  show "set ?work \<subseteq> set (b # ch)" using dist(2) by (auto dest: in_set_takeD)
  have "distinct (b # ch)" using dist(1) by (auto simp: distinct_map)
  then have d: "distinct (b # take 500 ch)" by (auto dest: in_set_takeD)
  have "hd ch \<in> set (take 500 ch)" using dist(2) by (cases ch) auto
  then have "set ?work = set (b # take 500 ch)" by auto
  then have "mset_set (set ?work) = mset (b # take 500 ch)" using mset_set_set [OF d] by simp
  then have "size (mset ?work - mset_set (set ?work)) \<le> 1" by simp
  moreover have "distinct (map Hash (rev news))"
    using dist(1) unfolding ch by (simp add: rev_map [symmetric])
  ultimately show "replay_task H cfg base (rev news) ?work"
    using add by (simp add: replay_task_def)
qed

text \<open>A replay that starts with the blocks of the task in the channel of flooded blocks.\<close>

lemma replay_outcome:
  assumes task: "replay_task H cfg base cs work" and inv: "bc_inv (mgr_blockchain m)" "bc_config (mgr_blockchain m) = cfg"
    and base: "chain_view (mgr_blockchain m) (Hash (hd base)) = Some base"
    and m: "mgr_addBlock m = []" "mgr_receiveFloodedBlock m = work" "\<forall>c \<in> set cs. map_of (mgr_replayMap m) (Hash c) \<noteq> None"
    and cs: "set cs = {x \<in> set work. \<not> HasBlock (mgr_blockchain m) (Hash x)}"
    and run: "replay_run H m outs m'"
  shows "(e = TakeFlooded \<or> e = TakeAdd \<Longrightarrow> mgr_step H m' e r \<Longrightarrow> \<exists>m'' outs'. r = Running m'' outs')"
    and "\<exists>outs' m''. replay_run H m' outs' m'' \<and> mgr_receiveFloodedBlock m'' = [] \<and> mgr_addBlock m'' = []"
    and "mgr_receiveFloodedBlock m' = [] \<Longrightarrow> mgr_addBlock m' = [] \<Longrightarrow>
      sent_by outs = cs \<and> (\<forall>x \<in> set work. HasBlock (mgr_blockchain m') (Hash x))"
proof -
  have "\<not> HasBlock (mgr_blockchain m) (Hash (cs ! i))" if "i < length cs" for i
    using nth_mem [OF that] cs by blast
  then have "replaying H cfg base cs work 0 m"
    using inv base m cs by (auto simp: replaying_def)
  then obtain k where rep: "replaying H cfg base cs work k m'" and sent: "sent_by outs = take k cs"
    using replaying_run [OF task run] by blast
  show "\<exists>m'' outs'. r = Running m'' outs'" if "e = TakeFlooded \<or> e = TakeAdd" "mgr_step H m' e r"
    using that replaying_TakeFlooded [OF task rep] replaying_TakeAdd [OF task rep] by metis
  show "\<exists>outs' m''. replay_run H m' outs' m'' \<and> mgr_receiveFloodedBlock m'' = [] \<and> mgr_addBlock m'' = []"
    by (rule replay_completes [OF task rep])
  show "sent_by outs = cs \<and> (\<forall>x \<in> set work. HasBlock (mgr_blockchain m') (Hash x))"
    if "mgr_receiveFloodedBlock m' = []" "mgr_addBlock m' = []"
  proof -
    have k: "length cs \<le> k" using rep that by (simp add: replaying_def)
    then have "HasBlock (mgr_blockchain m') (Hash x)" if "x \<in> set cs" for x
      using rep that by (auto simp: replaying_def in_set_conv_nth)
    with rep k sent show ?thesis by (auto simp: replaying_def)
  qed
qed

lemma forwarded_answer:
  assumes "map_of (pm_blocksToPeers st) (Hash b) = None" "map_of (pm_peers st) pid = Some p" "answers 0 = Inr blocks"
  shows "forwarded (snd (pm_download (fst (pm_received_block st \<lparr>flood_Block = b, FromMinerId = pid\<rparr>)) answers b)) = [blocks]"
  using assms by (simp add: pm_received_block_def pm_download_def update_conv')

text \<open>What the miner lacks of the chain of a block that the peer has.\<close>

lemma peer_chain:
  assumes "built H cfg bc" "built H cfg bc'" "same_blocks bc bc'" "GetBlock bc (Hash b) = Some b"
    and new: "\<not> HasBlock bc' (Hash b)"
  obtains ch news olds base where "chain_view bc (PreviousHash b) = Some ch" "ch \<noteq> []" "b # ch = news @ olds" "olds \<noteq> []"
    "distinct (map Hash (b # ch))" "\<And>x. x \<in> set news \<Longrightarrow> \<not> HasBlock bc' (Hash x)" "\<And>x. x \<in> set olds \<Longrightarrow> HasBlock bc' (Hash x)"
    "chain_view bc' (Hash (hd base)) = Some base" "addable H cfg base (rev news)"
    "\<forall>us x y vs. b # ch = us @ x # y # vs \<longrightarrow> PreviousHash x = Hash y"
proof -
  have inv: "bc_inv bc" "bc_inv bc'" and cfg: "bc_config bc = cfg"
    using built_inv [OF assms(1)] built_inv [OF assms(2)] by (auto simp: ledger_inv_def)
  obtain now now' where ok: "view_ok H cfg (NewGenesisBlock now (GenesisBlockHash cfg)) (chain_view bc)"
      "view_ok H cfg (NewGenesisBlock now' (GenesisBlockHash cfg)) (chain_view bc')"
    using built_view_ok [OF assms(1)] built_view_ok [OF assms(2)] by blast
  let ?g = "NewGenesisBlock now (GenesisBlockHash cfg)" and ?g' = "NewGenesisBlock now' (GenesisBlockHash cfg)"
  have ag: "view_agree (GenesisBlockHash cfg) (chain_view bc) (chain_view bc')"
    using same_blocks_agree [OF inv assms(3)] cfg by simp
  obtain full where full: "chain_view bc (Hash b) = Some full" "hd full = b"
    using assms(4) by (auto simp: GetBlock_view [OF inv(1)])
  moreover have "full \<noteq> []" using view_okD(3) [OF ok(1) full(1)] by auto
  ultimately obtain ch where ch: "chain_view bc (Hash b) = Some (b # ch)" by (cases full) auto
  have "ch \<noteq> []"
  proof
    assume "ch = []"
    then have "Hash b = Hash ?g'" using view_okD(6) [OF ok(1)] ch by (simp add: NewGenesisBlock_def)
    then show False using view_okD(2) [OF ok(2)] new by (simp add: HasBlock_view [OF inv(2)])
  qed
  then have prev: "chain_view bc (PreviousHash b) = Some ch" using view_okD(5) [OF ok(1)] ch by (cases ch) auto
  have g: "Operations ?g = Operations ?g'" "BlockMinerID ?g = BlockMinerID ?g'" by (simp_all add: NewGenesisBlock_def)
  have link: "\<forall>us x y vs. b # ch = us @ x # y # vs \<longrightarrow> PreviousHash x = Hash y"
  proof (intro allI impI)
    fix us x y vs assume that: "b # ch = us @ x # y # vs"
    have "chain_view bc (Hash x) = Some (x # y # vs)" using view_suffix [OF ok(1)] ch that by metis
    then have "chain_view bc (PreviousHash x) = Some (y # vs)" using view_okD(5) [OF ok(1)] by blast
    then show "PreviousHash x = Hash y" using view_okD(4) [OF ok(1)] by fastforce
  qed
  show ?thesis
    using missing_blocks [OF ok ag g ch] that [OF prev \<open>ch \<noteq> []\<close>] view_distinct [OF ok(1) ch] link
    unfolding HasBlock_view [OF inv(2)] by metis
qed

lemma prefix_before: "xs @ c # ys = us @ vs \<Longrightarrow> c \<notin> set us \<Longrightarrow> set us \<subseteq> set xs"
proof (induction us arbitrary: xs)
  case (Cons u us)
  then show ?case by (cases xs) auto
qed simp

lemma older_known:
  assumes c: "c \<in> set (take n ch)" and ch: "b # ch = news @ olds" "distinct (map Hash (b # ch))" and "c \<notin> set news"
  shows "set (drop n ch) \<inter> set news = {}"
proof -
  obtain as bs where "take n ch = as @ c # bs" using c by (meson split_list)
  then have split: "b # ch = (b # as) @ c # bs @ drop n ch" by (metis append_Cons append_assoc append_take_drop_id)
  then have "set news \<subseteq> set (b # as)"
    using prefix_before [of "b # as" c "bs @ drop n ch" news olds] ch(1) assms(4) by simp
  moreover have "distinct (b # ch)" using ch(2) by (auto simp: distinct_map)
  ultimately show ?thesis unfolding split by auto
qed

text \<open>The oldest downloaded block, or its predecessor, decides whether something is still missing.\<close>

lemma older_all_known:
  assumes ch: "b # ch = news @ olds" "distinct (map Hash (b # ch))"
    and link: "\<forall>us x y vs. b # ch = us @ x # y # vs \<longrightarrow> PreviousHash x = Hash y" and "ch \<noteq> []" "0 < n"
    and common: "Hash (last (take n ch)) \<notin> Hash ` set news \<or> PreviousHash (last (take n ch)) \<notin> Hash ` set news"
  shows "set (drop n ch) \<inter> set news = {}"
proof (cases "drop n ch")
  case (Cons d ds)
  have ne: "take n ch \<noteq> []" using assms(4,5) by simp
  have "b # ch = (b # butlast (take n ch)) @ last (take n ch) # d # ds"
    using Cons append_butlast_last_id [OF ne] by (metis append_Cons append_assoc append_take_drop_id self_append_conv2)
  then have "PreviousHash (last (take n ch)) = Hash d" using link by blast
  with common consider "last (take n ch) \<notin> set news" | "d \<notin> set news" by auto
  then show ?thesis
  proof cases
    case 1
    then show ?thesis using older_known [OF last_in_set [OF ne] ch] by blast
  next
    case 2
    have n: "n < length ch" using Cons by (metis drop_all list.distinct(1) not_le)
    then have "take (Suc n) ch = take n ch @ [d]" "drop (Suc n) ch = ds"
      using Cons_nth_drop_Suc [OF n] Cons by (simp_all add: take_Suc_conv_app_nth)
    then show ?thesis using older_known [of d "Suc n" ch b news olds] ch 2 Cons by simp
  qed
qed simp

text \<open>What a peer answers, as a task for the replay: the blocks that are missing, oldest first.\<close>

lemma answer_task:
  assumes built: "built H cfg (mgr_blockchain m)" "built H cfg (mgr_blockchain peer)"
    and same: "same_blocks (mgr_blockchain peer) (mgr_blockchain m)"
    and b: "GetBlock (mgr_blockchain peer) (Hash b) = Some b" "\<not> HasBlock (mgr_blockchain m) (Hash b)"
    and answer: "GetBlocks_rpc peer (PreviousHash b) = Inr blocks"
    and common: "HasBlock (mgr_blockchain m) (Hash (hd blocks)) \<or> HasBlock (mgr_blockchain m) (PreviousHash (hd blocks))"
  obtains base cs where "replay_task H cfg base cs (blocks @ [b])" "chain_view (mgr_blockchain m) (Hash (hd base)) = Some base"
    "set cs = {x \<in> set (blocks @ [b]). \<not> HasBlock (mgr_blockchain m) (Hash x)}" "length blocks < 1000"
proof -
  from peer_chain [OF built(2,1) same b] obtain ch news olds base where
      ch: "chain_view (mgr_blockchain peer) (PreviousHash b) = Some ch" "ch \<noteq> []" "b # ch = news @ olds" "distinct (map Hash (b # ch))"
    and news: "\<And>x. x \<in> set news \<Longrightarrow> \<not> HasBlock (mgr_blockchain m) (Hash x)"
    and olds: "\<And>x. x \<in> set olds \<Longrightarrow> HasBlock (mgr_blockchain m) (Hash x)"
    and base: "chain_view (mgr_blockchain m) (Hash (hd base)) = Some base" "addable H cfg base (rev news)"
    and link: "\<forall>us x y vs. b # ch = us @ x # y # vs \<longrightarrow> PreviousHash x = Hash y" by metis
  have inv: "bc_inv (mgr_blockchain peer)" using built_inv [OF built(2)] by (simp add: ledger_inv_def)
  have blocks: "blocks = rev (take 500 ch) @ [hd ch]" using answer GetBlocks_rpc_chain [OF inv ch(1)] by simp
  have "hd blocks = last (take 500 ch)" using blocks ch(2) by (simp add: hd_append hd_rev)
  then have "Hash (last (take 500 ch)) \<notin> Hash ` set news \<or> PreviousHash (last (take 500 ch)) \<notin> Hash ` set news"
    using common news by auto
  then have known: "set (drop 500 ch) \<inter> set news = {}"
    using older_all_known [OF ch(3,4) link ch(2), of 500] by simp
  note task = download_task [OF base(2) ch(3,4,2) known]
  have work: "blocks @ [b] = rev (take 500 ch) @ [hd ch] @ [b]" using blocks by simp
  note task = task [folded work]
  have miss: "set (rev news) = {x \<in> set (blocks @ [b]). \<not> HasBlock (mgr_blockchain m) (Hash x)}"
    using task(2,3) news olds ch(3) by fastforce
  show ?thesis using that [OF task(1) base(1) miss] blocks by simp
qed

text \<open>C4: A miner that is behind catches up, under these conditions. Its channels and replay queue are empty;
  one connected peer floods it a block whose predecessor it does not know, and no other peer has sent
  this block; the trees of both were built by \<^verbatim>\<open>AddBlock\<close> with the same settings and agree on common
  blocks; that peer answers the request for the missing blocks, and the oldest block of the answer or its
  predecessor is known; and until the replay is over no further block
  arrives or is mined. Then the goroutine requests and queues the blocks; however it interleaves
  its two channels while it replays them, no step of the replay blocks or panics, and from every state it gets
  into a run to empty channels exists; and whenever the channels are empty, all these blocks are in the tree, and
  every one that was missing has been sent to the peers exactly once.\<close>

theorem catch_up:
  assumes built: "built H cfg (mgr_blockchain m)" "built H cfg (mgr_blockchain peer)"
    and same: "same_blocks (mgr_blockchain peer) (mgr_blockchain m)"
    and b: "GetBlock (mgr_blockchain peer) (Hash b) = Some b" "\<not> HasBlock (mgr_blockchain m) (Hash b)"
      "\<not> HasBlock (mgr_blockchain m) (PreviousHash b)"
    and m: "mgr_receiveFloodedBlock m = []" "mgr_addBlock m = []" "mgr_replayQueue m = []"
      "map_of (mgr_replayMap m) (PreviousHash b) = None"
    and st: "map_of (pm_blocksToPeers st) (Hash b) = None" "map_of (pm_peers st) pid = Some p"
    and answer: "GetBlocks_rpc peer (PreviousHash b) = Inr blocks" "answers 0 = Inr blocks"
    and common: "HasBlock (mgr_blockchain m) (Hash (hd blocks)) \<or> HasBlock (mgr_blockchain m) (PreviousHash (hd blocks))"
  shows "\<exists>m1 m2. mgr_flooded m b = Running m1 [DownloadBlock b] \<and>
    forwarded (snd (pm_download (fst (pm_received_block st \<lparr>flood_Block = b, FromMinerId = pid\<rparr>)) answers b)) = [blocks] \<and>
    mgr_downloaded m1 blocks = Running m2 [] \<and>
    (\<forall>outs m'. replay_run H m2 outs m' \<longrightarrow>
       (\<forall>e r. (e = TakeFlooded \<or> e = TakeAdd) \<and> mgr_step H m' e r \<longrightarrow> (\<exists>m'' outs'. r = Running m'' outs')) \<and>
       (\<exists>outs' m''. replay_run H m' outs' m'' \<and> mgr_receiveFloodedBlock m'' = [] \<and> mgr_addBlock m'' = []) \<and>
       (mgr_receiveFloodedBlock m' = [] \<and> mgr_addBlock m' = [] \<longrightarrow>
          (\<forall>x \<in> set (blocks @ [b]). HasBlock (mgr_blockchain m') (Hash x)) \<and> distinct (sent_by outs) \<and>
          set (sent_by outs) = {x \<in> set (blocks @ [b]). \<not> HasBlock (mgr_blockchain m) (Hash x)}))"
proof -
  obtain base cs where
      task: "replay_task H cfg base cs (blocks @ [b])" and base: "chain_view (mgr_blockchain m) (Hash (hd base)) = Some base"
    and miss: "set cs = {x \<in> set (blocks @ [b]). \<not> HasBlock (mgr_blockchain m) (Hash x)}" and len: "length blocks < 1000"
    by (rule answer_task [OF built same b(1,2) answer(1) common])
  have inv: "bc_inv (mgr_blockchain m)" "bc_config (mgr_blockchain m) = cfg"
    using built_inv [OF built(1)] by (auto simp: ledger_inv_def)
  from download_requested [OF b(2,3) m(1,3,4) len] obtain m1 m2 where
      m12: "mgr_flooded m b = Running m1 [DownloadBlock b]" "mgr_downloaded m1 blocks = Running m2 []"
    and m2: "mgr_blockchain m2 = mgr_blockchain m" "mgr_addBlock m2 = mgr_addBlock m" "mgr_receiveFloodedBlock m2 = blocks @ [b]"
      "\<And>h. map_of (mgr_replayMap m2) h = (if h \<in> Hash ` set (blocks @ [b]) then Some () else map_of (mgr_replayMap m) h)"
    by metis
  have rm: "\<forall>x \<in> set cs. map_of (mgr_replayMap m2) (Hash x) \<noteq> None"
    using miss m2(4) by auto
  have d: "distinct cs" using task_distinct [OF task] .
  note out = replay_outcome [OF task, of m2, unfolded m2(1), OF inv base _ m2(3) rm miss]
  show ?thesis
  proof (rule exI [of _ m1], rule exI [of _ m2], intro conjI allI impI)
    fix outs m' assume run: "replay_run H m2 outs m'"
    note out = out [OF m2(2) [unfolded m(2)] run]
    show "\<exists>m'' outs'. r = Running m'' outs'" if "(e = TakeFlooded \<or> e = TakeAdd) \<and> mgr_step H m' e r" for e r
      using out(1) that by blast
    show "\<exists>outs' m''. replay_run H m' outs' m'' \<and> mgr_receiveFloodedBlock m'' = [] \<and> mgr_addBlock m'' = []"
      by (rule out(2))
    assume "mgr_receiveFloodedBlock m' = [] \<and> mgr_addBlock m' = []"
    then have "sent_by outs = cs \<and> (\<forall>x \<in> set (blocks @ [b]). HasBlock (mgr_blockchain m') (Hash x))"
      using out(3) by blast
    then show "\<forall>x \<in> set (blocks @ [b]). HasBlock (mgr_blockchain m') (Hash x)" "distinct (sent_by outs)"
        "set (sent_by outs) = {x \<in> set (blocks @ [b]). \<not> HasBlock (mgr_blockchain m) (Hash x)}"
      using miss d by simp_all
  qed (use m12 forwarded_answer [OF st, of answers blocks] answer(2) in auto)
qed

lemma sample_same_blocks: "same_blocks tree3 tree1"
proof -
  have "GetBlock tree3 ''1'' = GetBlock tree1 ''1''" by (simp add: GetBlock_def sample_map) (simp add: tree_defs sample_defs)
  moreover have "h = ''g'' \<or> h = ''1''" if "GetBlock tree1 h = Some b" for h b
    using that by (simp add: GetBlock_def sample_map split: if_splits)
  moreover have "GenesisBlockHash sample_cfg = ''g''" by (simp add: sample_cfg_def)
  ultimately show ?thesis unfolding same_blocks_def sample_cfg_of by (metis option.inject)
qed

theorem catch_up_witness:
  "\<exists>m1 m2 outs m'. mgr_flooded (NewChainManager tree1 sample_cfg) block3 = Running m1 [DownloadBlock block3] \<and>
     mgr_downloaded m1 [NewGenesisBlock 0 ''g'', block1, block2, block2] = Running m2 [] \<and>
     replay_run sample_host m2 outs m' \<and> set (sent_by outs) = {block2, block3} \<and> HasBlock (mgr_blockchain m') ''3''"
proof -
  let ?m = "NewChainManager tree1 sample_cfg" and ?peer = "NewChainManager tree3 sample_cfg"
  let ?blocks = "[NewGenesisBlock 0 ''g'', block1, block2, block2]"
  let ?st = "\<lparr>pm_config = sample_cfg, pm_peers = [(''B'', sample_peer ''B'')], pm_blocksToPeers = []\<rparr>"
  have view: "chain_view tree3 ''2'' = Some [block2, block1, NewGenesisBlock 0 ''g'']"
    by (simp add: chain_view_def sample_map) (simp add: chain_blocks_step tree_defs sample_defs)
  have rpc: "GetBlocks_rpc ?peer (PreviousHash block3) = Inr ?blocks"
    using GetBlocks_rpc_chain [of ?peer "''2''"] view sample_inv(4) by (simp add: NewChainManager_def)
  have b3: "GetBlock tree3 ''3'' = Some block3" by (simp add: GetBlock_def sample_map) (simp add: tree_defs sample_defs)
  have has: "HasBlock tree1 h \<longleftrightarrow> h = ''g'' \<or> h = ''1''" for h by (auto simp: HasBlock_def sample_map)
  have g: "Hash (NewGenesisBlock 0 ''g'') = ''g''" by (simp add: NewGenesisBlock_def)
  have new: "mgr_blockchain ?m = tree1" "mgr_blockchain ?peer = tree3" "mgr_receiveFloodedBlock ?m = []" "mgr_addBlock ?m = []"
    "mgr_replayQueue ?m = []" "map_of (mgr_replayMap ?m) (PreviousHash block3) = None"
    by (simp_all add: NewChainManager_def)
  have b3': "GetBlock tree3 (Hash block3) = Some block3" "\<not> HasBlock tree1 (Hash block3)" "\<not> HasBlock tree1 (PreviousHash block3)"
    using b3 has by simp_all
  have st: "map_of (pm_blocksToPeers ?st) (Hash block3) = None" "map_of (pm_peers ?st) ''B'' = Some (sample_peer ''B'')" by simp_all
  have c: "HasBlock tree1 (Hash (hd ?blocks)) \<or> HasBlock tree1 (PreviousHash (hd ?blocks))" using has g by simp
  note catch_up [of sample_host sample_cfg ?m ?peer block3 ?st "''B''" "sample_peer ''B''" ?blocks "\<lambda>_. Inr ?blocks",
      unfolded new(1,2), OF sample_built(2,4) sample_same_blocks b3' new(3-6) st rpc refl c]
  then obtain m1 m2 where m1: "mgr_flooded ?m block3 = Running m1 [DownloadBlock block3]" and m2: "mgr_downloaded m1 ?blocks = Running m2 []"
    and run: "\<forall>outs m'. replay_run sample_host m2 outs m' \<longrightarrow>
       (\<forall>e r. (e = TakeFlooded \<or> e = TakeAdd) \<and> mgr_step sample_host m' e r \<longrightarrow> (\<exists>m'' outs'. r = Running m'' outs')) \<and>
       (\<exists>outs' m''. replay_run sample_host m' outs' m'' \<and> mgr_receiveFloodedBlock m'' = [] \<and> mgr_addBlock m'' = []) \<and>
       (mgr_receiveFloodedBlock m' = [] \<and> mgr_addBlock m' = [] \<longrightarrow>
          (\<forall>x \<in> set (?blocks @ [block3]). HasBlock (mgr_blockchain m') (Hash x)) \<and> distinct (sent_by outs) \<and>
          set (sent_by outs) = {x \<in> set (?blocks @ [block3]). \<not> HasBlock tree1 (Hash x)})"
    by (elim exE conjE) (rule that)
  have missing: "{x \<in> set (?blocks @ [block3]). \<not> HasBlock tree1 (Hash x)} = {block2, block3}" by (auto simp: has g)
  obtain outs' m'' where r: "replay_run sample_host m2 outs' m''" "mgr_receiveFloodedBlock m'' = []" "mgr_addBlock m'' = []"
    using run replay_start [of sample_host m2] by blast
  from run [rule_format, OF r(1)] r(2,3) missing
  have "HasBlock (mgr_blockchain m'') (Hash block3)" "set (sent_by outs') = {block2, block3}" by simp_all
  then show ?thesis using r(1) m1 m2 by auto
qed

section \<open>More than 500 missing blocks\<close>

text \<open>When the oldest block of an answer is unknown, its predecessor is not in the answer.\<close>

lemma answer_head:
  assumes ch: "ch \<noteq> []" "b # ch = news @ olds" "olds \<noteq> []" "distinct (map Hash (b # ch))"
    and link: "\<forall>us x y vs. b # ch = us @ x # y # vs \<longrightarrow> PreviousHash x = Hash y"
    and x: "x # blocks = rev (take 500 ch) @ [hd ch]" and new: "x \<notin> set olds"
  shows "PreviousHash x \<notin> Hash ` set ((rev (take 500 ch) @ [hd ch]) @ [b])"
proof -
  have ne: "take 500 ch \<noteq> []" using ch(1) by simp
  then have last: "x = last (take 500 ch)" using x by (metis hd_append2 hd_rev list.sel(1) rev_is_Nil_conv)
  have "last ch = last olds" using ch(1-3) by (metis last_ConsR last_appendR)
  then have "last ch \<in> set olds" using ch(3) by simp
  then have "drop 500 ch \<noteq> []" using new last by (metis append_Nil2 append_take_drop_id)
  then obtain d ds where d: "drop 500 ch = d # ds" by (meson list.exhaust)
  have split: "b # ch = (b # butlast (take 500 ch)) @ x # d # ds"
    using d last append_butlast_last_id [OF ne] by (metis append_Cons append_assoc append_take_drop_id self_append_conv2)
  then have "PreviousHash x = Hash d" using link by blast
  moreover have "Hash d \<notin> Hash ` set (b # take 500 ch)"
  proof -
    have "map Hash (b # ch) = map Hash (b # take 500 ch) @ Hash d # map Hash ds"
      using d by (metis append_Cons append_take_drop_id list.simps(9) map_append)
    then show ?thesis using ch(4) by (metis disjoint_iff distinct_append list.set_intros(1) set_map)
  qed
  moreover have "hd ch \<in> set (take 500 ch)" using ch(1) by (cases ch) auto
  ultimately show ?thesis by auto
qed

text \<open>C32: A peer answers with 500 blocks of the chain. A miner that lacks more does not catch up this way:
  it takes the oldest block of the answer from its channel, does not know the predecessor, and asks for
  another download; but \<^verbatim>\<open>managePeers\<close> only asks miners that flooded a block, and nobody
  flooded this one. It forwards nothing, and the manager does not ask again, whatever blocks peers flood or
  the miner mines.\<close>

theorem long_gap_not_downloaded:
  assumes built: "built H cfg (mgr_blockchain m)" "built H cfg (mgr_blockchain peer)"
    and same: "same_blocks (mgr_blockchain peer) (mgr_blockchain m)"
    and b: "GetBlock (mgr_blockchain peer) (Hash b) = Some b" "\<not> HasBlock (mgr_blockchain m) (Hash b)"
      "\<not> HasBlock (mgr_blockchain m) (PreviousHash b)"
    and m: "mgr_receiveFloodedBlock m = []" "mgr_replayQueue m = []" "map_of (mgr_replayMap m) (PreviousHash b) = None"
    and answer: "GetBlocks_rpc peer (PreviousHash b) = Inr (x # blocks)"
    and gap: "\<not> HasBlock (mgr_blockchain m) (Hash x)" "\<not> HasBlock (mgr_blockchain m) (PreviousHash x)"
      "map_of (mgr_replayMap m) (PreviousHash x) = None"
    and st: "map_of (pm_blocksToPeers st) (Hash x) = None"
  shows "\<exists>m1 m2 m3. mgr_flooded m b = Running m1 [DownloadBlock b] \<and> mgr_downloaded m1 (x # blocks) = Running m2 [] \<and>
    mgr_step H m2 TakeFlooded (Running m3 [DownloadBlock x]) \<and> forwarded (snd (pm_download st answers x)) = [] \<and>
    (\<forall>outs m'. quiet_run H m3 outs m' \<longrightarrow> mgr_replayQueue m' \<noteq> [] \<and> (\<forall>c. DownloadBlock c \<notin> set outs))"
proof -
  from peer_chain [OF built(2,1) same b(1,2)] obtain ch news olds where
      ch: "chain_view (mgr_blockchain peer) (PreviousHash b) = Some ch" "ch \<noteq> []" "b # ch = news @ olds" "olds \<noteq> []" "distinct (map Hash (b # ch))"
    and olds: "\<And>x. x \<in> set olds \<Longrightarrow> HasBlock (mgr_blockchain m) (Hash x)"
    and link: "\<forall>us x y vs. b # ch = us @ x # y # vs \<longrightarrow> PreviousHash x = Hash y" by metis
  have "bc_inv (mgr_blockchain peer)" using built_inv [OF built(2)] by (simp add: ledger_inv_def)
  then have blocks: "x # blocks = rev (take 500 ch) @ [hd ch]" using answer GetBlocks_rpc_chain ch(1) by fastforce
  have "PreviousHash x \<notin> Hash ` set ((x # blocks) @ [b])"
    unfolding blocks using answer_head [OF ch(2-5) link blocks] olds gap(1) by blast
  moreover have "length (x # blocks) < 1000" unfolding blocks by simp
  from download_requested [OF b(2,3) m this] obtain m1 m2 where
      m12: "mgr_flooded m b = Running m1 [DownloadBlock b]" "mgr_downloaded m1 (x # blocks) = Running m2 []"
    and m2: "mgr_blockchain m2 = mgr_blockchain m" "mgr_receiveFloodedBlock m2 = (x # blocks) @ [b]" "mgr_replayQueue m2 = []"
      "\<And>h. map_of (mgr_replayMap m2) h = (if h \<in> Hash ` set ((x # blocks) @ [b]) then Some () else map_of (mgr_replayMap m) h)"
    by metis
  ultimately have "map_of (mgr_replayMap m2) (PreviousHash x) = None" using gap(3) by simp
  then obtain m3 where m3: "mgr_flooded (m2\<lparr>mgr_receiveFloodedBlock := blocks @ [b]\<rparr>) x = Running m3 [DownloadBlock x]"
      "mgr_replayQueue m3 \<noteq> []"
    using gap(1,2) m2(1,3) by (simp add: mgr_flooded_def)
  then have step: "mgr_step H m2 TakeFlooded (Running m3 [DownloadBlock x])"
    using step_flooded [of m2 x "blocks @ [b]" H] m2(2) by simp
  have none: "forwarded (snd (pm_download st answers x)) = []" using st by (simp add: pm_download_def)
  have "mgr_replayQueue m' \<noteq> [] \<and> (\<forall>c. DownloadBlock c \<notin> set outs)" if "quiet_run H m3 outs m'" for outs m'
    using that m3(2) by (rule quiet_run_waits)
  with m12 step none show ?thesis by blast
qed

text \<open>A chain of blocks without operations.\<close>

definition long_hash :: "nat \<Rightarrow> string" where "long_hash n = CHR ''g'' # replicate n (CHR ''x'')"

definition long_block :: "nat \<Rightarrow> Block" where
  "long_block n = sample_block ''A'' [] (long_hash n) (long_hash (Suc n))"

primrec long_tree :: "nat \<Rightarrow> Blockchain" where
  "long_tree 0 = tree0"
| "long_tree (Suc n) = link_block (long_tree n) (long_block n) n"

lemma long_hash_eq [simp]: "long_hash i = long_hash j \<longleftrightarrow> i = j"
proof
  assume "long_hash i = long_hash j"
  then have "length (long_hash i) = length (long_hash j)" by simp
  then show "i = j" by (simp add: long_hash_def)
qed simp

lemma long_block_fields [simp]: "Hash (long_block n) = long_hash (Suc n)" "PreviousHash (long_block n) = long_hash n"
  "Operations (long_block n) = []"
  by (simp_all add: long_block_def sample_block_def)

lemma long_tree_facts:
  "built H sample_cfg (long_tree n) \<and> length (bc_heap (long_tree n)) = Suc n \<and>
   (\<forall>k. map_of (bc_m (long_tree n)) (long_hash k) = (if k \<le> n then Some k else None)) \<and>
   (\<forall>k \<le> n. chain_view (long_tree n) (long_hash k) = Some (map long_block (rev [0..<k]) @ [NewGenesisBlock 0 ''g'']))"
proof (induction n)
  case 0
  have "map_of (bc_m tree0) (long_hash k) = (if k = 0 then Some 0 else None)" for k
    by (simp add: sample_map long_hash_def)
  moreover have "length (bc_heap tree0) = Suc 0" by (simp add: tree0_def NewBlockchain_def Let_def)
  ultimately show ?case
    using sample_built(1) sample_chains(1) by (simp add: chain_view_def)
next
  case (Suc n)
  have b: "built H sample_cfg (long_tree n)" using Suc by blast
  then have inv: "bc_inv (long_tree n)" "bc_config (long_tree n) = sample_cfg"
    using built_inv by (auto simp: ledger_inv_def)
  have p: "map_of (bc_m (long_tree n)) (PreviousHash (long_block n)) = Some n" using Suc by simp
  then have ch: "chain_blocks (bc_heap (long_tree n)) (Some n) = Some (map long_block (rev [0..<n]) @ [NewGenesisBlock 0 ''g''])"
    using Suc by (auto simp: chain_view_def)
  have "AddBlock H (\<lambda>m. m) (\<lambda>m. m) (long_tree n) (long_block n) = Some (Inr (long_tree (Suc n)))"
    using p Suc by (simp add: AddBlock_eq [OF inv(1)] HasBlock_def inv(2) sample_pow)
  from built_add [OF b is_iter_id is_iter_id this] have "built H sample_cfg (long_tree (Suc n))" .
  moreover have "chain_view (long_tree (Suc n)) = (chain_view (long_tree n))(long_hash (Suc n) \<mapsto>
      long_block n # map long_block (rev [0..<n]) @ [NewGenesisBlock 0 ''g''])"
    using chain_view_link_block [OF inv(1) p ch] by simp
  ultimately show ?case using Suc by (auto simp: le_Suc_eq)
qed

lemma long_built: "built H sample_cfg (long_tree n)" and long_chain: "k \<le> n \<Longrightarrow>
    chain_view (long_tree n) (long_hash k) = Some (map long_block (rev [0..<k]) @ [NewGenesisBlock 0 ''g''])"
  using long_tree_facts by blast+

lemma long_answer:
  assumes "m = Suc n" "0 < n"
  shows "rev (take n (map long_block (rev [0..<m]) @ [g])) @ [hd (map long_block (rev [0..<m]) @ [g])] =
    long_block 1 # map long_block [2..<m] @ [long_block n]"
proof -
  have "take n (rev [0..<m]) = rev [1..<m]" using assms by (simp add: take_rev del: upt_Suc)
  moreover have "[1..<m] = 1 # [2..<m]" using assms upt_conv_Cons [of 1 m] by (simp add: numeral_2_eq_2)
  moreover have "hd (rev [0..<m]) = n" using assms by simp
  ultimately show ?thesis using assms(1) by (simp add: take_map rev_map hd_append hd_map del: upt_Suc)
qed

theorem long_gap_not_downloaded_witness:
  "\<exists>m1 m2 m3. mgr_flooded (NewChainManager tree0 sample_cfg) (long_block 501) = Running m1 [DownloadBlock (long_block 501)] \<and>
     mgr_downloaded m1 (long_block 1 # map long_block [2..<501] @ [long_block 500]) = Running m2 [] \<and>
     mgr_step sample_host m2 TakeFlooded (Running m3 [DownloadBlock (long_block 1)])"
proof -
  let ?m = "NewChainManager tree0 sample_cfg" and ?peer = "NewChainManager (long_tree 502) sample_cfg"
  let ?st = "NewPeerManager sample_cfg" and ?blocks = "map long_block [2..<501] @ [long_block 500]"
  have new: "mgr_blockchain ?m = tree0" "mgr_blockchain ?peer = long_tree 502" "mgr_receiveFloodedBlock ?m = []"
    "mgr_replayQueue ?m = []" "mgr_replayMap ?m = []" by (simp_all add: NewChainManager_def)
  have inv: "bc_inv (long_tree 502)" using built_inv [OF long_built] by (simp add: ledger_inv_def)
  let ?ch = "map long_block (rev [0..<501]) @ [NewGenesisBlock 0 ''g'']"
  have rpc: "GetBlocks_rpc ?peer (PreviousHash (long_block 501)) = Inr (long_block 1 # ?blocks)"
    using GetBlocks_rpc_chain [of ?peer "long_hash 501" ?ch] long_chain [of 501 502] new(2) inv
      long_answer [of 501 500 "NewGenesisBlock 0 ''g''"] by (simp del: upt_rec_numeral)
  have has: "HasBlock tree0 (long_hash k) \<longleftrightarrow> k = 0" for k
    by (auto simp: HasBlock_def sample_map long_hash_def)
  have "h = ''g''" if "GetBlock tree0 h = Some b'" for h b'
    using that by (simp add: GetBlock_def sample_map split: if_splits)
  moreover have "bc_config (long_tree 502) = sample_cfg" using built_inv [OF long_built] by (auto simp: ledger_inv_def)
  moreover have "GenesisBlockHash sample_cfg = ''g''" by (simp add: sample_cfg_def)
  ultimately have same: "same_blocks (long_tree 502) tree0" unfolding same_blocks_def by metis
  have b: "GetBlock (long_tree 502) (Hash (long_block 501)) = Some (long_block 501)"
    using long_chain [of 502 502] by (simp add: GetBlock_view [OF inv] hd_append hd_map hd_rev del: upt_rec_numeral)
  have unknown: "\<not> HasBlock tree0 (Hash (long_block 501))" "\<not> HasBlock tree0 (PreviousHash (long_block 501))"
    "\<not> HasBlock tree0 (Hash (long_block 1))" "\<not> HasBlock tree0 (PreviousHash (long_block 1))"
    by (simp_all add: has)
  have none: "map_of (mgr_replayMap ?m) h = None" "map_of (pm_blocksToPeers ?st) h = None" for h
    by (simp_all add: NewChainManager_def NewPeerManager_def)
  note long_gap_not_downloaded [of sample_host sample_cfg ?m ?peer "long_block 501" "long_block 1" ?blocks ?st "\<lambda>_. Inl []",
        unfolded new(1,2), OF sample_built(1) long_built same b unknown(1,2) new(3,4) none(1) rpc unknown(3,4) none]
  then show ?thesis by blast
qed

end
