(* ===== verification/P2p_Node.thy ===== *)
theory P2p_Node
  imports P2p_Blocking
begin

text \<open>
  The goroutines of one miner, and of two connected miners, composed. The chain manager
  (\<^verbatim>\<open>manageBlockchain\<close>) and \<^verbatim>\<open>managePeers\<close> send to each other on channels
  without buffer, and the goroutines for a peer call the other miner, whose \<^verbatim>\<open>managePeers\<close>
  has to take the request (\<^verbatim>\<open>p2p/blockchain_manager.go\<close>,
  \<^verbatim>\<open>p2p/p2p_rpc.go\<close>, \<^verbatim>\<open>p2p/peer.go\<close>).
\<close>

section \<open>The chain manager and managePeers\<close>

text \<open>The manager is at its \<^verbatim>\<open>select\<close> or has to send the rest of the outputs of a case. All
  receivers but these two goroutines are always ready.\<close>

datatype mgr_pc = MgrSelecting | MgrSending "mgr_output list"

type_synonym node = "ChainManager \<times> mgr_pc \<times> PeerManager \<times> pm_pc"

text \<open>What \<^verbatim>\<open>managePeers\<close> sends to the manager.\<close>

fun to_manager :: "pm_output \<Rightarrow> mgr_event option" where
  "to_manager (ReceiveFlooded b) = Some (PeerBlock b)"
| "to_manager (ForwardDownloaded bs) = Some (Downloaded bs)"
| "to_manager out = None"

text \<open>The cases of \<^verbatim>\<open>managePeers\<close> that other goroutines than the manager trigger.\<close>

fun external :: "pm_event \<Rightarrow> bool" where
  "external (NewPeer p) = True"
| "external (ReceivedBlock req) = True"
| "external (FloodOp req) = True"
| "external (PeerFailed err) = True"
| "external e = False"

inductive node_step :: "host \<Rightarrow> node \<Rightarrow> node \<Rightarrow> bool" for H where
  node_take: "e = TakeFlooded \<or> e = TakeAdd \<Longrightarrow> mgr_step H m e (Running m' outs) \<Longrightarrow>
    node_step H (m, MgrSelecting, st, pc) (m', MgrSending outs, st, pc)"
| node_mined: "mgr_step H m (MinedBlock b) (Running m' []) \<Longrightarrow>
    node_step H (m, mpc, st, pc) (m', mpc, st, pc)"
| node_mgr_done: "node_step H (m, MgrSending [], st, pc) (m, MgrSelecting, st, pc)"
| node_mgr_other: "to_managePeers answers out = None \<Longrightarrow>
    node_step H (m, MgrSending (out # outs), st, pc) (m, MgrSending outs, st, pc)"
| node_mgr_sends: "to_managePeers answers out = Some e \<Longrightarrow> is_iter it1 \<Longrightarrow> is_iter it2 \<Longrightarrow> is_iter it3 \<Longrightarrow>
    pm_handle it1 it2 it3 st e = (st', outs') \<Longrightarrow>
    node_step H (m, MgrSending (out # outs), st, Selecting) (m, MgrSending outs, st', Sending outs')"
| node_external: "external e \<Longrightarrow> is_iter it1 \<Longrightarrow> is_iter it2 \<Longrightarrow> is_iter it3 \<Longrightarrow>
    pm_handle it1 it2 it3 st e = (st', outs') \<Longrightarrow>
    node_step H (m, mpc, st, Selecting) (m, mpc, st', Sending outs')"
| node_pm_done: "node_step H (m, mpc, st, Sending []) (m, mpc, st, Selecting)"
| node_pm_other: "to_manager out = None \<Longrightarrow>
    node_step H (m, mpc, st, Sending (out # outs)) (m, mpc, st, Sending outs)"
| node_flooded: "mgr_step H m (PeerBlock b) (Running m' []) \<Longrightarrow>
    node_step H (m, mpc, st, Sending (ReceiveFlooded b # outs)) (m', mpc, st, Sending outs)"
| node_downloaded: "mgr_step H m (Downloaded bs) (Running m' outs') \<Longrightarrow>
    node_step H (m, MgrSelecting, st, Sending (ForwardDownloaded bs # outs)) (m', MgrSending outs', st, Sending outs)"

inductive_cases node_waitE: "node_step H (m, MgrSending (out # outs), st, Sending (ForwardDownloaded bs # outs')) c"

text \<open>Whoever waits for the other goroutine while that one waits too is stuck: only the miner's own
  worker can still put blocks into \<^verbatim>\<open>addBlock\<close>, until it is full.\<close>

lemma node_waiting:
  assumes "\<And>answers. to_managePeers answers out \<noteq> None"
    and "node_step H (m, MgrSending (out # outs), st, Sending (ForwardDownloaded bs # outs')) c"
  shows "\<exists>b m'. c = (m', MgrSending (out # outs), st, Sending (ForwardDownloaded bs # outs')) \<and>
    m' = m\<lparr>mgr_addBlock := mgr_addBlock m @ [b]\<rparr> \<and> length (mgr_addBlock m) < 100"
  using assms(2)
proof (rule node_waitE)
  fix b m' assume "c = (m', MgrSending (out # outs), st, Sending (ForwardDownloaded bs # outs'))"
    and "mgr_step H m (MinedBlock b) (Running m' [])"
  then show ?thesis by (auto elim: mgr_step.cases)
qed (use assms(1) in auto)

lemma node_waiting_forever:
  assumes "\<And>answers. to_managePeers answers out \<noteq> None"
    and "(node_step H)\<^sup>*\<^sup>* (m, MgrSending (out # outs), st, Sending (ForwardDownloaded bs # outs')) c"
  shows "\<exists>m'. c = (m', MgrSending (out # outs), st, Sending (ForwardDownloaded bs # outs')) \<and>
    mgr_blockchain m' = mgr_blockchain m \<and> mgr_receiveFloodedBlock m' = mgr_receiveFloodedBlock m"
  using assms(2)
proof (induction rule: rtranclp_induct)
  case (step c1 c2)
  then obtain m1 where c1: "c1 = (m1, MgrSending (out # outs), st, Sending (ForwardDownloaded bs # outs'))"
      "mgr_blockchain m1 = mgr_blockchain m" "mgr_receiveFloodedBlock m1 = mgr_receiveFloodedBlock m" by blast
  from node_waiting [OF assms(1) step.hyps(2) [unfolded c1(1)]] c1(2,3) show ?case by auto
qed simp

text \<open>The steps up to the download: a block with unknown predecessor arrives from a peer.\<close>

lemma node_starts_download:
  fixes b :: Block
  assumes b: "\<not> HasBlock (mgr_blockchain m) (Hash b)" "\<not> HasBlock (mgr_blockchain m) (PreviousHash b)"
    and m: "mgr_receiveFloodedBlock m = []" "mgr_replayQueue m = []" "map_of (mgr_replayMap m) (PreviousHash b) = None"
    and st: "map_of (pm_blocksToPeers st) (Hash b) = None" "map_of (pm_peers st) pid = Some p"
  obtains m1 st1 where "(node_step H)\<^sup>*\<^sup>* (m, MgrSelecting, st, Selecting) (m1, MgrSelecting, st1, Sending [ForwardDownloaded blocks])"
    "mgr_blockchain m1 = mgr_blockchain m" "mgr_addBlock m1 = mgr_addBlock m"
proof -
  let ?req = "\<lparr>flood_Block = b, FromMinerId = pid\<rparr>" and ?answers = "\<lambda>_. Inr blocks :: string + Block list"
  let ?st1 = "st\<lparr>pm_blocksToPeers := AList.update (Hash b) [pid] (pm_blocksToPeers st)\<rparr>"
  let ?m0 = "m\<lparr>mgr_receiveFloodedBlock := [b]\<rparr>"
  let ?m1 = "m\<lparr>mgr_receiveFloodedBlock := [], mgr_replayQueue := [b], mgr_replayMap := AList.update (Hash b) () (mgr_replayMap m)\<rparr>"
  have "pm_handle (\<lambda>m. m) (\<lambda>m. m) (\<lambda>m. m) st (ReceivedBlock ?req) = (?st1, [ReceiveFlooded b])"
    using st(1) by (simp add: pm_handle_def pm_received_block_def)
  then have "(node_step H)\<^sup>*\<^sup>* (m, MgrSelecting, st, Selecting) (m, MgrSelecting, ?st1, Sending [ReceiveFlooded b])"
    by (intro r_into_rtranclp node_external [where e = "ReceivedBlock ?req" and ?it1.0 = "\<lambda>m. m" and ?it2.0 = "\<lambda>m. m" and ?it3.0 = "\<lambda>m. m"]) simp_all
  also have "mgr_step H m (PeerBlock b) (Running ?m0 [])"
    using step_peer [of m H b] m(1) by simp
  then have "node_step H (m, MgrSelecting, ?st1, Sending [ReceiveFlooded b]) (?m0, MgrSelecting, ?st1, Sending [])"
    by (rule node_flooded)
  also have "node_step H (?m0, MgrSelecting, ?st1, Sending []) (?m0, MgrSelecting, ?st1, Selecting)"
    by (rule node_pm_done)
  also have "mgr_step H ?m0 TakeFlooded (Running ?m1 [DownloadBlock b])"
    using step_flooded [of ?m0 b "[]" H] b m by (simp add: mgr_flooded_def)
  then have "node_step H (?m0, MgrSelecting, ?st1, Selecting) (?m1, MgrSending [DownloadBlock b], ?st1, Selecting)"
    using node_take [of TakeFlooded] by blast
  also have "pm_handle (\<lambda>m. m) (\<lambda>m. m) (\<lambda>m. m) ?st1 (DownloadPrev b ?answers) =
      (?st1, [RequestBlocks p (PreviousHash b), ForwardDownloaded blocks])"
    using st(2) by (simp add: pm_handle_def pm_download_def update_conv')
  then have "node_step H (?m1, MgrSending [DownloadBlock b], ?st1, Selecting)
      (?m1, MgrSending [], ?st1, Sending [RequestBlocks p (PreviousHash b), ForwardDownloaded blocks])"
    by (intro node_mgr_sends [where answers = ?answers and ?it1.0 = "\<lambda>m. m" and ?it2.0 = "\<lambda>m. m" and ?it3.0 = "\<lambda>m. m"]) simp_all
  also have "node_step H \<dots> (?m1, MgrSending [], ?st1, Sending [ForwardDownloaded blocks])"
    by (rule node_pm_other) simp
  also have "node_step H \<dots> (?m1, MgrSelecting, ?st1, Sending [ForwardDownloaded blocks])"
    by (rule node_mgr_done)
  finally show ?thesis using that by simp
qed

text \<open>C30: A miner that mines a block while it downloads deadlocks. When the manager takes a mined block
  after it has asked for a download, it waits to send the new block to \<^verbatim>\<open>managePeers\<close>, which
  waits to hand over the downloaded blocks to the manager. From every state at rest such a run exists, and
  after it the tree never changes again and neither goroutine ever gets to its \<^verbatim>\<open>select\<close>.\<close>

theorem mining_during_download_deadlocks:
  fixes b :: Block
  assumes inv: "bc_inv (mgr_blockchain m)"
    and b: "\<not> HasBlock (mgr_blockchain m) (Hash b)" "\<not> HasBlock (mgr_blockchain m) (PreviousHash b)"
    and m: "mgr_receiveFloodedBlock m = []" "mgr_replayQueue m = []" "map_of (mgr_replayMap m) (PreviousHash b) = None"
      "mgr_addBlock m = []"
    and st: "map_of (pm_blocksToPeers st) (Hash b) = None" "map_of (pm_peers st) pid = Some p"
    and it: "is_iter it1" "is_iter it2" and mined: "AddBlock H it1 it2 (mgr_blockchain m) c = Some (Inr bc)"
  shows "\<exists>m' st' outs. (node_step H)\<^sup>*\<^sup>* (m, MgrSelecting, st, Selecting)
      (m', MgrSending (SendBlock c # outs), st', Sending [ForwardDownloaded blocks]) \<and>
    (\<forall>n. (node_step H)\<^sup>*\<^sup>* (m', MgrSending (SendBlock c # outs), st', Sending [ForwardDownloaded blocks]) n \<longrightarrow>
       (\<exists>m''. n = (m'', MgrSending (SendBlock c # outs), st', Sending [ForwardDownloaded blocks]) \<and>
          mgr_blockchain m'' = mgr_blockchain m' \<and> mgr_receiveFloodedBlock m'' = mgr_receiveFloodedBlock m'))"
proof -
  obtain m1 st1 where run: "(node_step H)\<^sup>*\<^sup>* (m, MgrSelecting, st, Selecting) (m1, MgrSelecting, st1, Sending [ForwardDownloaded blocks])"
    and m1: "mgr_blockchain m1 = mgr_blockchain m" "mgr_addBlock m1 = []"
    using node_starts_download [OF b m(1-3) st] m(4) by metis
  let ?m2 = "m1\<lparr>mgr_addBlock := [c]\<rparr>" and ?pc = "Sending [ForwardDownloaded blocks]"
  have eq: "?m2\<lparr>mgr_addBlock := []\<rparr> = m1" using m1(2) by simp
  obtain m3 where "mgr_add H it1 it2 m1 c = Some (Running m3 [NewBlockAdded, SendBlock c, ContinueMining])"
    using mgr_add_cases [OF inv [folded m1(1)] it, of H c] mined m1(1) by (metis option.inject sum.distinct(1))
  then have take: "mgr_step H ?m2 TakeAdd (Running m3 [NewBlockAdded, SendBlock c, ContinueMining])"
    using step_add [of ?m2 c "[]" it1 it2 H] it eq by simp
  note run
  also have "mgr_step H m1 (MinedBlock c) (Running ?m2 [])" using step_mined [of m1 H c] m1(2) by simp
  then have "node_step H (m1, MgrSelecting, st1, ?pc) (?m2, MgrSelecting, st1, ?pc)" by (rule node_mined)
  also have "node_step H \<dots> (m3, MgrSending [NewBlockAdded, SendBlock c, ContinueMining], st1, ?pc)"
    using node_take [of TakeAdd] take by blast
  also have "node_step H \<dots> (m3, MgrSending [SendBlock c, ContinueMining], st1, ?pc)"
    by (rule node_mgr_other) simp
  finally have "(node_step H)\<^sup>*\<^sup>* (m, MgrSelecting, st, Selecting) (m3, MgrSending [SendBlock c, ContinueMining], st1, ?pc)" .
  moreover have "\<And>answers. to_managePeers answers (SendBlock c) \<noteq> None" by simp
  note node_waiting_forever [OF this, of H m3 "[ContinueMining]" st1 blocks "[]"]
  ultimately show ?thesis by blast
qed

theorem mining_during_download_deadlocks_witness:
  "\<exists>m' st' outs. (node_step sample_host)\<^sup>*\<^sup>*
      (NewChainManager tree0 sample_cfg, MgrSelecting, peers_after sample_cfg [NewPeer (sample_peer ''B'')], Selecting)
      (m', MgrSending (SendBlock block1 # outs), st', Sending [ForwardDownloaded [block1, block2]])"
proof -
  let ?m = "NewChainManager tree0 sample_cfg" and ?st = "peers_after sample_cfg [NewPeer (sample_peer ''B'')]"
  have m: "mgr_blockchain ?m = tree0" "mgr_receiveFloodedBlock ?m = []" "mgr_replayQueue ?m = []"
    "map_of (mgr_replayMap ?m) (PreviousHash block3) = None" "mgr_addBlock ?m = []"
    by (simp_all add: NewChainManager_def)
  have b: "\<not> HasBlock tree0 (Hash block3)" "\<not> HasBlock tree0 (PreviousHash block3)"
    by (simp_all add: HasBlock_def sample_map)
  have "pm_blocksToPeers ?st = []" "pm_peers ?st = [(''B'', sample_peer ''B'')]"
    by (simp_all add: peers_after_def pm_handle_def pm_new_peer_def NewPeerManager_def sample_peer_def Let_def)
  then have st: "map_of (pm_blocksToPeers ?st) (Hash block3) = None" "map_of (pm_peers ?st) ''B'' = Some (sample_peer ''B'')"
    by simp_all
  from mining_during_download_deadlocks [of ?m block3 ?st "''B''" "sample_peer ''B''" "\<lambda>m. m" "\<lambda>m. m" sample_host block1 tree1 "[block1, block2]",
      unfolded m(1), OF sample_inv(1) b m(2-5) st is_iter_id is_iter_id sample_adds(1) [OF is_iter_id is_iter_id sample_inv(1)]]
  show ?thesis by blast
qed

section \<open>Without a download\<close>

fun is_flooded :: "pm_output \<Rightarrow> bool" where
  "is_flooded (ReceiveFlooded b) = True"
| "is_flooded out = False"

fun is_forward :: "pm_output \<Rightarrow> bool" where
  "is_forward (ForwardDownloaded bs) = True"
| "is_forward out = False"

lemma node_drain_peers:
  assumes "filter is_forward outs = []" "length (mgr_receiveFloodedBlock m) + length (filter is_flooded outs) \<le> 1000"
  shows "\<exists>m'. (node_step H)\<^sup>*\<^sup>* (m, mpc, st, Sending outs) (m', mpc, st, Selecting) \<and>
    mgr_blockchain m' = mgr_blockchain m \<and> length (mgr_receiveFloodedBlock m') \<le> 1000"
  using assms
proof (induction outs arbitrary: m)
  case Nil
  then show ?case using node_pm_done [of H m mpc st] by (intro exI [of _ m]) auto
next
  case (Cons out outs)
  obtain m1 where m1: "node_step H (m, mpc, st, Sending (out # outs)) (m1, mpc, st, Sending outs)"
      "mgr_blockchain m1 = mgr_blockchain m" "length (mgr_receiveFloodedBlock m1) + length (filter is_flooded outs) \<le> 1000"
  proof (cases out)
    case (ReceiveFlooded b)
    then have "mgr_step H m (PeerBlock b) (Running (m\<lparr>mgr_receiveFloodedBlock := mgr_receiveFloodedBlock m @ [b]\<rparr>) [])"
      using Cons.prems(2) by (intro step_peer) simp
    from node_flooded [OF this] show ?thesis using that ReceiveFlooded Cons.prems(2) by fastforce
  next
    case (ForwardDownloaded bs)
    with Cons.prems(1) show ?thesis by simp
  qed (use that [OF node_pm_other] Cons.prems in auto)
  have "filter is_forward outs = []" using Cons.prems(1) by (simp split: if_splits)
  from Cons.IH [OF this m1(3)] m1(1,2) show ?case by (metis converse_rtranclp_into_rtranclp)
qed

lemma node_drain_manager:
  assumes "\<And>b. DownloadBlock b \<notin> set outs" "length (mgr_receiveFloodedBlock m) \<le> 1000"
  shows "\<exists>m' st'. (node_step H)\<^sup>*\<^sup>* (m, MgrSending outs, st, Selecting) (m', MgrSelecting, st', Selecting) \<and>
    mgr_blockchain m' = mgr_blockchain m"
  using assms
proof (induction outs arbitrary: m st)
  case Nil
  then show ?case using node_mgr_done by blast
next
  case (Cons out outs)
  have rest: "\<And>b. DownloadBlock b \<notin> set outs" using Cons.prems(1) by simp
  show ?case
  proof (cases "to_managePeers (\<lambda>_. Inl []) out")
    case None
    from node_mgr_other [OF this] Cons.IH [OF rest Cons.prems(2)] show ?thesis
      by (meson converse_rtranclp_into_rtranclp)
  next
    case (Some e)
    obtain st1 outs1 where h: "pm_handle (\<lambda>m. m) (\<lambda>m. m) (\<lambda>m. m) st e = (st1, outs1)" by fastforce
    note send = node_mgr_sends [OF Some is_iter_id is_iter_id is_iter_id h, of H m outs]
    have "\<not> is_forward x \<and> \<not> is_flooded x" if x: "x \<in> set outs1" for x
    proof (cases out)
      case (SendBlock b)
      then have "outs1 = snd (pm_send_block (\<lambda>m. m) st b)" using Some h by (auto simp: pm_handle_def)
      then show ?thesis using pm_send_block_outputs x by fastforce
    next
      case ContinueMining
      then show ?thesis using Some h x by (auto simp: pm_handle_def pm_continue_mining_def split: if_splits)
    qed (use Some Cons.prems(1) in auto)
    then have "filter is_forward outs1 = []" "filter is_flooded outs1 = []" by (simp_all add: filter_empty_conv)
    then obtain m2 where m2: "(node_step H)\<^sup>*\<^sup>* (m, MgrSending outs, st1, Sending outs1) (m2, MgrSending outs, st1, Selecting)"
        "mgr_blockchain m2 = mgr_blockchain m" "length (mgr_receiveFloodedBlock m2) \<le> 1000"
      using node_drain_peers [of outs1 m H "MgrSending outs" st1] Cons.prems(2) by auto
    obtain m3 st3 where r3: "(node_step H)\<^sup>*\<^sup>* (m2, MgrSending outs, st1, Selecting) (m3, MgrSelecting, st3, Selecting)"
        "mgr_blockchain m3 = mgr_blockchain m2"
      using Cons.IH [OF rest m2(3)] by blast
    show ?thesis
      using converse_rtranclp_into_rtranclp [OF send rtranclp_trans [OF m2(1) r3(1)]] r3(2) m2(2) by auto
  qed
qed

text \<open>Only downloads bring the two goroutines into this situation: as long as
  \<^verbatim>\<open>managePeers\<close> has no downloaded blocks to hand over, the manager no request to send, and the
  channel of flooded blocks has room, a run brings both back to their \<^verbatim>\<open>select\<close>, with the
  same tree.\<close>

theorem node_settles:
  assumes "filter is_forward outs' = []" "\<And>b. DownloadBlock b \<notin> set outs"
    and "length (mgr_receiveFloodedBlock m) + length (filter is_flooded outs') \<le> 1000"
  shows "\<exists>m' st'. (node_step H)\<^sup>*\<^sup>* (m, MgrSending outs, st, Sending outs') (m', MgrSelecting, st', Selecting) \<and>
    mgr_blockchain m' = mgr_blockchain m"
proof -
  obtain m1 where m1: "(node_step H)\<^sup>*\<^sup>* (m, MgrSending outs, st, Sending outs') (m1, MgrSending outs, st, Selecting)"
      "mgr_blockchain m1 = mgr_blockchain m" "length (mgr_receiveFloodedBlock m1) \<le> 1000"
    using node_drain_peers [OF assms(1,3)] by blast
  obtain m2 st2 where m2: "(node_step H)\<^sup>*\<^sup>* (m1, MgrSending outs, st, Selecting) (m2, MgrSelecting, st2, Selecting)"
      "mgr_blockchain m2 = mgr_blockchain m1"
    using node_drain_manager [OF assms(2) m1(3), of H st] by blast
  then show ?thesis using rtranclp_trans [OF m1(1) m2(1)] m1(2) by auto
qed

theorem node_settles_witness:
  "\<exists>m' st'. (node_step sample_host)\<^sup>*\<^sup>*
      (NewChainManager tree1 sample_cfg, MgrSending [NewBlockAdded, SendBlock block1, ContinueMining],
       peers_after sample_cfg [NewPeer (sample_peer ''B'')], Sending [ReceiveFlooded block2, Mine])
      (m', MgrSelecting, st', Selecting) \<and> mgr_blockchain m' = tree1"
  using node_settles [of "[ReceiveFlooded block2, Mine]" "[NewBlockAdded, SendBlock block1, ContinueMining]"
      "NewChainManager tree1 sample_cfg" sample_host "peers_after sample_cfg [NewPeer (sample_peer ''B'')]"]
  by (simp add: NewChainManager_def)

section \<open>Two miners\<close>

text \<open>
  Two miners that are peers of each other. Each has \<^verbatim>\<open>managePeers\<close> and the goroutine for
  the other miner. A call of \<^verbatim>\<open>FloodOperation\<close> or \<^verbatim>\<open>FloodBlock\<close> returns when the
  other miner's \<^verbatim>\<open>managePeers\<close> has taken the request at its \<^verbatim>\<open>select\<close>. A client of a
  miner can send it an operation at any time.
\<close>

type_synonym miner_side = "PeerManager \<times> pm_pc \<times> peer_pc"

fun call_event :: "peer_call \<Rightarrow> pm_event option" where
  "call_event (CallFloodOperation req) = Some (fst (FloodOperation req))"
| "call_event (CallFloodBlock req) = Some (FloodBlock req)"
| "call_event c = None"

text \<open>The steps of one miner alone; \<open>p\<close> is its peer.\<close>

inductive side_step :: "Peer \<Rightarrow> miner_side \<Rightarrow> miner_side \<Rightarrow> bool" for p where
  side_client: "is_iter it1 \<Longrightarrow> is_iter it2 \<Longrightarrow> is_iter it3 \<Longrightarrow>
    pm_handle it1 it2 it3 st (FloodOp \<lparr>flood_Operation = oper, IgnoreMiners = []\<rparr>) = (st', outs) \<Longrightarrow>
    side_step p (st, Selecting, pc) (st', Sending outs, pc)"
| side_done: "side_step p (st, Sending [], pc) (st, Selecting, pc)"
| side_send: "to_peer p out = Some c \<Longrightarrow>
    side_step p (st, Sending (out # outs), PeerSelecting) (st, Sending outs, InCall c)"
| side_other: "to_peer p out = None \<Longrightarrow>
    side_step p (st, Sending (out # outs), pc) (st, Sending outs, pc)"

text \<open>A call from the left miner is served by the right one, and the other way round.\<close>

inductive pair_step :: "Peer \<Rightarrow> Peer \<Rightarrow> miner_side \<times> miner_side \<Rightarrow> miner_side \<times> miner_side \<Rightarrow> bool" for p q where
  pair_left: "side_step p a a' \<Longrightarrow> pair_step p q (a, b) (a', b)"
| pair_right: "side_step q b b' \<Longrightarrow> pair_step p q (a, b) (a, b')"
| pair_call_right: "call_event c = Some e \<Longrightarrow> is_iter it1 \<Longrightarrow> is_iter it2 \<Longrightarrow> is_iter it3 \<Longrightarrow>
    pm_handle it1 it2 it3 st e = (st', outs) \<Longrightarrow>
    pair_step p q ((sta, pca, InCall c), (st, Selecting, pcb)) ((sta, pca, PeerSelecting), (st', Sending outs, pcb))"
| pair_call_left: "call_event c = Some e \<Longrightarrow> is_iter it1 \<Longrightarrow> is_iter it2 \<Longrightarrow> is_iter it3 \<Longrightarrow>
    pm_handle it1 it2 it3 st e = (st', outs) \<Longrightarrow>
    pair_step p q ((st, Selecting, pca), (stb, pcb, InCall c)) ((st', Sending outs, pca), (stb, pcb, PeerSelecting))"

inductive_cases side_blockedE: "side_step p (st, Sending (out # outs), InCall c) a"
inductive_cases pair_blockedE: "pair_step p q ((st, Sending (out # outs), InCall c), (st', Sending (out' # outs'), InCall c')) l"

lemma pair_blocked:
  assumes "to_peer p out \<noteq> None" "to_peer q out' \<noteq> None"
  shows "\<not> pair_step p q ((st, Sending (out # outs), InCall c), (st', Sending (out' # outs'), InCall c')) l"
  using assms by (auto elim!: pair_blockedE side_blockedE)

text \<open>A miner with two operations of its clients comes to wait for its peer goroutine, which waits for
  the other miner.\<close>

lemma side_skip:
  "(\<And>out. out \<in> set pre \<Longrightarrow> to_peer p out = None) \<Longrightarrow> (side_step p)\<^sup>*\<^sup>* (st, Sending (pre @ outs), pc) (st, Sending outs, pc)"
proof (induction pre)
  case (Cons out pre)
  then have "side_step p (st, Sending (out # pre @ outs), pc) (st, Sending (pre @ outs), pc)" by (intro side_other) simp
  with Cons show ?case by (simp add: converse_rtranclp_into_rtranclp)
qed simp

lemma side_two_operations:
  assumes "peers_inv st" "(peer_MinerID p, p) \<in> set (pm_peers st)"
  shows "\<exists>req outs c. (side_step p)\<^sup>*\<^sup>* (st, Selecting, PeerSelecting) (st, Sending (SendOpTo p req # outs), InCall c)"
proof -
  obtain pre req post where h: "pm_handle (\<lambda>m. m) (\<lambda>m. m) (\<lambda>m. m) st
        (FloodOp \<lparr>flood_Operation = sample_op Create [] [] [], IgnoreMiners = []\<rparr>) = (st, pre @ SendOpTo p req # post)"
      and free: "\<And>out. out \<in> set pre \<union> set post \<Longrightarrow> to_peer p out = None \<and> out \<noteq> CloseDone p"
    using flood_splits [OF assms] by metis
  have flood: "(side_step p)\<^sup>*\<^sup>* (st, Selecting, pc) (st, Sending (SendOpTo p req # post), pc)" for pc
  proof -
    have "side_step p (st, Selecting, pc) (st, Sending (pre @ SendOpTo p req # post), pc)"
      by (rule side_client [OF is_iter_id is_iter_id is_iter_id h])
    also have "(side_step p)\<^sup>*\<^sup>* \<dots> (st, Sending (SendOpTo p req # post), pc)"
      by (rule side_skip) (use free in auto)
    finally show ?thesis .
  qed
  note flood [of PeerSelecting]
  also have "side_step p (st, Sending (SendOpTo p req # post), PeerSelecting) (st, Sending post, InCall (CallFloodOperation req))"
    by (rule side_send) simp
  also have "(side_step p)\<^sup>*\<^sup>* (st, Sending post, InCall (CallFloodOperation req)) (st, Sending [], InCall (CallFloodOperation req))"
    using side_skip [of post p st "[]"] free by simp
  also have "side_step p \<dots> (st, Selecting, InCall (CallFloodOperation req))" by (rule side_done)
  also note flood [of "InCall (CallFloodOperation req)"]
  finally show ?thesis by blast
qed

lemma pair_runs:
  "(side_step p)\<^sup>*\<^sup>* a a' \<Longrightarrow> (pair_step p q)\<^sup>*\<^sup>* (a, b) (a', b)"
  "(side_step q)\<^sup>*\<^sup>* b b' \<Longrightarrow> (pair_step p q)\<^sup>*\<^sup>* (a, b) (a, b')"
  by (induction rule: rtranclp_induct; blast intro: pair_left pair_right rtranclp.rtrancl_into_rtrancl)+

text \<open>C31: Two connected miners whose clients send operations at the same time can stop each other without
  any failure: with two operations on each side, both \<^verbatim>\<open>managePeers\<close> wait for the goroutine
  of the peer, and both these goroutines wait in a call for the \<^verbatim>\<open>managePeers\<close> of the other
  miner. From every state at rest such a state can be reached, and no step leads out of it.\<close>

theorem simultaneous_floods_deadlock:
  assumes "peers_inv sta" "(peer_MinerID p, p) \<in> set (pm_peers sta)"
    and "peers_inv stb" "(peer_MinerID q, q) \<in> set (pm_peers stb)"
  shows "\<exists>a b. (pair_step p q)\<^sup>*\<^sup>* ((sta, Selecting, PeerSelecting), (stb, Selecting, PeerSelecting)) (a, b) \<and>
    (\<forall>l. \<not> pair_step p q (a, b) l)"
proof -
  obtain req outs c where a: "(side_step p)\<^sup>*\<^sup>* (sta, Selecting, PeerSelecting) (sta, Sending (SendOpTo p req # outs), InCall c)"
    using side_two_operations [OF assms(1,2)] by blast
  obtain req' outs' c' where b: "(side_step q)\<^sup>*\<^sup>* (stb, Selecting, PeerSelecting) (stb, Sending (SendOpTo q req' # outs'), InCall c')"
    using side_two_operations [OF assms(3,4)] by blast
  have "(pair_step p q)\<^sup>*\<^sup>* ((sta, Selecting, PeerSelecting), (stb, Selecting, PeerSelecting))
      ((sta, Sending (SendOpTo p req # outs), InCall c), (stb, Sending (SendOpTo q req' # outs'), InCall c'))"
    using rtranclp_trans [OF pair_runs(1) [OF a] pair_runs(2) [OF b]] .
  moreover have "\<not> pair_step p q ((sta, Sending (SendOpTo p req # outs), InCall c), (stb, Sending (SendOpTo q req' # outs'), InCall c')) l" for l
    by (rule pair_blocked) simp_all
  ultimately show ?thesis by blast
qed

theorem simultaneous_floods_deadlock_witness:
  "\<exists>a b. (pair_step (sample_peer ''B'') (sample_peer ''A''))\<^sup>*\<^sup>*
      ((peers_after sample_cfg [NewPeer (sample_peer ''B'')], Selecting, PeerSelecting),
       (peers_after sample_cfg [NewPeer (sample_peer ''A'')], Selecting, PeerSelecting)) (a, b) \<and>
    (\<forall>l. \<not> pair_step (sample_peer ''B'') (sample_peer ''A'') (a, b) l)"
proof -
  have "pm_peers (peers_after sample_cfg [NewPeer (sample_peer x)]) = [(x, sample_peer x)]" for x
    by (simp add: peers_after_def pm_handle_peers NewPeerManager_def sample_peer_def)
  then have "peers_inv (peers_after sample_cfg [NewPeer (sample_peer x)])"
      "(peer_MinerID (sample_peer x), sample_peer x) \<in> set (pm_peers (peers_after sample_cfg [NewPeer (sample_peer x)]))" for x
    by (simp_all add: peers_inv_def sample_peer_def)
  from simultaneous_floods_deadlock [OF this this] show ?thesis .
qed

end
