(* ===== verification/P2p_Resolver.thy ===== *)
theory P2p_Resolver
  imports Bclib_Sample
begin

text \<open>
  \<^verbatim>\<open>p2p/chain_resolver.go\<close>: the bookkeeping of blocks whose predecessors are being
  downloaded. A chain manager creates a resolver but does not call its methods yet. The requests sent on
  \<^verbatim>\<open>downloadBlock\<close> and the blocks sent on \<^verbatim>\<open>addBlock\<close> are part of the results.
\<close>

record ChainResolver =
  blocksToResolve :: "(string, Block list) gomap"
  waitingBlocks :: "(string, string) gomap"

definition NewChainResolver :: ChainResolver where
  "NewChainResolver = \<lparr>blocksToResolve = [], waitingBlocks = []\<rparr>"

text \<open>Reading a Go map gives the zero value for a missing key.\<close>

definition get_default :: "'v \<Rightarrow> ('k, 'v) gomap \<Rightarrow> 'k \<Rightarrow> 'v" where
  "get_default zero mp k = (case map_of mp k of None \<Rightarrow> zero | Some v \<Rightarrow> v)"

fun contains :: "Block list \<Rightarrow> string \<Rightarrow> bool" where
  "contains [] hash = False"
| "contains (b # blocks) hash = (if Hash b = hash then True else contains blocks hash)"

definition addPendingDownload :: "ChainResolver \<Rightarrow> Block \<Rightarrow> ChainResolver" where
  "addPendingDownload c block =
     (let pendingBlocks =
            (case map_of (blocksToResolve c) (PreviousHash block) of
               None \<Rightarrow> [block]
             | Some pendingBlocks \<Rightarrow>
                 if \<not> contains pendingBlocks (Hash block) then pendingBlocks @ [block] else pendingBlocks)
      in c\<lparr>blocksToResolve := AList.update (PreviousHash block) pendingBlocks (blocksToResolve c)\<rparr>)"

definition hasPendingDownloadForHash :: "ChainResolver \<Rightarrow> string \<Rightarrow> bool" where
  "hasPendingDownloadForHash c hash \<longleftrightarrow> map_of (blocksToResolve c) hash \<noteq> None"

partial_function (option) pending_loop :: "ChainResolver \<Rightarrow> Block \<Rightarrow> string \<Rightarrow> ChainResolver option" where
  "pending_loop c block pendingDownload =
     (if pendingDownload \<noteq> [] then
        (let blocks = get_default [] (blocksToResolve c) pendingDownload;
             c' = (if \<not> contains blocks (Hash block)
                   then c\<lparr>blocksToResolve := AList.update pendingDownload (blocks @ [block]) (blocksToResolve c)\<rparr>
                   else c)
         in pending_loop c' block (get_default [] (waitingBlocks c') pendingDownload))
      else Some c)"

definition findPendingDownloadForBlock :: "ChainResolver \<Rightarrow> Block \<Rightarrow> (ChainResolver \<times> string) option" where
  "findPendingDownloadForBlock c block =
     do {
       c' \<leftarrow> pending_loop c block (get_default [] (waitingBlocks c) (PreviousHash block));
       Some (c', get_default [] (waitingBlocks c') (Hash block))
     }"

definition addWaitingBlockForHash :: "ChainResolver \<Rightarrow> string \<Rightarrow> string \<Rightarrow> ChainResolver" where
  "addWaitingBlockForHash c hash previousHash =
     c\<lparr>waitingBlocks := AList.update hash previousHash (waitingBlocks c)\<rparr>"

definition getPendingBlocksForDownload :: "ChainResolver \<Rightarrow> string \<Rightarrow> Block list" where
  "getPendingBlocksForDownload c hash = get_default [] (blocksToResolve c) hash"

definition ResolveFloodedBlock :: "ChainResolver \<Rightarrow> Block \<Rightarrow> (ChainResolver \<times> bytes list) option" where
  "ResolveFloodedBlock c block =
     (let hash = Hash block;
          prevHash = PreviousHash block
      in if hasPendingDownloadForHash c prevHash then
           Some (addWaitingBlockForHash (addPendingDownload c block) hash prevHash, [])
         else
           do {
             (c', pendingDownload) \<leftarrow> findPendingDownloadForBlock c block;
             Some
               (if pendingDownload = [] then
                  (addWaitingBlockForHash (addPendingDownload c' block) hash prevHash, [prevHash])
                else if hasPendingDownloadForHash c' pendingDownload then
                  (addWaitingBlockForHash (addPendingDownload c' block) hash prevHash, [])
                else (addPendingDownload c' block, [prevHash]))
           })"

definition ResolveAddedBlock :: "ChainResolver \<Rightarrow> string \<Rightarrow> ChainResolver \<times> Block list" where
  "ResolveAddedBlock c hash =
     (let pendingDownBlocks = get_default [] (blocksToResolve c) hash
      in (c\<lparr>waitingBlocks := fold (\<lambda>waitingBlock. AList.delete (Hash waitingBlock)) pendingDownBlocks (waitingBlocks c),
            blocksToResolve := AList.delete hash (blocksToResolve c)\<rparr>, pendingDownBlocks))"

section \<open>Termination of the search\<close>

text \<open>The chain of waiting blocks from a hash ends.\<close>

inductive wait_ends :: "(string, string) gomap \<Rightarrow> string \<Rightarrow> bool" for w where
  wait_none: "wait_ends w []"
| wait_next: "wait_ends w (get_default [] w h) \<Longrightarrow> wait_ends w h"

lemma contains_iff: "contains blocks h \<longleftrightarrow> (\<exists>b \<in> set blocks. Hash b = h)"
  by (induction blocks) auto

lemma pending_loop_ends:
  assumes "wait_ends w h" "waitingBlocks c = w"
  shows "\<exists>c'. pending_loop c block h = Some c'"
  using assms
proof (induction arbitrary: c rule: wait_ends.induct)
  case wait_none
  then show ?case by (simp add: pending_loop.simps)
next
  case (wait_next h)
  show ?case
  proof (cases "h = []")
    case False
    let ?bs = "get_default [] (blocksToResolve c) h"
    define c' where "c' = (if \<not> contains ?bs (Hash block)
      then c\<lparr>blocksToResolve := AList.update h (?bs @ [block]) (blocksToResolve c)\<rparr> else c)"
    have w: "waitingBlocks c' = waitingBlocks c" by (simp add: c'_def)
    have "pending_loop c block h = pending_loop c' block (get_default [] (waitingBlocks c') h)"
      using False by (subst pending_loop.simps) (simp add: c'_def Let_def)
    with wait_next.IH [of c'] wait_next.prems w show ?thesis by simp
  qed (simp add: pending_loop.simps)
qed

lemma pending_loop_Some: "pending_loop c block h = Some c' \<Longrightarrow> wait_ends (waitingBlocks c) h"
proof (rule pending_loop.raw_induct [where P = "\<lambda>c block h c'. wait_ends (waitingBlocks c) h"])
  fix f :: "ChainResolver \<Rightarrow> Block \<Rightarrow> string \<Rightarrow> ChainResolver option" and c block h c'
  assume IH: "\<And>c block h c'. f c block h = Some c' \<Longrightarrow> wait_ends (waitingBlocks c) h"
    and run: "(if h \<noteq> [] then let blocks = get_default [] (blocksToResolve c) h;
          c' = if \<not> contains blocks (Hash block)
               then c\<lparr>blocksToResolve := AList.update h (blocks @ [block]) (blocksToResolve c)\<rparr> else c
        in f c' block (get_default [] (waitingBlocks c') h) else Some c) = Some c'"
  show "wait_ends (waitingBlocks c) h"
  proof (cases "h = []")
    case False
    then have "wait_ends (waitingBlocks c) (get_default [] (waitingBlocks c) h)"
      using IH run by (fastforce simp: Let_def split: if_splits)
    then show ?thesis by (rule wait_ends.wait_next)
  qed (simp add: wait_none)
qed

lemma addPendingDownload_lists:
  "\<exists>b \<in> set (getPendingBlocksForDownload (addPendingDownload c block) (PreviousHash block)). Hash b = Hash block"
  by (auto simp: addPendingDownload_def getPendingBlocksForDownload_def get_default_def contains_iff split: option.split)

lemma ResolveFloodedBlock_outcome:
  "(case ResolveFloodedBlock c block of
      None \<Rightarrow> \<not> hasPendingDownloadForHash c (PreviousHash block) \<and>
        \<not> wait_ends (waitingBlocks c) (get_default [] (waitingBlocks c) (PreviousHash block))
    | Some (c', reqs) \<Rightarrow>
        (hasPendingDownloadForHash c (PreviousHash block) \<or>
          wait_ends (waitingBlocks c) (get_default [] (waitingBlocks c) (PreviousHash block))) \<and>
        reqs \<in> {[], [PreviousHash block]} \<and>
        contains (snd (ResolveAddedBlock c' (PreviousHash block))) (Hash block))"
proof -
  have listed: "contains (snd (ResolveAddedBlock (addPendingDownload c1 block) (PreviousHash block))) (Hash block)" for c1
    using addPendingDownload_lists [of c1 block]
    by (simp add: ResolveAddedBlock_def getPendingBlocksForDownload_def contains_iff Let_def)
  then have listed': "contains (snd (ResolveAddedBlock (addWaitingBlockForHash (addPendingDownload c1 block) h p)
      (PreviousHash block))) (Hash block)" for c1 h p
    by (simp add: ResolveAddedBlock_def addWaitingBlockForHash_def Let_def)
  let ?h = "get_default [] (waitingBlocks c) (PreviousHash block)"
  show ?thesis
  proof (cases "hasPendingDownloadForHash c (PreviousHash block)")
    case True
    then show ?thesis using listed' by (simp add: ResolveFloodedBlock_def Let_def)
  next
    case False
    show ?thesis
    proof (cases "pending_loop c block ?h")
      case None
      then have "\<not> wait_ends (waitingBlocks c) ?h" using pending_loop_ends [OF _ refl, of c ?h block] by auto
      with None False show ?thesis by (simp add: ResolveFloodedBlock_def findPendingDownloadForBlock_def Let_def)
    next
      case (Some c1)
      with False pending_loop_Some [OF Some] listed listed' show ?thesis
        by (simp add: ResolveFloodedBlock_def findPendingDownloadForBlock_def Let_def)
    qed
  qed
qed

text \<open>C28: A flooded block is not forgotten. \<^verbatim>\<open>ResolveFloodedBlock\<close> returns exactly when a
  download of the previous block is pending or the chain of waiting blocks from the previous block ends.
  Then the block is recorded: when the previous block has been added,
  \<^verbatim>\<open>ResolveAddedBlock\<close> sends a block with its hash; and at most one download is
  requested, of the previous block.\<close>

theorem flooded_block_resolved:
  "(case ResolveFloodedBlock c block of
      None \<Rightarrow> \<not> hasPendingDownloadForHash c (PreviousHash block) \<and>
        \<not> wait_ends (waitingBlocks c) (get_default [] (waitingBlocks c) (PreviousHash block))
    | Some (c', reqs) \<Rightarrow>
        (hasPendingDownloadForHash c (PreviousHash block) \<or>
          wait_ends (waitingBlocks c) (get_default [] (waitingBlocks c) (PreviousHash block))) \<and>
        reqs \<in> {[], [PreviousHash block]} \<and>
        contains (snd (ResolveAddedBlock c' (PreviousHash block))) (Hash block))"
  by (rule ResolveFloodedBlock_outcome)

section \<open>Blocks that wait for each other\<close>

lemma not_wait_ends:
  assumes "wait_ends w h" "h \<in> S" "[] \<notin> S" "\<And>x. x \<in> S \<Longrightarrow> get_default [] w x \<in> S"
  shows False
  using assms(1,2) by (induction rule: wait_ends.induct) (use assms(3,4) in auto)

fun resolve_all :: "ChainResolver \<Rightarrow> Block list \<Rightarrow> ChainResolver option" where
  "resolve_all c [] = Some c"
| "resolve_all c (b # bs) = do { (c', reqs) \<leftarrow> ResolveFloodedBlock c b; resolve_all c' bs }"

text \<open>Four blocks of a peer can make the resolver loop forever: two blocks that name each other as
  predecessors, a block on top of one of them and a block on top of that one.\<close>

theorem cyclic_blocks_hang_resolver:
  assumes "distinct [x, y, p, q]" "[] \<notin> set [x, y, p, q]"
    and "Hash bx = x" "PreviousHash bx = y" "Hash by = y" "PreviousHash by = x"
    and "Hash bp = p" "PreviousHash bp = x" "Hash bq = q" "PreviousHash bq = p"
  shows "(\<exists>c. resolve_all NewChainResolver [bx, by, bp] = Some c) \<and>
    resolve_all NewChainResolver [bx, by, bp, bq] = None"
proof -
  note names = assms(3-)
  have ne: "x \<noteq> y" "p \<noteq> x" "p \<noteq> y" "y \<noteq> x" "x \<noteq> p" "y \<noteq> p" "x \<noteq> []" "y \<noteq> []" "p \<noteq> []" using assms(1,2) by auto
  define c where "c = \<lparr>blocksToResolve = [(y, [bx, by]), (x, [by, bp])], waitingBlocks = [(x, y), (y, x), (p, x)]\<rparr>"
  have run: "resolve_all NewChainResolver [bx, by, bp] = Some c"
    using ne by (simp add: c_def names NewChainResolver_def ResolveFloodedBlock_def hasPendingDownloadForHash_def
        findPendingDownloadForBlock_def get_default_def addPendingDownload_def addWaitingBlockForHash_def
        pending_loop.simps Let_def)
  have "\<not> hasPendingDownloadForHash c p" "get_default [] (waitingBlocks c) p = x"
    using ne by (simp_all add: c_def hasPendingDownloadForHash_def get_default_def)
  moreover have "\<not> wait_ends (waitingBlocks c) x"
  proof
    assume "wait_ends (waitingBlocks c) x"
    then show False
      by (rule not_wait_ends [where S = "{x, y}"]) (use ne in \<open>auto simp: c_def get_default_def\<close>)
  qed
  ultimately have "ResolveFloodedBlock c bq = None"
    using ResolveFloodedBlock_outcome [of c bq] names by (auto split: option.splits)
  with run show ?thesis by (auto simp: bind_eq_Some_conv split: option.splits)
qed

theorem cyclic_blocks_hang_resolver_witness:
  "resolve_all NewChainResolver [sample_block ''A'' [] ''y'' ''x'', sample_block ''A'' [] ''x'' ''y'',
     sample_block ''A'' [] ''x'' ''p'', sample_block ''A'' [] ''p'' ''q''] = None"
  using cyclic_blocks_hang_resolver [of "''x''" "''y''" "''p''" "''q''" "sample_block ''A'' [] ''y'' ''x''"
      "sample_block ''A'' [] ''x'' ''y''" "sample_block ''A'' [] ''x'' ''p''" "sample_block ''A'' [] ''p'' ''q''"]
  by (simp add: sample_block_def)

end
