(* ===== verification/P2p_Dial.thy ===== *)
theory P2p_Dial
  imports P2p_Peers
begin

text \<open>
  How miners connect (\<^verbatim>\<open>p2p/p2p_rpc.go\<close>): the handler \<^verbatim>\<open>DialPeer\<close> and the
  loop of \<^verbatim>\<open>startMinerRPC\<close> that dials the configured addresses. Both exchange all blocks and
  let the chain manager replace its tree. A synchronization is one step of the manager here: no other
  goroutine changes the tree between the request and its answer.
\<close>

record NewPeerInfo =
  info_Address :: string
  info_MinerID :: string
  info_Blockchain :: "Block list"

record NewPeerResponse =
  resp_MinerID :: string
  resp_Blockchain :: "Block list"

datatype dial_outcome = DialFails string | Answers NewPeerResponse | NeverAnswers

definition peer_response :: "(string, addr) iter \<Rightarrow> ChainManager \<Rightarrow> NewPeerResponse" where
  "peer_response it m =
     \<lparr>resp_MinerID = SettingsMinerID (mgr_config m), resp_Blockchain = GetBlocks it (mgr_blockchain m)\<rparr>"

text \<open>The request for a synchronization, and whether its channel \<^verbatim>\<open>done\<close> is closed; nothing
  is ever sent on its channel \<^verbatim>\<open>err\<close>.\<close>

definition synchronize :: "(string, addr) iter \<Rightarrow> ChainManager \<Rightarrow> Block list \<Rightarrow> (ChainManager \<times> bool) option" where
  "synchronize it m blocks =
     map_option (\<lambda>r. case r of Running m' outs \<Rightarrow> (m', SyncDone \<in> set outs) | _ \<Rightarrow> (m, False)) (mgr_sync it m blocks)"

text \<open>\<open>connect\<close> stands for \<^verbatim>\<open>net.ResolveTCPAddr\<close> and \<^verbatim>\<open>rpc.Dial\<close>: an error
  or the resolved address.\<close>

definition DialPeer ::
  "(string, addr) iter \<Rightarrow> (string, addr) iter \<Rightarrow> (string \<Rightarrow> string + string) \<Rightarrow> ChainManager \<Rightarrow> NewPeerInfo
     \<Rightarrow> (ChainManager \<times> pm_event list \<times> dial_outcome) option" where
  "DialPeer it1 it2 connect m info =
     (case connect (info_Address info) of
        Inl err \<Rightarrow> Some (m, [], DialFails err)
      | Inr addr \<Rightarrow>
          (let newPeer = make_peer (info_MinerID info) addr
           in if length (info_Blockchain info) > 1 then
                do {
                  (m', synced) \<leftarrow> synchronize it1 m (info_Blockchain info);
                  Some (m', [NewPeer newPeer], if synced then Answers (peer_response it2 m') else NeverAnswers)
                }
              else Some (m, [NewPeer newPeer], Answers (peer_response it2 m))))"

section \<open>Dialing the configured peers\<close>

definition own_info :: "(string, addr) iter \<Rightarrow> ChainManager \<Rightarrow> NewPeerInfo" where
  "own_info it m =
     \<lparr>info_Address = IncomingMinersAddr (mgr_config m), info_MinerID = SettingsMinerID (mgr_config m),
      info_Blockchain = GetBlocks it (mgr_blockchain m)\<rparr>"

text \<open>One pass over the addresses. \<open>call k addr info\<close> is what the \<open>k\<close>-th attempt to dial and call
  \<^verbatim>\<open>MinerServer.DialPeer\<close> gives: an error, a response, or nothing ever. \<open>its k\<close> are the
  iteration orders of that attempt.\<close>

fun dial_round ::
  "(nat \<Rightarrow> (string, addr) iter) \<Rightarrow> (nat \<Rightarrow> string \<Rightarrow> NewPeerInfo \<Rightarrow> (string + NewPeerResponse) option) \<Rightarrow> string list
     \<Rightarrow> nat \<Rightarrow> ChainManager \<Rightarrow> (string, unit) gomap \<Rightarrow> pm_event list
     \<Rightarrow> (nat \<times> ChainManager \<times> (string, unit) gomap \<times> pm_event list) option" where
  "dial_round its call [] k m dialedPeers evs = Some (k, m, dialedPeers, evs)"
| "dial_round its call (addr # addrs) k m dialedPeers evs =
     (if map_of dialedPeers addr \<noteq> None then dial_round its call addrs k m dialedPeers evs
      else
        do {
          answer \<leftarrow> call k addr (own_info (its k) m);
          (case answer of
             Inl err \<Rightarrow> dial_round its call addrs (k + 1) m dialedPeers evs
           | Inr response \<Rightarrow>
               do {
                 (m', synced) \<leftarrow> synchronize (its k) m (resp_Blockchain response);
                 (if synced then
                    dial_round its call addrs (k + 1) m' (AList.update addr () dialedPeers)
                      (evs @ [NewPeer (make_peer (resp_MinerID response) addr)])
                  else None)
               })
        })"

partial_function (option) dial_loop ::
  "(nat \<Rightarrow> (string, addr) iter) \<Rightarrow> (nat \<Rightarrow> string \<Rightarrow> NewPeerInfo \<Rightarrow> (string + NewPeerResponse) option) \<Rightarrow> string list
     \<Rightarrow> nat \<Rightarrow> ChainManager \<Rightarrow> (string, unit) gomap \<Rightarrow> pm_event list
     \<Rightarrow> (ChainManager \<times> (string, unit) gomap \<times> pm_event list) option" where
  "dial_loop its call addrs k m dialedPeers evs =
     (if length dialedPeers < length addrs then
        do {
          (k', m', dialedPeers', evs') \<leftarrow> dial_round its call addrs k m dialedPeers evs;
          dial_loop its call addrs k' m' dialedPeers' evs'
        }
      else Some (m, dialedPeers, evs))"

definition startMinerRPC ::
  "(nat \<Rightarrow> (string, addr) iter) \<Rightarrow> (nat \<Rightarrow> string \<Rightarrow> NewPeerInfo \<Rightarrow> (string + NewPeerResponse) option)
     \<Rightarrow> ChainManager \<Rightarrow> (ChainManager \<times> (string, unit) gomap \<times> pm_event list) option" where
  "startMinerRPC its call m = dial_loop its call (PeerMinersAddrs (mgr_config m)) 0 m [] []"

declare make_peer_def [simp]

section \<open>Synchronization\<close>

lemma synchronize_good:
  assumes "is_iter it" "\<not> has_orphan blocks" "has_root blocks"
  shows "\<exists>m'. synchronize it m blocks = Some (m', True) \<and> mgr_config m' = mgr_config m"
proof -
  obtain h g where "relink it blocks = Inr (h, Some g)"
    using relink_succeeds [OF assms] by blast
  from Unmarshall_tree [OF assms(1) this] show ?thesis
    by (auto simp: synchronize_def mgr_sync_def)
qed

lemma bc_inv_SetConfig [simp]: "bc_inv (SetConfig bc cfg) = bc_inv bc"
  by (simp add: SetConfig_def bc_inv_defs live_def)

lemma rooted_SetConfig [simp]: "rooted (SetConfig bc cfg) = rooted bc"
  by (simp add: SetConfig_def rooted_def HasBlock_def)

lemma GetBlock_SetConfig [simp]: "GetBlock (SetConfig bc cfg) h = GetBlock bc h"
  by (simp add: SetConfig_def GetBlock_def)

lemma synchronize_tree:
  assumes "is_iter it" "is_iter it'" "bc_inv bc" "rooted bc"
  shows "\<exists>m'. synchronize it m (GetBlocks it' bc) = Some (m', True) \<and>
    bc_inv (mgr_blockchain m') \<and> rooted (mgr_blockchain m') \<and> mgr_config m' = mgr_config m \<and>
    (\<forall>h. GetBlock (mgr_blockchain m') h = GetBlock bc h)"
proof -
  obtain bc' where "UnmarshallBlockchain it (GetBlocks it' bc) = Some (Inr bc')" "bc_inv bc'" "rooted bc'"
      "\<forall>h. GetBlock bc' h = GetBlock bc h"
    using Unmarshall_GetBlocks [OF assms] by blast
  then show ?thesis by (simp add: synchronize_def mgr_sync_def)
qed

lemma length_GetBlocks: "is_iter it \<Longrightarrow> length (GetBlocks it bc) = GetSize bc"
  by (simp add: GetBlocks_def GetSize_def iter_length)

text \<open>C14: After the handshake both miners have the same blocks. Miner A dials miner B and sends its
  blocks; B takes them over when they are more than one, and answers with its blocks, which A takes
  over. Then both trees are well-formed and hold the same blocks: those that A had, or those that B had
  when A had only its genesis block. So a miner that is dialed forgets every block that the dialing
  miner does not have, even when its own chain is longer.\<close>

theorem handshake_agreement:
  assumes it: "is_iter it0" "is_iter it1" "is_iter it2" "is_iter it3"
    and a: "bc_inv (mgr_blockchain a)" "rooted (mgr_blockchain a)"
    and b: "bc_inv (mgr_blockchain b)" "rooted (mgr_blockchain b)"
    and c: "connect (IncomingMinersAddr (mgr_config a)) = Inr addr"
  shows "\<exists>b' resp a'. DialPeer it1 it2 connect b (own_info it0 a) =
        Some (b', [NewPeer \<lparr>peer_MinerID = SettingsMinerID (mgr_config a), peer_Address = addr\<rparr>], Answers resp) \<and>
      resp_MinerID resp = SettingsMinerID (mgr_config b) \<and>
      synchronize it3 a (resp_Blockchain resp) = Some (a', True) \<and>
      bc_inv (mgr_blockchain a') \<and> bc_inv (mgr_blockchain b') \<and>
      (\<forall>h. GetBlock (mgr_blockchain a') h = GetBlock (mgr_blockchain b') h \<and>
         GetBlock (mgr_blockchain b') h =
           (if GetSize (mgr_blockchain a) > 1 then GetBlock (mgr_blockchain a) h else GetBlock (mgr_blockchain b) h))"
proof -
  let ?info = "own_info it0 a"
  have len: "length (info_Blockchain ?info) = GetSize (mgr_blockchain a)"
    by (simp add: own_info_def length_GetBlocks [OF it(1)])
  obtain b' where b': "DialPeer it1 it2 connect b ?info =
        Some (b', [NewPeer \<lparr>peer_MinerID = SettingsMinerID (mgr_config a), peer_Address = addr\<rparr>], Answers (peer_response it2 b'))"
      "bc_inv (mgr_blockchain b')" "rooted (mgr_blockchain b')" "mgr_config b' = mgr_config b"
      "\<forall>h. GetBlock (mgr_blockchain b') h =
         (if GetSize (mgr_blockchain a) > 1 then GetBlock (mgr_blockchain a) h else GetBlock (mgr_blockchain b) h)"
  proof (cases "GetSize (mgr_blockchain a) > 1")
    case True
    from synchronize_tree [OF it(2,1) a, of b] obtain b' where
      "synchronize it1 b (info_Blockchain ?info) = Some (b', True)" "bc_inv (mgr_blockchain b')" "rooted (mgr_blockchain b')"
      "mgr_config b' = mgr_config b" "\<forall>h. GetBlock (mgr_blockchain b') h = GetBlock (mgr_blockchain a) h"
      by (auto simp: own_info_def)
    with True len c show ?thesis by (intro that [of b']) (simp_all add: DialPeer_def own_info_def)
  next
    case False
    with len c b show ?thesis by (intro that [of b]) (simp_all add: DialPeer_def own_info_def)
  qed
  from synchronize_tree [OF it(4,3) b'(2,3), of a] obtain a' where
    "synchronize it3 a (resp_Blockchain (peer_response it2 b')) = Some (a', True)" "bc_inv (mgr_blockchain a')"
    "\<forall>h. GetBlock (mgr_blockchain a') h = GetBlock (mgr_blockchain b') h"
    by (auto simp: peer_response_def)
  with b' show ?thesis
    by (intro exI [of _ b'] exI [of _ "peer_response it2 b'"] exI [of _ a']) (simp add: peer_response_def)
qed

lemma sample_rooted: "rooted tree1" "rooted tree4"
  by (simp add: rooted_def HasBlock_def sample_map; simp add: tree_defs sample_defs)+

theorem handshake_agreement_witness:
  "\<exists>b' resp. DialPeer rev rev Inr (NewChainManager tree4 sample_cfg) (own_info rev (NewChainManager tree1 sample_cfg)) =
     Some (b', [NewPeer \<lparr>peer_MinerID = SettingsMinerID sample_cfg, peer_Address = IncomingMinersAddr sample_cfg\<rparr>], Answers resp) \<and>
   GetBlock (mgr_blockchain b') ''1'' = GetBlock tree1 ''1'' \<and> GetBlock (mgr_blockchain b') ''3'' = None \<and> GetBlock tree4 ''3'' \<noteq> None"
proof -
  have "GetSize tree1 > 1"
    by (simp add: GetSize_def tree_defs sample_defs NewBlockchain_def)
  moreover have "GetBlock tree1 ''3'' = None" "GetBlock tree4 ''3'' \<noteq> None"
    by (simp_all add: GetBlock_def sample_map)
  ultimately show ?thesis
    using handshake_agreement [OF is_iter_rev is_iter_rev is_iter_rev is_iter_rev,
        of "NewChainManager tree1 sample_cfg" "NewChainManager tree4 sample_cfg" Inr "IncomingMinersAddr sample_cfg"]
      sample_inv sample_rooted
    by (auto simp: NewChainManager_def)
qed

section \<open>When dialing ends\<close>

definition good_response :: "NewPeerResponse \<Rightarrow> bool" where
  "good_response resp \<longleftrightarrow> \<not> has_orphan (resp_Blockchain resp) \<and> has_root (resp_Blockchain resp)"

definition dialable :: "(nat \<Rightarrow> string \<Rightarrow> NewPeerInfo \<Rightarrow> (string + NewPeerResponse) option) \<Rightarrow> nat \<Rightarrow> string \<Rightarrow> bool" where
  "dialable call k addr \<longleftrightarrow> (\<forall>info. \<exists>resp. call k addr info = Some (Inr resp) \<and> good_response resp)"

definition answering :: "(nat \<Rightarrow> string \<Rightarrow> NewPeerInfo \<Rightarrow> (string + NewPeerResponse) option) \<Rightarrow> nat \<Rightarrow> string \<Rightarrow> bool" where
  "answering call k addr \<longleftrightarrow>
     (\<forall>info. \<exists>ans. call k addr info = Some ans \<and> (case ans of Inl err \<Rightarrow> True | Inr resp \<Rightarrow> good_response resp))"

text \<open>A pass returns, makes an attempt for every address not yet dialed, and dials all of them when
  they answer.\<close>

definition round_result ::
  "(nat \<Rightarrow> string \<Rightarrow> NewPeerInfo \<Rightarrow> (string + NewPeerResponse) option) \<Rightarrow> string list \<Rightarrow> nat \<Rightarrow> (string, unit) gomap
     \<Rightarrow> nat \<Rightarrow> (string, unit) gomap \<Rightarrow> bool" where
  "round_result call addrs k dialed k' dialed' \<longleftrightarrow>
     k \<le> k' \<and> (\<not> set addrs \<subseteq> fst ` set dialed \<longrightarrow> k < k') \<and> distinct (gokeys dialed') \<and>
     fst ` set dialed \<subseteq> fst ` set dialed' \<and> fst ` set dialed' \<subseteq> fst ` set dialed \<union> set addrs \<and>
     ((\<forall>j \<ge> k. \<forall>addr \<in> set addrs. dialable call j addr) \<longrightarrow> set addrs \<subseteq> fst ` set dialed')"

lemma round_result_known:
  "addr \<in> fst ` set dialed \<Longrightarrow> round_result call addrs k dialed k' dialed' \<Longrightarrow>
   round_result call (addr # addrs) k dialed k' dialed'"
  unfolding round_result_def by auto

lemma round_result_fails:
  assumes "\<not> dialable call k addr" "round_result call addrs (k + 1) dialed k' dialed'"
  shows "round_result call (addr # addrs) k dialed k' dialed'"
  using assms unfolding round_result_def by auto

lemma round_result_dials:
  assumes "round_result call addrs (k + 1) (AList.update addr () dialed) k' dialed'"
  shows "round_result call (addr # addrs) k dialed k' dialed'"
  using assms unfolding round_result_def keys_update by auto

lemma dial_round_returns:
  assumes "\<And>k. is_iter (its k)" "\<And>k addr. addr \<in> set addrs \<Longrightarrow> answering call k addr" "distinct (gokeys dialed)"
  shows "\<exists>k' m' dialed' evs'. dial_round its call addrs k m dialed evs = Some (k', m', dialed', evs') \<and>
    round_result call addrs k dialed k' dialed'"
  using assms(2,3)
proof (induction addrs arbitrary: k m dialed evs)
  case Nil
  then show ?case by (simp add: round_result_def)
next
  case (Cons addr addrs)
  have ans: "\<And>k addr. addr \<in> set addrs \<Longrightarrow> answering call k addr" using Cons.prems(1) by simp
  show ?case
  proof (cases "map_of dialed addr")
    case (Some u)
    then have "addr \<in> fst ` set dialed" by (metis domI dom_map_of_conv_image_fst)
    with Some Cons.IH [OF ans Cons.prems(2), of k m evs] round_result_known show ?thesis by fastforce
  next
    case None
    from Cons.prems(1) [of addr k] obtain answer where
      answer: "call k addr (own_info (its k) m) = Some answer" "case answer of Inl err \<Rightarrow> True | Inr resp \<Rightarrow> good_response resp"
      unfolding answering_def by fastforce
    show ?thesis
    proof (cases answer)
      case (Inl err)
      have "\<not> dialable call k addr" using answer(1) Inl unfolding dialable_def by (metis option.inject sum.distinct(1))
      with None answer Inl Cons.IH [OF ans Cons.prems(2), of "k + 1" m evs] round_result_fails show ?thesis
        by fastforce
    next
      case (Inr resp)
      then obtain m' where sync: "synchronize (its k) m (resp_Blockchain resp) = Some (m', True)"
        using synchronize_good [OF assms(1) [of k], of "resp_Blockchain resp" m] answer(2) unfolding good_response_def by auto
      let ?d = "AList.update addr () dialed"
      have "distinct (gokeys ?d)" using Cons.prems(2) by (rule distinct_gokeys_update)
      from Cons.IH [OF ans this, of "k + 1" m' "evs @ [NewPeer \<lparr>peer_MinerID = resp_MinerID resp, peer_Address = addr\<rparr>]"]
      show ?thesis using None answer Inr sync round_result_dials by fastforce
    qed
  qed
qed

lemma dialed_length:
  assumes "distinct (gokeys dialed)" "fst ` set dialed \<subseteq> set addrs"
  shows "length dialed \<le> card (set addrs)" "length dialed = card (set addrs) \<longleftrightarrow> fst ` set dialed = set addrs"
proof -
  have len: "length dialed = card (fst ` set dialed)"
    using distinct_card [OF assms(1)] by simp
  then show "length dialed \<le> card (set addrs)" using assms(2) by (simp add: card_mono)
  show "length dialed = card (set addrs) \<longleftrightarrow> fst ` set dialed = set addrs"
    using len card_subset_eq [OF finite_set assms(2)] by metis
qed

lemma dial_loop_ends:
  assumes "distinct addrs" "\<And>k. is_iter (its k)" "\<And>k addr. addr \<in> set addrs \<Longrightarrow> answering call k addr"
    and late: "\<And>k addr. K \<le> k \<Longrightarrow> addr \<in> set addrs \<Longrightarrow> dialable call k addr"
    and "distinct (gokeys dialed)" "fst ` set dialed \<subseteq> set addrs"
  shows "\<exists>m' dialed' evs'. dial_loop its call addrs k m dialed evs = Some (m', dialed', evs') \<and> fst ` set dialed' = set addrs"
  using assms(5,6)
proof (induction "K - k" arbitrary: k m dialed evs rule: less_induct)
  case less
  have full: "length dialed < length addrs \<longleftrightarrow> fst ` set dialed \<noteq> set addrs"
    if "distinct (gokeys dialed)" "fst ` set dialed \<subseteq> set addrs" for dialed :: "(string, unit) gomap"
    using dialed_length [OF that] distinct_card [OF assms(1)] by linarith
  show ?case
  proof (cases "fst ` set dialed = set addrs")
    case True
    with full [OF less.prems] show ?thesis by (subst dial_loop.simps) simp
  next
    case False
    obtain k' m' dialed' evs' where
      r: "dial_round its call addrs k m dialed evs = Some (k', m', dialed', evs')" and
      res: "round_result call addrs k dialed k' dialed'"
      using dial_round_returns [where its = its and call = call, OF assms(2,3) less.prems(1)] by blast
    have step: "dial_loop its call addrs k m dialed evs = dial_loop its call addrs k' m' dialed' evs'"
      using r full [OF less.prems] False by (subst dial_loop.simps) simp
    have inv: "distinct (gokeys dialed')" "fst ` set dialed' \<subseteq> set addrs" "k < k'"
      using res False less.prems unfolding round_result_def by blast+
    show ?thesis
    proof (cases "K \<le> k")
      case True
      then have "fst ` set dialed' = set addrs"
        using res inv(2) late unfolding round_result_def by (meson le_trans subset_antisym)
      with full [OF inv(1,2)] step show ?thesis by (subst (asm) (2) dial_loop.simps) simp
    next
      case False
      with inv(3) have "K - k' < K - k" by linarith
      from less.hyps [OF this inv(1,2), of m' evs'] step show ?thesis by simp
    qed
  qed
qed

text \<open>Dialing ends once all peers answer. When the configured addresses are distinct, no attempt
  blocks or gets blocks that cannot be synchronized, and from some attempt on every peer answers, then
  \<^verbatim>\<open>startMinerRPC\<close> returns and every configured peer has been dialed.\<close>

theorem dialing_ends:
  assumes "distinct (PeerMinersAddrs (mgr_config m))" "\<And>k. is_iter (its k)"
    and "\<And>k addr. addr \<in> set (PeerMinersAddrs (mgr_config m)) \<Longrightarrow> answering call k addr"
    and "\<And>k addr. K \<le> k \<Longrightarrow> addr \<in> set (PeerMinersAddrs (mgr_config m)) \<Longrightarrow> dialable call k addr"
  shows "\<exists>m' dialed evs. startMinerRPC its call m = Some (m', dialed, evs) \<and>
    fst ` set dialed = set (PeerMinersAddrs (mgr_config m))"
  unfolding startMinerRPC_def
  using dial_loop_ends [where its = its and call = call and dialed = "[]" and k = 0 and evs = "[]" and K = K, OF assms] by simp

definition genesis_response :: NewPeerResponse where
  "genesis_response = \<lparr>resp_MinerID = ''B'', resp_Blockchain = [NewGenesisBlock 0 ''g'']\<rparr>"

lemma genesis_response_good: "good_response genesis_response"
  by (simp add: good_response_def genesis_response_def has_orphan_def has_root_def latest_def NewGenesisBlock_def)

theorem dialing_ends_witness:
  "\<exists>m' dialed evs. startMinerRPC (\<lambda>_. rev)
      (\<lambda>k addr info. Some (if k < 3 then Inl ''refused'' else Inr genesis_response))
      (NewChainManager tree0 (sample_cfg\<lparr>PeerMinersAddrs := [''x'', ''y'']\<rparr>)) = Some (m', dialed, evs) \<and>
    fst ` set dialed = {''x'', ''y''}"
proof -
  let ?m = "NewChainManager tree0 (sample_cfg\<lparr>PeerMinersAddrs := [''x'', ''y'']\<rparr>)"
  let ?call = "\<lambda>(k :: nat) (addr :: string) (info :: NewPeerInfo). Some (if k < 3 then Inl ''refused'' else Inr genesis_response)"
  have m: "PeerMinersAddrs (mgr_config ?m) = [''x'', ''y'']" by (simp add: NewChainManager_def)
  have "answering ?call k addr" for k addr
    using genesis_response_good by (simp add: answering_def)
  moreover have "dialable ?call k addr" if "3 \<le> k" for k addr
    using genesis_response_good that by (simp add: dialable_def)
  ultimately show ?thesis
    using dialing_ends [of ?m "\<lambda>_. rev" ?call 3] unfolding m by auto
qed

lemma dial_round_keys:
  assumes "dial_round its call addrs k m dialed evs = Some (k', m', dialed', evs')" "distinct (gokeys dialed)"
  shows "distinct (gokeys dialed') \<and> fst ` set dialed' \<subseteq> fst ` set dialed \<union> set addrs"
  using assms
proof (induction addrs arbitrary: k m dialed evs)
  case (Cons addr addrs)
  show ?case
  proof (cases "map_of dialed addr")
    case None
    with Cons.prems(1) obtain answer where answer: "call k addr (own_info (its k) m) = Some answer"
      by (auto simp: bind_eq_Some_conv)
    show ?thesis
    proof (cases answer)
      case (Inl err)
      with None answer Cons.prems Cons.IH [of "k + 1" m dialed evs] show ?thesis by auto
    next
      case (Inr resp)
      with None answer Cons.prems(1) obtain m1 where
        "dial_round its call addrs (k + 1) m1 (AList.update addr () dialed)
           (evs @ [NewPeer \<lparr>peer_MinerID = resp_MinerID resp, peer_Address = addr\<rparr>]) = Some (k', m', dialed', evs')"
        by (auto simp: bind_eq_Some_conv split: if_splits)
      from Cons.IH [OF this distinct_gokeys_update [OF Cons.prems(2)]] show ?thesis by auto
    qed
  next
    case (Some u)
    with Cons.prems(1) have "dial_round its call addrs k m dialed evs = Some (k', m', dialed', evs')" by simp
    from Cons.IH [OF this Cons.prems(2)] show ?thesis by auto
  qed
qed simp

lemma dial_loop_Some:
  "dial_loop its call addrs k m dialed evs = Some r \<Longrightarrow>
   distinct (gokeys dialed) \<longrightarrow> fst ` set dialed \<subseteq> set addrs \<longrightarrow> distinct addrs"
proof (rule dial_loop.raw_induct [where P = "\<lambda>its call addrs k m dialed evs r.
      distinct (gokeys dialed) \<longrightarrow> fst ` set dialed \<subseteq> set addrs \<longrightarrow> distinct addrs"], intro impI)
  fix f its call addrs k m dialed evs r
  assume IH: "\<And>its call addrs k m dialed evs r. f its call addrs k m dialed evs = Some r \<Longrightarrow>
      distinct (gokeys dialed) \<longrightarrow> fst ` set dialed \<subseteq> set addrs \<longrightarrow> distinct addrs"
    and run: "(if length dialed < length addrs then do {
        (k', m', dialedPeers', evs') \<leftarrow> dial_round its call addrs k m dialed evs;
        f its call addrs k' m' dialedPeers' evs' } else Some (m, dialed, evs)) = Some r"
    and d: "distinct (gokeys dialed)" "fst ` set dialed \<subseteq> set addrs"
  show "distinct addrs"
  proof (cases "length dialed < length addrs")
    case True
    with run obtain k' m' dialed' evs' where
      r: "dial_round its call addrs k m dialed evs = Some (k', m', dialed', evs')"
      and f: "f its call addrs k' m' dialed' evs' = Some r" by (auto simp: bind_eq_Some_conv)
    show ?thesis using IH [OF f] dial_round_keys [OF r d(1)] d(2) by blast
  next
    case False
    with dialed_length(1) [OF d] have "length addrs \<le> card (set addrs)" by linarith
    then show ?thesis using card_length [of addrs] by (intro card_distinct) simp
  qed
qed

text \<open>With an address twice in the configuration dialing never ends: the loop compares the number of
  dialed addresses with the length of the list, which it can not reach.\<close>

theorem duplicate_address_dials_forever:
  assumes "\<not> distinct (PeerMinersAddrs (mgr_config m))"
  shows "startMinerRPC its call m = None"
proof (cases "startMinerRPC its call m")
  case (Some r)
  then have "distinct (PeerMinersAddrs (mgr_config m))"
    unfolding startMinerRPC_def using dial_loop_Some [of its call _ 0 m "[]" "[]" r] by simp
  with assms show ?thesis by simp
qed

theorem duplicate_address_dials_forever_witness:
  "startMinerRPC (\<lambda>_. rev) (\<lambda>k addr info. Some (Inr genesis_response))
     (NewChainManager tree0 (sample_cfg\<lparr>PeerMinersAddrs := [''x'', ''x'']\<rparr>)) = None"
  by (rule duplicate_address_dials_forever) (simp add: NewChainManager_def)

end
