(* ===== verification/P2p_Batch.thy ===== *)
theory P2p_Batch
  imports P2p_Peers Mining_Worker
begin

text \<open>
  Two goroutines of \<^verbatim>\<open>p2p/p2p_rpc.go\<close>: \<^verbatim>\<open>buildPendingOperations\<close>, which
  collects operations into batches, and \<^verbatim>\<open>startMining\<close>, which starts the worker and passes
  mined blocks to the chain manager; and how the first one and
  \<^verbatim>\<open>checkConfirmedOperations\<close> of \<^verbatim>\<open>p2p/rpc.go\<close> wait for each other.

  The lock \<^verbatim>\<open>clientRPC.mux\<close> matters here, because one branch leaves the loop body without
  unlocking it: \<open>mux_held\<close> says that this goroutine holds it at its \<^verbatim>\<open>select\<close>.
\<close>

abbreviation (input) MAX_BLOCK_SIZE :: nat where "MAX_BLOCK_SIZE \<equiv> 100"

record Batcher =
  batch_config :: Settings
  batch_operations :: "(string, Operation) gomap"
  ticker_set :: bool
  mux_held :: bool

definition NewBatcher :: "Settings \<Rightarrow> Batcher" where
  "NewBatcher cfg = \<lparr>batch_config = cfg, batch_operations = [], ticker_set = False, mux_held = False\<rparr>"

datatype batch_output = Reply Operation bool | FloodPending FloodOpReq | Finalized "Operation list"

text \<open>\<open>BlockedOnMux\<close>: the goroutine waits for a lock that it holds itself;
  \<open>TickerPanic\<close>: \<^verbatim>\<open>time.NewTicker\<close> panics on a duration that is not positive.\<close>

datatype batch_result = Waiting Batcher Server "batch_output list" | BlockedOnMux | TickerPanic

section \<open>buildPendingOperations\<close>

text \<open>The ledger is asked twice, in the states \<open>ls 0\<close> and \<open>ls 1\<close>.\<close>

definition receive_op ::
  "(string, Operation) iter \<Rightarrow> 'l RFSLedger \<Rightarrow> (nat \<Rightarrow> 'l) \<Rightarrow> Batcher \<Rightarrow> Server \<Rightarrow> Operation \<Rightarrow> batch_result option" where
  "receive_op it L ls b s oper =
     (if map_of (batch_operations b) (OperationID oper) \<noteq> None then Some (Waiting b s [])
      else if mux_held b then Some BlockedOnMux
      else
        (let ok = (map_of (confirmedFiles s) (Filename oper) \<noteq> None);
             pendingClientOperation = (map_of (clientOps s) (OperationID oper) \<noteq> None)
         in if ((ok \<and> Op oper = Create) \<or> (\<not> ok \<and> Op oper = Append)) \<and> pendingClientOperation then
              Some (Waiting (b\<lparr>mux_held := True\<rparr>)
                      (s\<lparr>clientOps := AList.delete (OperationID oper) (clientOps s)\<rparr>) [Reply oper False])
            else
              do {
                (l', hash) \<leftarrow> ledger_GetLastHash L (ls 0);
                (ops', valid) \<leftarrow> ledger_ValidateOperations L (ls 1) [oper] hash;
                Some
                  (if \<not> valid then Waiting b s []
                   else
                     (let operations = AList.update (OperationID oper) oper (batch_operations b);
                          flood = (if pendingClientOperation
                                   then [FloodPending \<lparr>flood_Operation = oper, IgnoreMiners = []\<rparr>] else [])
                      in if length operations = 1 \<and> GenOpBlockTimeout (batch_config b) = 0 then TickerPanic
                         else if length operations = MAX_BLOCK_SIZE then
                           Waiting (b\<lparr>batch_operations := []\<rparr>) s (flood @ [Finalized (ListOpsFromMap it operations)])
                         else
                           Waiting (b\<lparr>batch_operations := operations,
                                      ticker_set := ticker_set b \<or> length operations = 1\<rparr>) s flood))
              }))"

definition batch_tick :: "(string, Operation) iter \<Rightarrow> Batcher \<Rightarrow> Server \<Rightarrow> batch_result" where
  "batch_tick it b s =
     Waiting (b\<lparr>batch_operations := [], ticker_set := False\<rparr>) s [Finalized (ListOpsFromMap it (batch_operations b))]"

section \<open>startMining\<close>

record MiningLoop =
  loop_isMining :: bool
  loop_worker :: bool

definition NewMiningLoop :: MiningLoop where
  "NewMiningLoop = \<lparr>loop_isMining = False, loop_worker = True\<rparr>"

datatype mining_event = MineSignal | FinishedMining Block | StopMiningSignal | StopSignal

datatype mining_output = StartWorker | ToAddBlock Block | CallStop

text \<open>\<open>NilWorker\<close>: the started goroutine reads the fields of a worker that is nil.\<close>

datatype mining_result = Looping MiningLoop "mining_output list" | NilWorker | LoopReturned "mining_output list"

fun mining_case :: "MiningLoop \<Rightarrow> mining_event \<Rightarrow> mining_result" where
  "mining_case st MineSignal =
     (if loop_isMining st then Looping st []
      else if loop_worker st then Looping (st\<lparr>loop_isMining := True\<rparr>) [StartWorker]
      else NilWorker)"
| "mining_case st (FinishedMining block) =
     (if Nonce block > 0 then Looping (st\<lparr>loop_isMining := False\<rparr>) [ToAddBlock block]
      else Looping st [])"
| "mining_case st StopMiningSignal =
     (if loop_worker st then Looping (st\<lparr>loop_worker := False\<rparr>) [CallStop] else Looping st [])"
| "mining_case st StopSignal =
     (if loop_worker st then LoopReturned [CallStop] else Looping st [])"

text \<open>A run over a sequence of events that keeps looping.\<close>

fun mining_run :: "MiningLoop \<Rightarrow> mining_event list \<Rightarrow> (MiningLoop \<times> mining_output list) option" where
  "mining_run st [] = Some (st, [])"
| "mining_run st (e # es) =
     (case mining_case st e of
        Looping st' outs \<Rightarrow> map_option (\<lambda>(st'', outs'). (st'', outs @ outs')) (mining_run st' es)
      | _ \<Rightarrow> None)"

section \<open>No operation is lost\<close>

text \<open>The operations that pass the checks of the goroutine.\<close>

definition takes_op :: "'l RFSLedger \<Rightarrow> (nat \<Rightarrow> 'l) \<Rightarrow> Batcher \<Rightarrow> Server \<Rightarrow> Operation \<Rightarrow> bool" where
  "takes_op L ls b s oper \<longleftrightarrow>
     map_of (batch_operations b) (OperationID oper) = None \<and>
     \<not> (((map_of (confirmedFiles s) (Filename oper) \<noteq> None \<and> Op oper = Create) \<or>
         (map_of (confirmedFiles s) (Filename oper) = None \<and> Op oper = Append)) \<and>
        map_of (clientOps s) (OperationID oper) \<noteq> None) \<and>
     (\<exists>l' hash ops'. ledger_GetLastHash L (ls 0) = Some (l', hash) \<and>
        ledger_ValidateOperations L (ls 1) [oper] hash = Some (ops', True))"

fun batches :: "batch_output list \<Rightarrow> Operation list list" where
  "batches [] = []"
| "batches (Finalized ops # outs) = ops # batches outs"
| "batches (out # outs) = batches outs"

lemma batches_append [simp]: "batches (xs @ ys) = batches xs @ batches ys"
  by (induction xs rule: batches.induct) auto

text \<open>The runs of the goroutine, with the operations it has taken and everything it has sent. The
  server may change between two steps.\<close>

inductive batch_run :: "'l RFSLedger \<Rightarrow> Settings \<Rightarrow> Operation list \<Rightarrow> batch_output list \<Rightarrow> Batcher \<Rightarrow> bool" for L cfg where
  batch_start: "batch_run L cfg [] [] (NewBatcher cfg)"
| batch_receive: "batch_run L cfg taken outs b \<Longrightarrow> is_iter it \<Longrightarrow>
    receive_op it L ls b s oper = Some (Waiting b' s' outs') \<Longrightarrow>
    batch_run L cfg (taken @ (if takes_op L ls b s oper then [oper] else [])) (outs @ outs') b'"
| batch_time: "batch_run L cfg taken outs b \<Longrightarrow> is_iter it \<Longrightarrow> ticker_set b \<Longrightarrow>
    batch_tick it b s = Waiting b' s' outs' \<Longrightarrow> batch_run L cfg taken (outs @ outs') b'"

definition batch_inv :: "Batcher \<Rightarrow> bool" where
  "batch_inv b \<longleftrightarrow> distinct (gokeys (batch_operations b)) \<and> length (batch_operations b) < MAX_BLOCK_SIZE \<and>
     gokeys (batch_operations b) = map OperationID (map snd (batch_operations b))"

definition good_batch :: "Operation list \<Rightarrow> bool" where
  "good_batch ops \<longleftrightarrow> length ops \<le> MAX_BLOCK_SIZE \<and> distinct (map OperationID ops)"

lemma good_batch_list:
  assumes "is_iter it" "distinct (gokeys m)" "gokeys m = map OperationID (map snd m)" "length m \<le> MAX_BLOCK_SIZE"
  shows "good_batch (ListOpsFromMap it m)" "mset (ListOpsFromMap it m) = mset (map snd m)"
proof -
  show ms: "mset (ListOpsFromMap it m) = mset (map snd m)"
    unfolding ListOpsFromMap_def by (rule iter_values [OF assms(1)])
  have "mset (map OperationID (ListOpsFromMap it m)) = mset (map OperationID (map snd m))"
    using ms by (metis mset_map)
  then have "distinct (map OperationID (ListOpsFromMap it m))"
    using assms(2,3) by (metis mset_eq_imp_distinct_iff)
  then show "good_batch (ListOpsFromMap it m)"
    using assms(4) iter_length [OF assms(1), of m] by (simp add: good_batch_def ListOpsFromMap_def)
qed

lemma receive_op_skips:
  assumes "receive_op it L ls b s oper = Some (Waiting b' s' outs)" "\<not> takes_op L ls b s oper"
  shows "batch_operations b' = batch_operations b \<and> batches outs = []"
proof (cases "map_of (batch_operations b) (OperationID oper)")
  case None
  let ?ok = "map_of (confirmedFiles s) (Filename oper) \<noteq> None"
  show ?thesis
  proof (cases "((?ok \<and> Op oper = Create) \<or> (\<not> ?ok \<and> Op oper = Append)) \<and> map_of (clientOps s) (OperationID oper) \<noteq> None")
    case True
    with None assms(1) show ?thesis by (auto simp: receive_op_def Let_def split: if_splits)
  next
    case False
    then obtain l' hash ops' valid where v: "ledger_GetLastHash L (ls 0) = Some (l', hash)"
        "ledger_ValidateOperations L (ls 1) [oper] hash = Some (ops', valid)"
      using None assms(1) by (auto simp: receive_op_def Let_def bind_eq_Some_conv split: if_split_asm)
    with assms(2) None False have "\<not> valid" by (auto simp: takes_op_def)
    with v None False assms(1) show ?thesis
      by (auto simp: receive_op_def Let_def split: if_split_asm)
  qed
qed (use assms(1) in \<open>simp add: receive_op_def\<close>)

lemma receive_op_takes:
  assumes "receive_op it L ls b s oper = Some (Waiting b' s' outs)" "takes_op L ls b s oper"
  defines "ops \<equiv> AList.update (OperationID oper) oper (batch_operations b)"
  shows "length ops = MAX_BLOCK_SIZE \<and> batch_operations b' = [] \<and> batches outs = [ListOpsFromMap it ops] \<or>
    length ops \<noteq> MAX_BLOCK_SIZE \<and> batch_operations b' = ops \<and> batches outs = []"
proof -
  have new: "map_of (batch_operations b) (OperationID oper) = None"
    and keep: "\<not> (((map_of (confirmedFiles s) (Filename oper) \<noteq> None \<and> Op oper = Create) \<or>
         (map_of (confirmedFiles s) (Filename oper) = None \<and> Op oper = Append)) \<and>
        map_of (clientOps s) (OperationID oper) \<noteq> None)"
    using assms(2) unfolding takes_op_def by blast+
  obtain l' hash ops' where v: "ledger_GetLastHash L (ls 0) = Some (l', hash)"
      "ledger_ValidateOperations L (ls 1) [oper] hash = Some (ops', True)"
    using assms(2) unfolding takes_op_def by blast
  have "\<not> mux_held b"
    using assms(1) new by (auto simp: receive_op_def)
  with assms(1) new keep v show ?thesis
    by (auto simp: receive_op_def Let_def ops_def [symmetric] split: if_split_asm)
qed

lemma batch_run_inv:
  "batch_run L cfg taken outs b \<Longrightarrow> batch_inv b \<and> list_all good_batch (batches outs) \<and>
     mset taken = mset (concat (batches outs)) + mset (map snd (batch_operations b))"
proof (induction rule: batch_run.induct)
  case batch_start
  then show ?case by (simp add: batch_inv_def NewBatcher_def)
next
  case (batch_receive taken outs b it ls s oper b' s' outs')
  show ?case
  proof (cases "takes_op L ls b s oper")
    case False
    then show ?thesis
      using batch_receive.IH receive_op_skips [OF batch_receive.hyps(3)] by (auto simp: batch_inv_def)
  next
    case True
    let ?ops = "AList.update (OperationID oper) oper (batch_operations b)"
    have "OperationID oper \<notin> fst ` set (batch_operations b)"
      using True by (simp add: takes_op_def map_of_eq_None_iff)
    then have ops: "?ops = batch_operations b @ [(OperationID oper, oper)]" by (rule update_new)
    have inv: "distinct (gokeys ?ops)" "gokeys ?ops = map OperationID (map snd ?ops)" "length ?ops \<le> MAX_BLOCK_SIZE"
      using batch_receive.IH \<open>OperationID oper \<notin> _\<close> unfolding ops by (auto simp: batch_inv_def)
    from receive_op_takes [OF batch_receive.hyps(3) True] show ?thesis
    proof
      assume full: "length ?ops = MAX_BLOCK_SIZE \<and> batch_operations b' = [] \<and> batches outs' = [ListOpsFromMap it ?ops]"
      with good_batch_list [OF batch_receive.hyps(2) inv] batch_receive.IH True show ?thesis
        by (simp add: batch_inv_def) (simp add: ops)
    next
      assume "length ?ops \<noteq> MAX_BLOCK_SIZE \<and> batch_operations b' = ?ops \<and> batches outs' = []"
      with inv batch_receive.IH True show ?thesis
        by (simp add: batch_inv_def) (simp add: ops)
    qed
  qed
next
  case (batch_time taken outs b it s b' s' outs')
  have "good_batch (ListOpsFromMap it (batch_operations b))"
      "mset (ListOpsFromMap it (batch_operations b)) = mset (map snd (batch_operations b))"
    by (rule good_batch_list [OF batch_time.hyps(2)]; use batch_time.IH in \<open>simp add: batch_inv_def\<close>)+
  with batch_time show ?case
    by (auto simp: batch_tick_def batch_inv_def)
qed

text \<open>C16: Batches are well-formed and no operation is lost. In every run of
  \<^verbatim>\<open>buildPendingOperations\<close>, every batch has at most 100 operations with different
  identifiers, and every operation that passed the checks is either in exactly one batch or still
  collected.\<close>

theorem batches_lose_nothing:
  assumes "batch_run L cfg taken outs b"
  shows "(\<forall>ops \<in> set (batches outs). length ops \<le> MAX_BLOCK_SIZE \<and> distinct (map OperationID ops)) \<and>
    mset taken = mset (concat (batches outs)) + mset (map snd (batch_operations b)) \<and>
    length (batch_operations b) < MAX_BLOCK_SIZE"
  using batch_run_inv [OF assms] by (auto simp: batch_inv_def good_batch_def list_all_iff)

text \<open>A ledger that accepts everything, to run the goroutine on.\<close>

definition accepting_ledger :: "unit RFSLedger" where
  "accepting_ledger =
     \<lparr>ledger_GetLastHash = \<lambda>l. Some (l, []), ledger_GetLastBlocks = \<lambda>l. Some (l, []),
      ledger_ValidateOperations = \<lambda>l ops h. Some (ops, True), ledger_ListFiles = \<lambda>l. Some (l, []),
      ledger_GetFile = \<lambda>l fname. Some (l, \<lparr>Fname = fname, FileOperations = [], Deleted = False\<rparr>, False),
      ledger_NumRecs = \<lambda>l fname. Some (l, 0, False),
      ledger_CheckOpConfirmed = \<lambda>l oper. Some (l, False, False, False)\<rparr>"

theorem batches_lose_nothing_witness:
  "let b = NewBatcher (sample_cfg\<lparr>GenOpBlockTimeout := 3\<rparr>)
   in \<exists>b'. receive_op rev accepting_ledger (\<lambda>_. ()) b sample_server sample_create = Some (Waiting b' sample_server []) \<and>
     mset [sample_create] = mset (map snd (batch_operations b'))"
proof -
  let ?cfg = "sample_cfg\<lparr>GenOpBlockTimeout := 3\<rparr>"
  let ?b = "NewBatcher ?cfg" and ?ls = "\<lambda>_ :: nat. ()"
  define b' where "b' = ?b\<lparr>batch_operations := [(OperationID sample_create, sample_create)], ticker_set := True\<rparr>"
  have r: "receive_op rev accepting_ledger ?ls ?b sample_server sample_create = Some (Waiting b' sample_server [])"
    and t: "takes_op accepting_ledger ?ls ?b sample_server sample_create"
    by (simp_all add: receive_op_def takes_op_def b'_def NewBatcher_def sample_server_def accepting_ledger_def)
  from batch_receive [OF batch_start is_iter_rev r] t
  have "batch_run accepting_ledger ?cfg [sample_create] [] b'" by simp
  from batches_lose_nothing [OF this] r show ?thesis by (simp add: Let_def)
qed

section \<open>Deadlocks on the lock of the RPC server\<close>

text \<open>C29: A client that creates a file that exists stops the miner. The RPC server does not check the
  confirmed files, so it accepts the request; \<^verbatim>\<open>buildPendingOperations\<close> answers it with a
  failure (the client gets the error that the file exists), but leaves the case without unlocking
  \<^verbatim>\<open>mux\<close>. The next operation that is not in the batch already blocks the goroutine
  forever.\<close>

theorem create_existing_file_deadlocks:
  assumes "CreateFile_submit H now it s fname = Inr (s', oper)" "map_of (confirmedFiles s) fname \<noteq> None"
    and "map_of (batch_operations b) (OperationID oper) = None" "\<not> mux_held b"
    and "map_of (batch_operations b) (OperationID oper2) = None"
  shows "\<exists>b' s''. receive_op it1 L ls b s' oper = Some (Waiting b' s'' [Reply oper False]) \<and>
    CreateFile_finish fname False = Inl (FileExistsError fname) \<and>
    receive_op it2 L ls2 b' s2 oper2 = Some BlockedOnMux"
proof -
  have "s' = add_client_op s oper" "Op oper = Create" "Filename oper = fname"
    using assms(1) by (auto simp: CreateFile_submit_def NewOperation_def Let_def split: if_splits)
  then have "receive_op it1 L ls b s' oper = Some (Waiting (b\<lparr>mux_held := True\<rparr>)
      (s'\<lparr>clientOps := AList.delete (OperationID oper) (clientOps s')\<rparr>) [Reply oper False])"
    using assms(2-4) by (simp add: receive_op_def add_client_op_def)
  then show ?thesis
    using assms(5) by (simp add: receive_op_def CreateFile_finish_def)
qed

theorem create_existing_file_deadlocks_witness:
  "\<exists>s' oper b' s''. CreateFile_submit sample_host 0 rev sample_server ''f'' = Inr (s', oper) \<and>
    receive_op rev accepting_ledger (\<lambda>_. ()) (NewBatcher sample_cfg) s' oper = Some (Waiting b' s'' [Reply oper False]) \<and>
    receive_op rev accepting_ledger (\<lambda>_. ()) b' s'' sample_create = Some BlockedOnMux"
proof -
  obtain s' oper where s: "CreateFile_submit sample_host 0 rev sample_server ''f'' = Inr (s', oper)"
    by (simp add: CreateFile_submit_def sample_server_def conflictPendingCreate_def Let_def)
  have "\<exists>b' s''. receive_op rev accepting_ledger (\<lambda>_. ()) (NewBatcher sample_cfg) s' oper = Some (Waiting b' s'' [Reply oper False]) \<and>
    CreateFile_finish ''f'' False = Inl (FileExistsError ''f'') \<and>
    receive_op rev accepting_ledger (\<lambda>_. ()) b' s2 sample_create = Some BlockedOnMux" for s2
    by (rule create_existing_file_deadlocks [OF s]) (simp_all add: sample_server_def NewBatcher_def)
  with s show ?thesis by (metis batch_result.inject(1) option.inject)
qed

text \<open>
  One round of \<^verbatim>\<open>checkConfirmedOperations\<close>. It takes a read lock on \<^verbatim>\<open>mux\<close> and,
  holding it, sends operations again on the unbuffered channel \<^verbatim>\<open>receivedOp\<close>; it releases the lock,
  takes the write lock to remove the answered operations, and sends on \<^verbatim>\<open>updateFileCache\<close>, whose
  receiver is ready. \<^verbatim>\<open>buildPendingOperations\<close> takes the operations: one that is in its
  batch is dropped, for every other one it has to lock \<^verbatim>\<open>mux\<close> before it goes on with
  \<open>receive_op\<close>. The lists \<open>resent\<close> and \<open>removed\<close> are those of the round, as
  \<open>checkConfirmedOperations\<close> computes them; no other operation arrives meanwhile.
\<close>

datatype batch_pc = AtSelect | WantsMux Operation

datatype round_pc = RoundStart | RoundSending "Operation list" | RoundUnlocked | RoundRemoved | RoundDone

fun reading :: "round_pc \<Rightarrow> bool" where
  "reading (RoundSending ops) = True"
| "reading pc = False"

definition in_batch :: "Batcher \<Rightarrow> Operation \<Rightarrow> bool" where
  "in_batch b oper \<longleftrightarrow> map_of (batch_operations b) (OperationID oper) \<noteq> None"

definition remove_ops :: "Operation list \<Rightarrow> Server \<Rightarrow> Server" where
  "remove_ops removed s = s\<lparr>clientOps := fold (\<lambda>oper. AList.delete (OperationID oper)) removed (clientOps s)\<rparr>"

type_synonym round_state = "round_pc \<times> Batcher \<times> Server \<times> batch_pc"

inductive resend_step ::
  "(string, Operation) iter \<Rightarrow> 'l RFSLedger \<Rightarrow> (nat \<Rightarrow> 'l) \<Rightarrow> Operation list \<Rightarrow> Operation list \<Rightarrow> round_state \<Rightarrow> round_state \<Rightarrow> bool"
  for it L ls resent removed where
  read_lock: "\<not> mux_held b \<Longrightarrow>
    resend_step it L ls resent removed (RoundStart, b, s, pc) (RoundSending resent, b, s, pc)"
| handover: "resend_step it L ls resent removed (RoundSending (oper # ops), b, s, AtSelect)
    (RoundSending ops, b, s, if in_batch b oper then AtSelect else WantsMux oper)"
| read_unlock: "resend_step it L ls resent removed (RoundSending [], b, s, pc) (RoundUnlocked, b, s, pc)"
| remove: "\<not> mux_held b \<Longrightarrow>
    resend_step it L ls resent removed (RoundUnlocked, b, s, pc) (RoundRemoved, b, remove_ops removed s, pc)"
| update_cache: "resend_step it L ls resent removed (RoundRemoved, b, s, pc) (RoundDone, b, s, pc)"
| acquire: "\<not> reading rd \<Longrightarrow> \<not> mux_held b \<Longrightarrow> receive_op it L ls b s oper = Some (Waiting b' s' outs) \<Longrightarrow>
    resend_step it L ls resent removed (rd, b, s, WantsMux oper) (rd, b', s', AtSelect)"

inductive_cases resend_startE: "resend_step it L ls resent removed (RoundStart, b, s, AtSelect) c"
inductive_cases resend_sendE: "resend_step it L ls resent removed (RoundSending ops, b, s, pc) c"
inductive_cases resend_unlockedE: "resend_step it L ls resent removed (RoundUnlocked, b, s, AtSelect) c"

text \<open>The operation of a client that \<^verbatim>\<open>buildPendingOperations\<close> answers with a failure, keeping
  the lock.\<close>

definition rejected :: "Server \<Rightarrow> Operation \<Rightarrow> bool" where
  "rejected s oper \<longleftrightarrow>
     ((map_of (confirmedFiles s) (Filename oper) \<noteq> None \<and> Op oper = Create) \<or>
      (map_of (confirmedFiles s) (Filename oper) = None \<and> Op oper = Append)) \<and>
     map_of (clientOps s) (OperationID oper) \<noteq> None"

lemma receive_op_mux:
  assumes "receive_op it L ls b s oper = Some (Waiting b' s' outs)" "\<not> in_batch b oper" "\<not> mux_held b"
  shows "mux_held b' \<longleftrightarrow> rejected s oper"
  using assms unfolding receive_op_def rejected_def in_batch_def
  by (auto simp: Let_def bind_eq_Some_conv split: if_splits)

lemma receive_op_rejected:
  assumes "rejected s oper" "\<not> in_batch b oper" "\<not> mux_held b"
  shows "\<exists>b' s'. receive_op it L ls b s oper = Some (Waiting b' s' [Reply oper False]) \<and> mux_held b'"
  using assms unfolding receive_op_def rejected_def in_batch_def by (auto simp: Let_def)

lemma fold_delete_None: "map_of m k = None \<Longrightarrow> map_of (fold (\<lambda>oper. AList.delete (OperationID oper)) removed m) k = None"
  by (induction removed arbitrary: m) (auto simp: delete_conv')

lemma rejected_remove: "rejected (remove_ops removed s) oper \<Longrightarrow> rejected s oper"
  using fold_delete_None [of "clientOps s" "OperationID oper" removed]
  by (cases "map_of (clientOps s) (OperationID oper)") (simp_all add: rejected_def remove_ops_def)

section \<open>When a round ends\<close>

text \<open>Every step gets the round or the receiver further.\<close>

fun round_rank :: "nat \<Rightarrow> round_pc \<Rightarrow> nat" where
  "round_rank n RoundStart = 2 * n + 4"
| "round_rank n (RoundSending ops) = 2 * length ops + 3"
| "round_rank n RoundUnlocked = 2"
| "round_rank n RoundRemoved = 1"
| "round_rank n RoundDone = 0"

definition round_todo :: "Operation list \<Rightarrow> round_state \<Rightarrow> nat" where
  "round_todo resent c = (case c of (rd, b, s, pc) \<Rightarrow> round_rank (length resent) rd + of_bool (pc \<noteq> AtSelect))"

lemma resend_step_todo: "resend_step it L ls resent removed c c' \<Longrightarrow> round_todo resent c' < round_todo resent c"
  by (induction rule: resend_step.induct) (auto simp: round_todo_def)

lemma resend_ends: "\<nexists>c. \<forall>i. resend_step it L ls resent removed (c i) (c (Suc i))"
proof
  assume "\<exists>c. \<forall>i. resend_step it L ls resent removed (c i) (c (Suc i))"
  then obtain c where "\<And>i. resend_step it L ls resent removed (c i) (c (Suc i))" by blast
  then have "\<forall>i. (c (Suc i), c i) \<in> measure (round_todo resent)" using resend_step_todo by fastforce
  then show False using wf_measure unfolding wf_iff_no_infinite_down_chain by blast
qed

lemma resend_stops: "\<exists>c'. (resend_step it L ls resent removed)\<^sup>*\<^sup>* c c' \<and> (\<nexists>c''. resend_step it L ls resent removed c' c'')"
proof (induction "round_todo resent c" arbitrary: c rule: less_induct)
  case less
  show ?case
  proof (cases "\<exists>c1. resend_step it L ls resent removed c c1")
    case True
    then obtain c1 where c1: "resend_step it L ls resent removed c c1" by blast
    from less [OF resend_step_todo [OF c1]] c1 show ?thesis by (meson converse_rtranclp_into_rtranclp)
  qed blast
qed

text \<open>Handing over the operations.\<close>

lemma resend_hands_over:
  assumes "\<forall>oper \<in> set (butlast ops). in_batch b oper"
  shows "(resend_step it L ls resent removed)\<^sup>*\<^sup>* (RoundSending ops, b, s, AtSelect)
    (RoundSending [], b, s, if ops = [] \<or> in_batch b (last ops) then AtSelect else WantsMux (last ops))"
  using assms
proof (induction ops)
  case (Cons oper ops)
  note step = handover [of it L ls resent removed oper ops b s]
  show ?case
  proof (cases "ops = []")
    case True
    then show ?thesis using step by (auto intro: r_into_rtranclp)
  next
    case False
    then have "in_batch b oper" and rest: "\<forall>oper \<in> set (butlast ops). in_batch b oper" using Cons.prems by auto
    with step have "resend_step it L ls resent removed (RoundSending (oper # ops), b, s, AtSelect) (RoundSending ops, b, s, AtSelect)"
      by simp
    from converse_rtranclp_into_rtranclp [OF this Cons.IH [OF rest]] False show ?thesis by (simp only: last.simps list.simps if_False)
  qed
qed simp

lemma resend_reaches_unlocked:
  assumes "\<not> mux_held b" "\<forall>oper \<in> set (butlast resent). in_batch b oper"
  shows "(resend_step it L ls resent removed)\<^sup>*\<^sup>* (RoundStart, b, s, AtSelect)
    (RoundUnlocked, b, s, if resent = [] \<or> in_batch b (last resent) then AtSelect else WantsMux (last resent))"
proof -
  have "resend_step it L ls resent removed (RoundStart, b, s, AtSelect) (RoundSending resent, b, s, AtSelect)"
    using assms(1) by (rule read_lock)
  also note resend_hands_over [OF assms(2)]
  also have "resend_step it L ls resent removed (RoundSending [], b, s, pc) (RoundUnlocked, b, s, pc)" for pc
    by (rule read_unlock)
  finally show ?thesis .
qed

lemma resend_can_end:
  assumes "\<not> mux_held b" "\<forall>oper \<in> set (butlast resent). in_batch b oper"
  shows "\<exists>pc. (resend_step it L ls resent removed)\<^sup>*\<^sup>* (RoundStart, b, s, AtSelect) (RoundDone, b, remove_ops removed s, pc)"
proof -
  note resend_reaches_unlocked [OF assms]
  also have "resend_step it L ls resent removed (RoundUnlocked, b, s, pc) (RoundRemoved, b, remove_ops removed s, pc)" for pc
    using assms(1) by (rule remove)
  also have "resend_step it L ls resent removed (RoundRemoved, b, remove_ops removed s, pc) (RoundDone, b, remove_ops removed s, pc)" for pc
    by (rule update_cache)
  finally show ?thesis by blast
qed

text \<open>An operation that is not in the batch, before the last one, stops both goroutines.\<close>

lemma resend_stuck_inv:
  assumes "\<exists>oper \<in> set (butlast resent). \<not> in_batch b oper"
    and "(resend_step it L ls resent removed)\<^sup>*\<^sup>* (RoundStart, b, s, AtSelect) c"
  shows "c = (RoundStart, b, s, AtSelect) \<or>
    (\<exists>ops pc. c = (RoundSending ops, b, s, pc) \<and>
       (pc = AtSelect \<and> (\<exists>oper \<in> set (butlast ops). \<not> in_batch b oper) \<or> pc \<noteq> AtSelect \<and> ops \<noteq> []))"
  using assms(2)
proof (induction rule: rtranclp_induct)
  case (step c c')
  from step.IH show ?case
  proof (elim disjE exE conjE)
    assume "c = (RoundStart, b, s, AtSelect)"
    with step.hyps(2) assms(1) show ?thesis by (auto elim!: resend_startE)
  next
    fix ops pc
    assume c: "c = (RoundSending ops, b, s, pc)" and bad: "pc = AtSelect" "\<exists>oper \<in> set (butlast ops). \<not> in_batch b oper"
    then obtain oper ops' where ops: "ops = oper # ops'" "ops' \<noteq> []" by (cases ops) (auto split: if_splits)
    with c bad step.hyps(2) show ?thesis by (auto elim!: resend_sendE split: if_splits)
  next
    fix ops pc
    assume "c = (RoundSending ops, b, s, pc)" "pc \<noteq> AtSelect" "ops \<noteq> []"
    with step.hyps(2) show ?thesis by (auto elim!: resend_sendE)
  qed
qed simp

lemma resend_blocked:
  assumes "\<not> (\<not> mux_held b \<and> list_all (in_batch b) (butlast resent))"
  shows "\<not> (resend_step it L ls resent removed)\<^sup>*\<^sup>* (RoundStart, b, s, AtSelect) (RoundDone, b', s', pc)"
proof (cases "mux_held b")
  case True
  then have "\<not> resend_step it L ls resent removed (RoundStart, b, s, AtSelect) c" for c by (auto elim: resend_startE)
  then show ?thesis by (auto elim: converse_rtranclpE)
next
  case False
  with assms have "\<exists>oper \<in> set (butlast resent). \<not> in_batch b oper" by (auto simp: list_all_iff)
  then show ?thesis using resend_stuck_inv [where c = "(RoundDone, b', s', pc)"] by blast
qed

text \<open>If the last operation is not rejected, the lock is always free when the round needs it.\<close>

lemma resend_free_inv:
  assumes "\<not> mux_held b" "\<forall>oper \<in> set (butlast resent). in_batch b oper"
    and last: "resent = [] \<or> in_batch b (last resent) \<or> \<not> rejected s (last resent)"
    and run: "(resend_step it L ls resent removed)\<^sup>*\<^sup>* (RoundStart, b, s, AtSelect) (rd, b', s', pc)"
  shows "\<not> mux_held b' \<and> (\<forall>oper. pc = WantsMux oper \<longrightarrow> b' = b \<and> \<not> in_batch b oper \<and> \<not> rejected s' oper) \<and>
    (rd = RoundStart \<longrightarrow> pc = AtSelect \<and> b' = b \<and> s' = s) \<and>
    (\<forall>ops. rd = RoundSending ops \<longrightarrow> b' = b \<and> s' = s \<and> suffix ops resent \<and> (pc = AtSelect \<or> ops = []))"
  using run
proof (induction "(rd, b', s', pc)" arbitrary: rd b' s' pc rule: rtranclp_induct)
  case base
  then show ?case using assms(1) by simp
next
  case (step c)
  obtain rd1 b1 s1 pc1 where c: "c = (rd1, b1, s1, pc1)" by (cases c)
  note IH = step.hyps(3) [OF c]
  from step.hyps(2) [unfolded c] show ?case
  proof (cases rule: resend_step.cases)
    case (handover oper ops)
    have suf: "suffix (oper # ops) resent" using IH handover by blast
    then have "ops = [] \<longrightarrow> last resent = oper \<and> resent \<noteq> []" "ops \<noteq> [] \<longrightarrow> oper \<in> set (butlast resent)"
      by (auto simp: suffix_def butlast_append)
    then have "in_batch b oper \<or> ops = [] \<and> \<not> rejected s oper" using assms(2) last by blast
    then show ?thesis using IH handover suf by (auto dest: suffix_ConsD)
  next
    case (remove)
    then show ?thesis using IH rejected_remove by blast
  next
    case (acquire oper outs)
    then have "\<not> in_batch b1 oper" "\<not> rejected s1 oper" using IH by blast+
    with acquire have "\<not> mux_held b'" using receive_op_mux by blast
    moreover have "rd \<noteq> RoundStart" using IH acquire(1-3) by blast
    moreover have "rd \<noteq> RoundSending ops" for ops using acquire(1-4) by (metis reading.simps(1))
    ultimately show ?thesis using acquire by blast
  qed (use IH in auto)
qed

text \<open>A round in which an operation is answered with a failure at the end never takes the write lock.\<close>

lemma resend_rejected_stops:
  assumes "\<not> mux_held b" "\<forall>oper \<in> set (butlast resent). in_batch b oper"
    and "resent \<noteq> []" "\<not> in_batch b (last resent)" "rejected s (last resent)"
  shows "\<exists>b' s'. (resend_step it L ls resent removed)\<^sup>*\<^sup>* (RoundStart, b, s, AtSelect) (RoundUnlocked, b', s', AtSelect) \<and>
    (\<nexists>c. resend_step it L ls resent removed (RoundUnlocked, b', s', AtSelect) c)"
proof -
  obtain b' s' where r: "receive_op it L ls b s (last resent) = Some (Waiting b' s' [Reply (last resent) False])" "mux_held b'"
    using receive_op_rejected [OF assms(5,4,1)] by blast
  have "(resend_step it L ls resent removed)\<^sup>*\<^sup>* (RoundStart, b, s, AtSelect) (RoundUnlocked, b, s, WantsMux (last resent))"
    using resend_reaches_unlocked [OF assms(1,2)] assms(3,4) by simp
  also have "resend_step it L ls resent removed (RoundUnlocked, b, s, WantsMux (last resent)) (RoundUnlocked, b', s', AtSelect)"
    by (rule acquire [OF _ assms(1) r(1)]) simp
  finally show ?thesis using r(2) by (auto elim: resend_unlockedE)
qed

text \<open>A round that has not ended and needs no lock that is held can go on.\<close>

lemma resend_progress:
  assumes "\<not> mux_held b" "rd \<noteq> RoundDone" "\<forall>ops. rd = RoundSending ops \<longrightarrow> pc = AtSelect \<or> ops = []"
  shows "\<exists>c. resend_step it L ls resent removed (rd, b, s, pc) c"
proof (cases rd)
  case (RoundSending ops)
  with assms(3) show ?thesis by (cases ops) (blast intro: handover read_unlock)+
qed (use assms in \<open>blast intro: read_lock remove update_cache\<close>)+


section \<open>The mining loop\<close>

definition starts :: "mining_output list \<Rightarrow> nat" where
  "starts outs = length (filter (\<lambda>out. out = StartWorker) outs)"

definition mined :: "mining_output list \<Rightarrow> Block list" where
  "mined outs = concat (map (\<lambda>out. case out of ToAddBlock b \<Rightarrow> [b] | _ \<Rightarrow> []) outs)"

lemma mining_run_starts:
  "mining_run st es = Some (st', outs) \<Longrightarrow>
   starts outs + (if loop_isMining st then 1 else 0) \<le> length (mined outs) + (if loop_isMining st' then 1 else 0)"
proof (induction st es arbitrary: outs rule: mining_run.induct)
  case (2 st e es)
  obtain st1 outs1 where c: "mining_case st e = Looping st1 outs1"
    using "2.prems" by (cases "mining_case st e") auto
  with "2.prems" obtain outs2 where r: "mining_run st1 es = Some (st', outs2)" "outs = outs1 @ outs2" by auto
  have "starts outs1 + (if loop_isMining st then 1 else 0) \<le> length (mined outs1) + (if loop_isMining st1 then 1 else 0)"
    using c by (cases e) (auto simp: starts_def mined_def split: if_splits)
  with "2.IH" [OF c r(1)] r(2) show ?case by (auto simp: starts_def mined_def)
qed (simp add: starts_def mined_def)

lemma mining_run_mined: "mining_run st es = Some (st', outs) \<Longrightarrow> list_all (\<lambda>b. Nonce b > 0) (mined outs)"
proof (induction st es arbitrary: outs rule: mining_run.induct)
  case (2 st e es)
  obtain st1 outs1 where c: "mining_case st e = Looping st1 outs1"
    using "2.prems" by (cases "mining_case st e") auto
  with "2.prems" obtain outs2 where r: "mining_run st1 es = Some (st', outs2)" "outs = outs1 @ outs2" by auto
  have "list_all (\<lambda>b. Nonce b > 0) (mined outs1)"
    using c by (cases e) (auto simp: mined_def split: if_splits)
  with "2.IH" [OF c r(1)] r(2) show ?case by (simp add: mined_def)
qed (simp add: mined_def)

text \<open>C27: A worker is started only when the previous one has delivered a block. In every run of
  \<^verbatim>\<open>startMining\<close> the number of started workers exceeds the number of blocks passed to the
  chain manager by at most one, and by none when \<^verbatim>\<open>isMining\<close> is false; and every block
  passed on has a positive nonce.\<close>

theorem one_worker_at_a_time:
  assumes "mining_run NewMiningLoop es = Some (st, outs)"
  shows "starts outs \<le> length (mined outs) + (if loop_isMining st then 1 else 0) \<and>
    list_all (\<lambda>b. Nonce b > 0) (mined outs)"
  using mining_run_starts [OF assms] mining_run_mined [OF assms] by (simp add: NewMiningLoop_def)

theorem one_worker_at_a_time_witness:
  "\<exists>st outs. mining_run NewMiningLoop [MineSignal, MineSignal, FinishedMining (block1\<lparr>Nonce := 7\<rparr>), MineSignal] = Some (st, outs) \<and>
     starts outs = 2 \<and> starts outs \<le> length (mined outs) + (if loop_isMining st then 1 else 0)"
proof -
  obtain st outs where r: "mining_run NewMiningLoop [MineSignal, MineSignal, FinishedMining (block1\<lparr>Nonce := 7\<rparr>), MineSignal] = Some (st, outs)"
    and "starts outs = 2"
    by (simp add: NewMiningLoop_def starts_def)
  with one_worker_at_a_time [OF r] show ?thesis by blast
qed

text \<open>A block with nonce 0 stops the miner. The loop takes a nonce that is not positive for a
  cancelled search: it drops the block and keeps \<^verbatim>\<open>isMining\<close>. The search starts with the
  nonce 0, so with difficulty 0 every mined block is dropped; the worker has returned by then, and the loop
  ignores every later request to mine.\<close>

theorem nonce_zero_stops_mining:
  fixes H :: host and now :: int64 and h :: bytes
  assumes "worker_PowPerNoOpBlock w = 0" and "\<not> stop 0" and "set es \<subseteq> {MineSignal}"
  defines "b \<equiv> mineNoOp H now w h stop"
  shows "Validate H (NewProofOfWork b 0) \<and>
    mining_run NewMiningLoop (MineSignal # FinishedMining b # es) =
      Some (\<lparr>loop_isMining = True, loop_worker = True\<rparr>, [StartWorker])"
proof -
  have "Run H (NewProofOfWork blk 0) stop = (0, md5_sum H (prepareData H (NewProofOfWork blk 0) 0))" for blk
    using assms(2) unfolding Run_def by (subst run_loop.simps) (simp add: maxNonce_def pow_bits_def Let_def)
  then have "Nonce b = 0"
    using assms(1) by (simp add: b_def mineNoOp_def NewBlock_def Let_def)
  moreover have "mining_run \<lparr>loop_isMining = True, loop_worker = True\<rparr> es = Some (\<lparr>loop_isMining = True, loop_worker = True\<rparr>, [])"
    using assms(3) by (induction es) auto
  ultimately show ?thesis by (simp add: NewMiningLoop_def Validate_def pow_bits_def)
qed

theorem nonce_zero_stops_mining_witness:
  "mining_run NewMiningLoop [MineSignal, FinishedMining (mineNoOp sample_host 0 (NewWorker ''A'' 0 0) ''g'' (\<lambda>_. False)), MineSignal, MineSignal] =
     Some (\<lparr>loop_isMining = True, loop_worker = True\<rparr>, [StartWorker])"
  using nonce_zero_stops_mining [of "NewWorker ''A'' 0 0" "\<lambda>_. False" "[MineSignal, MineSignal]" sample_host 0 "''g''"]
  by (simp add: NewWorker_def)

end
