(* ===== verification/Miner_Start.thy ===== *)
theory Miner_Start
  imports P2p_Dial P2p_Batch
begin

text \<open>
  Starting and stopping a miner: \<^verbatim>\<open>NewMinerServer\<close>, both \<^verbatim>\<open>startListening\<close>,
  \<^verbatim>\<open>NewRPCServer\<close> and \<^verbatim>\<open>shutdown\<close> of \<^verbatim>\<open>p2p/p2p_rpc.go\<close> and
  \<^verbatim>\<open>p2p/rpc.go\<close>, and \<^verbatim>\<open>main\<close> of \<^verbatim>\<open>miner.go\<close>. Resolving addresses,
  registering handlers and listening are arguments that return an error or not. The trace of a start lists
  the goroutines that \<^verbatim>\<open>NewMinerServer\<close> and the functions it calls start themselves, in
  their order, next to the assignments of the channels that connect them. Goroutines that these start
  later are not in it: \<^verbatim>\<open>buildPendingOperations\<close>, which the mining loop starts (a part of
  \<open>MiningLoopGo\<close> here), the one of each peer, and the one of each served connection.
\<close>

record net_env =
  env_resolve :: "string \<Rightarrow> string + string"
  env_register :: "string \<Rightarrow> string option"
  env_listen :: "string \<Rightarrow> string option"

datatype goroutine =
    ManageBlockchain
  | ManagePeers
  | UpdateConfirmedFiles
  | CheckConfirmedOperations
  | UpdateConnectedStatus
  | AcceptClients
  | MiningLoopGo
  | AcceptMiners

datatype start_event = WgAdd | Go goroutine | SetClientRPC | SetNewBlockAdded | SetDownloadBlock

record MinerServer =
  ms_config :: Settings
  ms_clientRPC :: Server
  ms_manager :: ChainManager
  ms_dialed :: "(string, unit) gomap"
  ms_peers :: "pm_event list"

section \<open>Starting\<close>

text \<open>\<^verbatim>\<open>Server.startListening\<close>.\<close>

definition startListening_clients ::
  "net_env \<Rightarrow> 'l RFSLedger \<Rightarrow> 'l \<Rightarrow> string \<Rightarrow> Server \<Rightarrow> (start_event list \<times> 'l \<times> (string + Server)) option" where
  "startListening_clients env L l addr s =
     do {
       (l', fnames) \<leftarrow> ledger_ListFiles L l;
       (let s' = s\<lparr>confirmedFiles := fold (\<lambda>fname. AList.update fname ()) fnames (confirmedFiles s)\<rparr>
        in case env_register env ''Server'' of
             Some err \<Rightarrow> Some ([], l', Inl err)
           | None \<Rightarrow>
               (case env_listen env addr of
                  Some err \<Rightarrow> Some ([], l', Inl err)
                | None \<Rightarrow>
                    Some ([Go UpdateConfirmedFiles, Go CheckConfirmedOperations, Go UpdateConnectedStatus, Go AcceptClients],
                          l', Inr s')))
     }"

text \<open>\<^verbatim>\<open>MinerServer.startListening\<close>.\<close>

definition startListening_miners :: "net_env \<Rightarrow> Settings \<Rightarrow> start_event list \<times> string option" where
  "startListening_miners env cfg =
     (case env_register env ''MinerServer'' of
        Some err \<Rightarrow> ([], Some err)
      | None \<Rightarrow>
          (case env_listen env (IncomingMinersAddr cfg) of
             Some err \<Rightarrow> ([], Some err)
           | None \<Rightarrow> ([WgAdd, Go AcceptMiners], None)))"

text \<open>The trace, and the result: \<^term>\<open>None\<close> when dialing never ends, otherwise an error or the
  server. \<open>its\<close> and \<open>call\<close> are the arguments of \<^verbatim>\<open>startMinerRPC\<close>.\<close>

definition NewMinerServer ::
  "net_env \<Rightarrow> ChainManager RFSLedger \<Rightarrow> (nat \<Rightarrow> (string, addr) iter)
     \<Rightarrow> (nat \<Rightarrow> string \<Rightarrow> NewPeerInfo \<Rightarrow> (string + NewPeerResponse) option) \<Rightarrow> int64 \<Rightarrow> Settings
     \<Rightarrow> start_event list \<times> (string + MinerServer) option" where
  "NewMinerServer env L its call now cfg =
     (let manager = NewChainManager (NewBlockchain now cfg) cfg;
          evs1 = [Go ManageBlockchain, WgAdd, Go ManagePeers]
      in case env_resolve env (IncomingClientsAddr cfg) of
           Inl err \<Rightarrow> (evs1, Some (Inl err))
         | Inr addr \<Rightarrow>
             (let evs2 = evs1 @ [SetClientRPC, SetNewBlockAdded, SetDownloadBlock]
              in case startListening_clients env L manager addr (NewRPCServer cfg) of
                   None \<Rightarrow> (evs2, None)
                 | Some (evs3, manager', Inl err) \<Rightarrow> (evs2 @ evs3, Some (Inl err))
                 | Some (evs3, manager', Inr s) \<Rightarrow>
                     (let evs4 = evs2 @ evs3 @ [WgAdd, Go MiningLoopGo]
                      in case startListening_miners env cfg of
                           (evs5, Some err) \<Rightarrow> (evs4 @ evs5, Some (Inl err))
                         | (evs5, None) \<Rightarrow>
                             (evs4 @ evs5,
                              map_option (\<lambda>(m, dialed, evs). Inr \<lparr>ms_config = cfg, ms_clientRPC = s, ms_manager = m,
                                                                ms_dialed = dialed, ms_peers = evs\<rparr>)
                                (startMinerRPC its call manager')))))"

datatype exit = Fatal string | RunsForever

definition main ::
  "(string \<Rightarrow> string + bytes) \<Rightarrow> (bytes \<Rightarrow> Settings \<Rightarrow> Settings \<times> string option) \<Rightarrow> net_env \<Rightarrow> ChainManager RFSLedger
     \<Rightarrow> (nat \<Rightarrow> (string, addr) iter) \<Rightarrow> (nat \<Rightarrow> string \<Rightarrow> NewPeerInfo \<Rightarrow> (string + NewPeerResponse) option) \<Rightarrow> int64
     \<Rightarrow> string list \<Rightarrow> exit" where
  "main readFile unmarshal env L its call now args =
     (if length args \<noteq> 1 then Fatal ''Expect: go run miner.go [settings].''
      else case LoadSettings readFile unmarshal (args ! 0) of
             Inl err \<Rightarrow> Fatal err
           | Inr config \<Rightarrow>
               (case snd (NewMinerServer env L its call now config) of
                  Some (Inl err) \<Rightarrow> Fatal err
                | _ \<Rightarrow> RunsForever))"

section \<open>Accepting connections\<close>

text \<open>The loops over \<^verbatim>\<open>Accept\<close>, for the results of the calls. For other miners every
  iteration starts a goroutine that sends the connection; after an error it sends \<^verbatim>\<open>nil\<close>, which
  the loop drops, and then waits forever to send a second time. The number counts these goroutines.\<close>

fun accept_miners :: "(string + 'c) list \<Rightarrow> 'c list \<times> nat" where
  "accept_miners [] = ([], 0)"
| "accept_miners (Inl err # rs) = (let (served, leaked) = accept_miners rs in (served, leaked + 1))"
| "accept_miners (Inr conn # rs) = (let (served, leaked) = accept_miners rs in (conn # served, leaked))"

fun accept_clients :: "(string + 'c) list \<Rightarrow> 'c list" where
  "accept_clients [] = []"
| "accept_clients (Inl err # rs) = accept_clients rs"
| "accept_clients (Inr conn # rs) = conn # accept_clients rs"

lemma accept_loops:
  "accept_miners rs = (accept_clients rs, length (filter isl rs))" "accept_clients rs = map projr (filter (\<lambda>r. \<not> isl r) rs)"
  by (induction rs rule: accept_miners.induct) simp_all

section \<open>A start that succeeds\<close>

lemmas start_defs = NewMinerServer_def startListening_clients_def startListening_miners_def Let_def

text \<open>The trace of a start until it lets other miners connect.\<close>

definition wired :: "start_event list" where
  "wired = [Go ManageBlockchain, WgAdd, Go ManagePeers, SetClientRPC, SetNewBlockAdded, SetDownloadBlock,
     Go UpdateConfirmedFiles, Go CheckConfirmedOperations, Go UpdateConnectedStatus, Go AcceptClients, WgAdd, Go MiningLoopGo]"

text \<open>The wait group of a miner that has started counts three goroutines.\<close>

lemma started_counter: "count_list (wired @ [WgAdd, Go AcceptMiners]) WgAdd = 3"
  by (simp add: wired_def)

lemma ListFiles_genesis:
  assumes "is_iter it"
  shows "ListFiles it (NewBlockchain now cfg) = Some (queried (NewBlockchain now cfg), [])"
proof -
  let ?bc = "NewBlockchain now cfg"
  obtain names where names: "ListFiles it ?bc = Some (queried ?bc, names)"
    "set names = (case confirmed_chain ?bc (unat (ConfirmsPerFileCreate (bc_config ?bc))) of
         None \<Rightarrow> {} | Some bs \<Rightarrow> Filename ` set (chain_ops bs))"
    using ListFiles_run [OF bc_inv_New assms] by blast
  have "live ?bc = {0}" by (simp add: NewBlockchain_def live_def Let_def)
  then have "tip ?bc = 0" using tip_live [OF bc_inv_New, of now cfg] by simp
  then have "main_chain ?bc = [NewGenesisBlock now (GenesisBlockHash cfg)]"
    by (simp add: main_chain_def NewBlockchain_def newNode_def chain_blocks_step Let_def)
  moreover have "drop n [NewGenesisBlock now (GenesisBlockHash cfg)] = (if n = 0 then [NewGenesisBlock now (GenesisBlockHash cfg)] else [])" for n
    by (cases n) auto
  ultimately have "set names = {}"
    using names(2) by (auto simp: confirmed_chain_def NewGenesisBlock_def chain_ops_def split: option.splits if_splits)
  then show ?thesis using names(1) by simp
qed

text \<open>C21: A miner starts, under these conditions: the settings can be read, the addresses resolve, the
  handlers can be registered and the addresses listened on; the configured addresses of peers are
  distinct; every attempt to dial one of them returns either an error or blocks that can be synchronized
  with the tree; and from some attempt on all of them answer with such blocks. Then
  \<^verbatim>\<open>NewMinerServer\<close> returns, with its goroutines started in this order and every configured
  peer dialed, and \<^verbatim>\<open>main\<close> does not exit.\<close>

theorem miner_starts:
  assumes settings: "readFile fname = Inr content" "unmarshal content zero_Settings = (cfg, err)"
    and env: "env_resolve env (IncomingClientsAddr cfg) = Inr addr" "\<And>name. env_register env name = None"
      "env_listen env addr = None" "env_listen env (IncomingMinersAddr cfg) = None"
    and it: "is_iter it3" "\<And>k. is_iter (its k)" and dist: "distinct (PeerMinersAddrs cfg)"
    and answers: "\<And>k a. a \<in> set (PeerMinersAddrs cfg) \<Longrightarrow> answering call k a"
      "\<And>k a. K \<le> k \<Longrightarrow> a \<in> set (PeerMinersAddrs cfg) \<Longrightarrow> dialable call k a"
  shows "main readFile unmarshal env (ChainManager_ledger it1 it2 it3) its call now [fname] = RunsForever \<and>
    (\<exists>ms. NewMinerServer env (ChainManager_ledger it1 it2 it3) its call now cfg =
        (wired @ [WgAdd, Go AcceptMiners], Some (Inr ms)) \<and>
      fst ` set (ms_dialed ms) = set (PeerMinersAddrs cfg) \<and> ms_clientRPC ms = NewRPCServer cfg)"
proof -
  let ?bc = "NewBlockchain now cfg" and ?L = "ChainManager_ledger it1 it2 it3"
  let ?m = "NewChainManager (queried ?bc) cfg"
  have ls: "ledger_ListFiles ?L (NewChainManager ?bc cfg) = Some (?m, [])"
    using ListFiles_genesis [OF it(1), of now cfg] by (simp add: ChainManager_ledger_def under_lock_def NewChainManager_def)
  have cfg: "mgr_config ?m = cfg" by (simp add: NewChainManager_def)
  obtain m' dialed evs where run: "startMinerRPC its call ?m = Some (m', dialed, evs)"
      "fst ` set dialed = set (PeerMinersAddrs cfg)"
    using dial_loop_ends [where its = its and call = call and dialed = "[]" and k = 0 and evs = "[]" and K = K and m = ?m,
        unfolded cfg, OF dist it(2) answers] by (auto simp: startMinerRPC_def cfg)
  have "NewRPCServer cfg\<lparr>confirmedFiles := confirmedFiles (NewRPCServer cfg)\<rparr> = NewRPCServer cfg"
    by (simp add: NewRPCServer_def)
  then have "NewMinerServer env ?L its call now cfg = (wired @ [WgAdd, Go AcceptMiners],
      Some (Inr \<lparr>ms_config = cfg, ms_clientRPC = NewRPCServer cfg, ms_manager = m', ms_dialed = dialed, ms_peers = evs\<rparr>))"
    using env ls run(1) by (simp add: start_defs wired_def)
  then show ?thesis using settings run(2) by (simp add: main_def LoadSettings_def)
qed

theorem miner_starts_witness:
  "main (\<lambda>f. Inr f) (\<lambda>_ s. (sample_cfg\<lparr>PeerMinersAddrs := [''x'', ''y'']\<rparr>, None))
     \<lparr>env_resolve = Inr, env_register = \<lambda>_. None, env_listen = \<lambda>_. None\<rparr> (ChainManager_ledger rev rev rev) (\<lambda>_. rev)
     (\<lambda>k addr info. Some (if k < 3 then Inl ''refused'' else Inr genesis_response)) 0 [''settings.json''] = RunsForever"
proof -
  let ?call = "\<lambda>(k :: nat) (addr :: string) (info :: NewPeerInfo). Some (if k < 3 then Inl ''refused'' else Inr genesis_response)"
  let ?cfg = "sample_cfg\<lparr>PeerMinersAddrs := [''x'', ''y'']\<rparr>"
  let ?env = "\<lparr>env_resolve = Inr, env_register = \<lambda>_. None, env_listen = \<lambda>_. None\<rparr>"
  have "answering ?call k addr" for k addr
    using genesis_response_good by (simp add: answering_def)
  moreover have "dialable ?call k addr" if "3 \<le> k" for k addr
    using genesis_response_good that by (simp add: dialable_def)
  ultimately show ?thesis
    using miner_starts [of "\<lambda>f. Inr f" "''settings.json''" "''settings.json''" "\<lambda>_ s. (?cfg, None)" ?cfg None ?env
        "IncomingClientsAddr ?cfg" rev "\<lambda>_. rev" ?call 3 rev rev 0] by simp
qed

section \<open>Stopping\<close>

text \<open>
  After \<^verbatim>\<open>shutdown\<close> has closed \<^verbatim>\<open>stop\<close>, the \<^verbatim>\<open>select\<close> of each counted
  goroutine may take that case, or another one that is ready. The state is the counter of the wait group, whether
  \<^verbatim>\<open>managePeers\<close> and the loop that accepts miners run, and the mining loop if it runs;
  \<^verbatim>\<open>wg.Wait\<close> returns when the counter is 0. A started miner has the counter 3
  (\<open>started_counter\<close>) and all three goroutines; \<^verbatim>\<open>managePeers\<close> is taken to be at its
  \<^verbatim>\<open>select\<close>.
\<close>

type_synonym stopping = "nat \<times> bool \<times> bool \<times> MiningLoop option"

inductive stop_step :: "stopping \<Rightarrow> stopping \<Rightarrow> bool" where
  stop_peers: "stop_step (Suc wg, True, acc, loop) (wg, False, acc, loop)"
| stop_accept: "stop_step (Suc wg, pm, True, loop) (wg, pm, False, loop)"
| stop_mining: "mining_case st StopSignal = LoopReturned outs \<Longrightarrow> stop_step (Suc wg, pm, acc, Some st) (wg, pm, acc, None)"
| stop_other: "mining_case st e = Looping st' outs \<Longrightarrow> stop_step (wg, pm, acc, Some st) (wg, pm, acc, Some st')"

definition left_running :: "stopping \<Rightarrow> nat" where
  "left_running c = (case c of (wg, pm, acc, loop) \<Rightarrow> of_bool pm + of_bool acc + of_bool (loop \<noteq> None))"

text \<open>The counter is the number of counted goroutines that run; and a loop without worker stays.\<close>

lemma stop_inv:
  assumes "stop_step\<^sup>*\<^sup>* c c'" "fst c = left_running c"
  shows "fst c' = left_running c'"
  using assms
proof (induction rule: rtranclp_induct)
  case (step c1 c2)
  from step.hyps(2) show ?case using step.IH [OF step.prems] by cases (auto simp: left_running_def)
qed simp

lemma mining_case_worker:
  assumes "mining_case st e = Looping st' outs" "\<not> loop_worker st" shows "\<not> loop_worker st'"
  using assms by (cases e) (auto split: if_splits)

lemma stop_without_worker:
  assumes "stop_step\<^sup>*\<^sup>* (wg, pm, acc, Some st) c'" "\<not> loop_worker st"
  shows "\<exists>wg' pm' acc' st'. c' = (wg', pm', acc', Some st') \<and> \<not> loop_worker st'"
  using assms(1)
proof (induction rule: rtranclp_induct)
  case (step c1 c2)
  then obtain wg1 pm1 acc1 st1 where c1: "c1 = (wg1, pm1, acc1, Some st1)" "\<not> loop_worker st1" by blast
  from step.hyps(2) [unfolded c1(1)] show ?case
    using c1(2) by cases (auto dest: mining_case_worker)
qed (use assms(2) in simp)

text \<open>C33: \<^verbatim>\<open>shutdown\<close> can return exactly when the mining loop still has its worker. Then the three
  counted goroutines return in any order; but after a message on \<^verbatim>\<open>stopMining\<close> the loop has
  dropped its worker, ignores \<^verbatim>\<open>stop\<close> and spins, so that \<^verbatim>\<open>wg.Wait\<close> never
  returns. The counter never gets out of step with the goroutines.\<close>

theorem shutdown_returns_iff:
  "(\<exists>pm acc loop. stop_step\<^sup>*\<^sup>* (3, True, True, Some st) (0, pm, acc, loop)) \<longleftrightarrow> loop_worker st"
proof
  assume worker: "loop_worker st"
  have "stop_step (Suc 2, True, True, Some st) (2, False, True, Some st)" by (rule stop_peers)
  also have "stop_step\<^sup>*\<^sup>* (2, False, True, Some st) (1, False, False, Some st)"
    using stop_accept [of 1 False "Some st"] by (simp add: numeral_2_eq_2 r_into_rtranclp)
  also have "stop_step (Suc 0, False, False, Some st) (0, False, False, None)"
    using worker by (intro stop_mining) simp
  then have "stop_step (1, False, False, Some st) (0, False, False, None)" by simp
  finally have "stop_step\<^sup>*\<^sup>* (3, True, True, Some st) (0, False, False, None)" by (simp add: numeral_3_eq_3 numeral_2_eq_2)
  then show "\<exists>pm acc loop. stop_step\<^sup>*\<^sup>* (3, True, True, Some st) (0, pm, acc, loop)" by blast
next
  assume "\<exists>pm acc loop. stop_step\<^sup>*\<^sup>* (3, True, True, Some st) (0, pm, acc, loop)"
  then obtain pm acc loop where run: "stop_step\<^sup>*\<^sup>* (3, True, True, Some st) (0, pm, acc, loop)" by blast
  have "loop = None" using stop_inv [OF run] by (auto simp: left_running_def split: if_splits)
  then show "loop_worker st" using stop_without_worker [OF run] by blast
qed

section \<open>Stopping the worker\<close>

text \<open>\<^verbatim>\<open>Worker.Stop\<close> closes a channel; closing it twice would panic, which is
  \<^term>\<open>None\<close> here.\<close>

definition Stop :: "bool \<Rightarrow> bool option" where
  "Stop closed = (if closed then None else Some True)"

fun stop_calls :: "mining_output list \<Rightarrow> bool \<Rightarrow> bool option" where
  "stop_calls [] closed = Some closed"
| "stop_calls (CallStop # outs) closed = Option.bind (Stop closed) (stop_calls outs)"
| "stop_calls (out # outs) closed = stop_calls outs closed"

lemma stop_calls_append: "stop_calls (xs @ ys) closed = Option.bind (stop_calls xs closed) (stop_calls ys)"
  by (induction xs closed rule: stop_calls.induct) (simp_all add: Stop_def)

lemma stop_calls_run:
  "mining_run st es = Some (st', outs) \<Longrightarrow> stop_calls outs (\<not> loop_worker st) = Some (\<not> loop_worker st')"
proof (induction st es arbitrary: outs rule: mining_run.induct)
  case (2 st e es)
  obtain st1 outs1 where c: "mining_case st e = Looping st1 outs1"
    using "2.prems" by (cases "mining_case st e") auto
  with "2.prems" obtain outs2 where r: "mining_run st1 es = Some (st', outs2)" "outs = outs1 @ outs2" by auto
  have "stop_calls outs1 (\<not> loop_worker st) = Some (\<not> loop_worker st1)"
    using c by (cases e) (auto simp: Stop_def split: if_splits)
  with "2.IH" [OF c r(1)] r(2) show ?case by (simp add: stop_calls_append)
qed simp

text \<open>The mining loop never closes the channel of its worker twice, whatever it is asked to do, also
  when it returns.\<close>

theorem worker_stopped_once:
  assumes "mining_run NewMiningLoop es = Some (st, outs)"
  shows "stop_calls outs False \<noteq> None \<and>
    (\<forall>outs'. mining_case st StopSignal = LoopReturned outs' \<longrightarrow> stop_calls (outs @ outs') False = Some True)"
  using stop_calls_run [OF assms] by (auto simp: NewMiningLoop_def stop_calls_append Stop_def)

theorem worker_stopped_once_witness:
  "\<exists>st outs. mining_run NewMiningLoop [MineSignal, StopMiningSignal, StopMiningSignal, StopSignal] = Some (st, outs) \<and>
     stop_calls outs False \<noteq> None"
proof -
  obtain st outs where r: "mining_run NewMiningLoop [MineSignal, StopMiningSignal, StopMiningSignal, StopSignal] = Some (st, outs)"
    by (simp add: NewMiningLoop_def)
  with worker_stopped_once [OF r] show ?thesis by blast
qed

end
