(* ===== verification/Spec2Isabelle.thy ===== *)
theory Spec2Isabelle
  imports Bclib_Replica Bclib_Codec Rfslib Mining_Worker P2p_Manager P2p_Gossip P2p_Catchup P2p_Node P2p_Resolver Miner_Start
begin

text \<open>
  A verification of the rfs-miner, a peer-to-peer record file system on a block chain
  (\<^verbatim>\<open>github.com/jlingohr/rfs-miner\<close>, Go sources under \<^verbatim>\<open>src/\<close>).

  \<^bold>\<open>The program.\<close> Clients create files and append records through the library
  \<^verbatim>\<open>rfslib\<close>. A miner serves them (\<^verbatim>\<open>p2p/rpc.go\<close>), collects operations
  into batches, mines blocks (\<^verbatim>\<open>mining/worker.go\<close>, \<^verbatim>\<open>bclib/pow.go\<close>), floods
  operations and blocks to its peers (\<^verbatim>\<open>p2p/p2p_rpc.go\<close>,
  \<^verbatim>\<open>p2p/peer.go\<close>) and keeps a tree of blocks (\<^verbatim>\<open>bclib/blockchain.go\<close>)
  behind one goroutine (\<^verbatim>\<open>p2p/blockchain_manager.go\<close>). A file is what the longest chain
  says about it, once enough blocks follow (\<^verbatim>\<open>bclib/blockchain_rfs.go\<close>).

  \<^bold>\<open>Theories and sources.\<close>

  \<^item> \<open>Go_Prelude\<close>: Go types, maps with their unspecified iteration order, lemmas on lists and
    maps. \<open>Miner_Settings\<close>: \<^verbatim>\<open>settings/settings.go\<close>.
  \<^item> \<open>Bclib_Operation\<close>, \<open>Bclib_Block\<close>: \<^verbatim>\<open>bclib/operation.go\<close>,
    \<^verbatim>\<open>block.go\<close>, \<^verbatim>\<open>pow.go\<close>. Operations, the filter of a batch, the nonce
    search and the proof of work.
  \<^item> \<open>Bclib_Heap\<close>, \<open>Bclib_Tree\<close>, \<open>Bclib_Blockchain\<close>, \<open>Bclib_Ledger\<close>,
    \<open>Bclib_View\<close>, \<open>Bclib_Replica\<close>, \<open>Bclib_Sync\<close>:
    \<^verbatim>\<open>bclib/blockchain.go\<close>. Nodes are records in an explicit store,
    with parent and children as addresses. \<open>Bclib_Tree\<close> has the invariant \<open>bc_inv\<close>,
    termination and correctness of the depth-first search; \<open>Bclib_Blockchain\<close> has
    \<^verbatim>\<open>AddBlock\<close>, \<^verbatim>\<open>UnmarshallBlockchain\<close> and \<^verbatim>\<open>MergeBlocks\<close>;
    \<open>Bclib_Ledger\<close> shows that \<^verbatim>\<open>AddBlock\<close> keeps balances and identifiers safe and
    refines an abstract ledger; \<open>Bclib_View\<close> and \<open>Bclib_Replica\<close> compare the trees of
    different miners through this ledger; \<open>Bclib_Sync\<close> treats trees rebuilt from the blocks of a
    peer. \<open>Bclib_Codec\<close>: the encoding of blocks, operations and trees as bytes
    (\<^verbatim>\<open>block.go\<close>, \<^verbatim>\<open>operation.go\<close>, \<^verbatim>\<open>Marshall\<close>).
  \<^item> \<open>Bclib_Rfs\<close>, \<open>Bclib_Validate\<close>, \<open>Bclib_Files\<close>, \<open>Bclib_Interface\<close>:
    \<^verbatim>\<open>bclib/blockchain_rfs.go\<close>. Validation of operations, files on the confirmed part of
    the longest chain, and the interface \<^verbatim>\<open>RFSLedger\<close> with its laws as the locales
    \<open>file_ledger\<close> and \<open>mining_ledger\<close>, which the block tree and the chain manager
    interpret. \<open>Bclib_Sample\<close>: concrete trees for the witnesses.
  \<^item> \<open>P2p_Rpc\<close>, \<open>Rfslib\<close>: \<^verbatim>\<open>p2p/rpc.go\<close>, \<^verbatim>\<open>rfslib/rfslib.go\<close>.
    The handlers for clients over the interface of the ledger, and the client library.
  \<^item> \<open>Mining_Worker\<close>: \<^verbatim>\<open>mining/worker.go\<close>.
  \<^item> \<open>P2p_Manager\<close>: \<^verbatim>\<open>p2p/blockchain_manager.go\<close>. The cases of its loop, its step
    relation \<open>mgr_step\<close>, the invariant of all reached states, the refinement of its runs to a
    ledger without channels (\<open>ledger_run\<close>), and the ledger interface.
  \<^item> \<open>P2p_Peers\<close>, \<open>P2p_Flooding\<close>, \<open>P2p_Gossip\<close>, \<open>P2p_Blocking\<close>:
    \<^verbatim>\<open>managePeers\<close> of \<^verbatim>\<open>p2p/p2p_rpc.go\<close> and
    \<^verbatim>\<open>p2p/peer.go\<close>; flooding of operations through a network (locale \<open>flood_net\<close>);
    flooding of blocks through a network of miners whose goroutines interleave (\<open>net_step\<close>: receiving a
    block, serving a channel of the chain manager, and serving its outputs are separate steps), proved by
    a simulation of a gossip protocol; how these goroutines wait for each other.
  \<^item> \<open>P2p_Catchup\<close>: a miner that is behind, from the block with unknown predecessor over the
    download to the replay of the blocks. \<open>P2p_Node\<close>: the chain manager and
    \<^verbatim>\<open>managePeers\<close> of one miner composed (\<open>node_step\<close>), and two connected miners
    (\<open>pair_step\<close>).
  \<^item> \<open>P2p_Batch\<close>: \<^verbatim>\<open>buildPendingOperations\<close> and \<^verbatim>\<open>startMining\<close> of
    \<^verbatim>\<open>p2p/p2p_rpc.go\<close>, and a round of \<^verbatim>\<open>checkConfirmedOperations\<close> next to the first
    one, with the lock that both use (\<open>resend_step\<close>). \<open>P2p_Dial\<close>: \<^verbatim>\<open>DialPeer\<close> and
    \<^verbatim>\<open>startMinerRPC\<close>. \<open>P2p_Resolver\<close>: \<^verbatim>\<open>p2p/chain_resolver.go\<close>.
  \<^item> \<open>Miner_Start\<close>: \<^verbatim>\<open>main\<close> (\<^verbatim>\<open>miner.go\<close>),
    \<^verbatim>\<open>NewMinerServer\<close>, both \<^verbatim>\<open>startListening\<close>, and \<^verbatim>\<open>shutdown\<close>.

  \<^bold>\<open>Conventions.\<close> A loop over pointers that may not end is a \<open>partial_function\<close> with
  result \<^term>\<open>None\<close> when it does not return; theorems that a call returns state
  \<open>Some\<close>. Functions that range over a Go map take the iteration order as an argument and the theorems
  hold for every order (\<open>is_iter\<close>). MD5, gob, JSON and
  \<^verbatim>\<open>sort.Slice\<close> are arguments. The clock, files, the network and the answers of other miners are
  arguments too. A download answers with 500 blocks and the channels of the chain manager hold 1000 and 100
  blocks, as in the code. Goroutines are step relations or
  functions on events; channels without buffer are rendezvous steps where waiting matters
  (\<open>link_step\<close>, \<open>resend_step\<close>, \<open>node_step\<close>, \<open>pair_step\<close>) and output lists elsewhere; locks appear in the
  model where a theorem depends on them.

  \<^bold>\<open>What is shown.\<close> On every chain of a tree that a miner builds, also through the chain
  manager, nobody spends more than it mined and no operation occurs twice. The tree refines a map from
  hashes to chains. Validation, the search for the longest chains, the file operations and confirmation
  are characterised exactly, and records keep their positions while the longest chain grows, so that what a
  client appends through the library it reads back, once the operation is confirmed on the longest chain. Trees survive the trip to a peer, also as bytes, and miners with the same
  blocks accept the same blocks and operations, in whatever order they received them. Flooding one
  operation, or one block that all miners accept, ends and reaches every connected miner. A miner that is
  behind replays the blocks that it lacks in every interleaving, if one answer of one peer is enough and no other block
  arrives meanwhile; batches lose no operation; a miner starts when its configured peers, with distinct
  addresses, eventually answer with blocks that can be synchronized. Other theorems show where the program fails:
  operations or blocks of peers that hang or panic a miner, deadlocks between the goroutines of one miner
  and between two miners, gaps that are never downloaded, a shutdown that does not end, and a worker that
  mines on the wrong block.

  \<^bold>\<open>Not modelled.\<close> Logging; the libraries for gob, JSON, TCP and \<^verbatim>\<open>net/rpc\<close>,
  which appear as arguments; \<^verbatim>\<open>bclib/transaction.go\<close> and the types \<^verbatim>\<open>Miner\<close>,
  \<^verbatim>\<open>PeerStatus\<close>, \<^verbatim>\<open>NewPeerRequest\<close> and \<^verbatim>\<open>PendingBlock\<close>, which are not
  used. \<^verbatim>\<open>nil\<close> and empty slices are the same value.
\<close>

end
